(* ===== verification/Base.thy ===== *)
theory Base
  imports Main "HOL-Library.Word" "HOL-Library.Char_ord" "HOL-Library.Multiset"
begin

text \<open>
  The prelude of the development: the machine integer types the program uses, the
  conversions between them, the collections of facts the component proofs share, and
  generic lemmas on words, lists and options that more than one component needs.

  \<^item> \<open>u64\<close>, \<open>u32\<close>, \<open>u8\<close> stand for \<open>std::uint64_t\<close>, \<open>unsigned\<close> (32 bits on the supported
    Linux targets) and \<open>unsigned char\<close>; their arithmetic wraps.
  \<^item> \<open>std::int64_t\<close> and \<open>int\<close> values are HOL integers; \<open>in_i64\<close> states the range and the
    casts from unsigned values go through \<open>sint\<close>, so that they reinterpret the bits.
  \<^item> \<open>std::size_t\<close> values that index or measure a string are \<open>nat\<close>.
  \<^item> text is a HOL \<open>string\<close>, one \<open>char\<close> per byte.
\<close>

type_synonym u64 = "64 word"
type_synonym u32 = "32 word"
type_synonym u8 = "8 word"

named_theorems word_nat "equations that move a word statement to natural numbers"
named_theorems component_defs "definitions that the component proofs unfold"

section \<open>Signed 64-bit range\<close>

definition in_i64 :: "int \<Rightarrow> bool" where
  "in_i64 v \<longleftrightarrow> - (2 ^ 63) \<le> v \<and> v < 2 ^ 63"

lemma in_i64_sint [simp, intro]: "in_i64 (sint (w :: u64))"
  using sint_lt [of w] sint_ge [of w] by (simp add: in_i64_def)

lemma sint_eq_uint_u64: "uint (w :: u64) < 2 ^ 63 \<Longrightarrow> sint w = uint w"
proof -
  assume "uint w < 2 ^ 63"
  moreover have "- (2 ^ 63) \<le> uint w"
    by (rule order_trans [OF _ uint_ge_0]) simp
  ultimately have "signed_take_bit 63 (uint w) = uint w"
    by (rule signed_take_bit_int_eq_self [rotated])
  then show ?thesis by (simp add: sint_uint)
qed

lemma uint_word_of_int_nonneg:
  "0 \<le> v \<Longrightarrow> v < 2 ^ 64 \<Longrightarrow> uint (word_of_int v :: u64) = v"
  by (simp add: uint_word_of_int)

section \<open>Words as natural numbers\<close>

text \<open>\<open>std::numeric_limits<std::uint64_t>::max()\<close>.\<close>

definition u64_max :: u64 where
  "u64_max = 18446744073709551615"

lemma unat_u64_max: "unat u64_max = 2 ^ 64 - 1"
  by (simp add: u64_max_def)

lemma unat_lt_u64: "unat (w :: u64) < 2 ^ 64"
  using unsigned_less [of w, where 'a = nat] by simp

lemma unat_add_u64:
  "unat (a :: u64) + unat b < 2 ^ 64 \<Longrightarrow> unat (a + b) = unat a + unat b"
  by (simp add: unat_word_ariths)

lemma unat_mult_u64:
  "unat (a :: u64) * unat b < 2 ^ 64 \<Longrightarrow> unat (a * b) = unat a * unat b"
  by (simp add: unat_word_ariths)

lemma unat_sub_u64: "(b :: u64) \<le> a \<Longrightarrow> unat (a - b) = unat a - unat b"
  by (rule unat_sub)

lemma unat_of_nat_u64: "n < 2 ^ 64 \<Longrightarrow> unat (of_nat n :: u64) = n"
  by (simp add: unat_of_nat)

lemma unat_succ_u64: "unat (a :: u64) + 1 < 2 ^ 64 \<Longrightarrow> unat (a + 1) = unat a + 1"
  by (simp add: unat_word_ariths)

lemmas u64_less_nat [word_nat] = word_less_nat_alt [where 'a = 64]
lemmas u64_le_nat [word_nat] = word_le_nat_alt [where 'a = 64]

lemma u64_eq_nat: "(a :: u64) = b \<longleftrightarrow> unat a = unat b"
  by (simp add: word_unat_eq_iff)

lemma le_u64_max [simp]: "w \<le> u64_max"
  using unat_lt_u64 [of w] by (simp add: word_nat unat_u64_max)

section \<open>Lists and options\<close>

definition newline :: char where
  "newline = CHR 0x0A"

lemma takeWhile_all: "list_all P xs \<Longrightarrow> takeWhile P xs = xs"
  by (induction xs) auto

lemma dropWhile_Nil_iff: "dropWhile P xs = [] \<longleftrightarrow> list_all P xs"
  by (induction xs) auto

lemma list_all_replicate: "P x \<Longrightarrow> list_all P (replicate n x)"
  by (induction n) auto

section \<open>Order statistics\<close>

text \<open>
  The element of rank \<open>k\<close> of a list is \<open>sort xs ! k\<close>. Fewer than \<open>k + 1\<close> elements are
  below it and at least \<open>k + 1\<close> are not above it.
\<close>

lemma length_filter_imp:
  assumes "\<And>x. P x \<Longrightarrow> Q x"
  shows "length (filter P xs) \<le> length (filter Q xs)"
  using assms by (induction xs) (auto simp: le_SucI)

lemma length_filter_sort: "length (filter P (sort xs)) = length (filter P xs)"
  by (metis mset_sort mset_filter size_mset)

lemma rank_at_least:
  fixes xs :: "'a :: linorder list"
  assumes "k < length xs"
  shows "Suc k \<le> length (filter (\<lambda>y. y \<le> sort xs ! k) xs)"
proof -
  let ?ys = "sort xs"
  have "filter (\<lambda>y. y \<le> ?ys ! k) (take (Suc k) ?ys) = take (Suc k) ?ys"
    using assms by (auto simp: filter_id_conv in_set_conv_nth less_Suc_eq_le intro!: sorted_nth_mono)
  then have "Suc k \<le> length (filter (\<lambda>y. y \<le> ?ys ! k) (take (Suc k) ?ys))" using assms by simp
  also have "\<dots> \<le> length (filter (\<lambda>y. y \<le> ?ys ! k) (take (Suc k) ?ys @ drop (Suc k) ?ys))"
    unfolding filter_append by simp
  also have "\<dots> = length (filter (\<lambda>y. y \<le> ?ys ! k) xs)"
    unfolding append_take_drop_id length_filter_sort ..
  finally show ?thesis .
qed

lemma rank_at_most:
  fixes xs :: "'a :: linorder list"
  assumes "k < length xs"
  shows "length (filter (\<lambda>y. y < sort xs ! k) xs) \<le> k"
proof -
  let ?ys = "sort xs"
  have "\<not> y < ?ys ! k" if "y \<in> set (drop k ?ys)" for y
    using that assms by (auto simp: in_set_conv_nth not_less intro!: sorted_nth_mono)
  then have none: "filter (\<lambda>y. y < ?ys ! k) (drop k ?ys) = []" by (simp add: filter_empty_conv)
  have "length (filter (\<lambda>y. y < ?ys ! k) xs)
      = length (filter (\<lambda>y. y < ?ys ! k) (take k ?ys @ drop k ?ys))"
    unfolding append_take_drop_id length_filter_sort ..
  also have "\<dots> = length (filter (\<lambda>y. y < ?ys ! k) (take k ?ys))"
    unfolding filter_append none by simp
  also have "\<dots> \<le> k" by (rule order_trans [OF length_filter_le]) simp
  finally show ?thesis .
qed

section \<open>Text files\<close>

text \<open>
  What becomes of a text written through a file stream that is checked after the last \<open>operator<<\<close>
  or \<open>write\<close> and not after its destructor has closed the file, which ignores a failure to store
  what is still in the buffer: \<open>Lost_on_close n\<close> is that case, only \<open>n\<close> bytes stored and no exception.
\<close>

datatype text_outcome = Text_stored | Not_created | Text_stopped nat | Lost_on_close nat

definition stored_text :: "text_outcome \<Rightarrow> string \<Rightarrow> string" where
  "stored_text outcome val =
     (case outcome of
        Text_stored \<Rightarrow> val | Not_created \<Rightarrow> [] | Text_stopped n \<Rightarrow> take n val | Lost_on_close n \<Rightarrow> take n val)"

end
