(* ===== verification/SpscQueue.thy ===== *)
theory SpscQueue
  imports Base
begin

text \<open>
  The bounded handoff queues of the pipelines. \<open>standard_spsc_queue\<close> (\<open>src/core.cpp\<close>) is a
  ring of optional slots under a mutex, so each operation is one atomic step; its capacity is
  the length of the slot array. The Bengal queue is a third-party class with the same two
  operations. What a pipeline may rely on is the locale \<open>bounded_queue\<close>: a FIFO list of at
  most \<open>capacity\<close> elements, where a push fails exactly when it is full and a pop exactly when
  it is empty. The ring is shown to satisfy it at every positive capacity.
\<close>

section \<open>The interface\<close>

locale bounded_queue =
  fixes push :: "'a \<Rightarrow> 'q \<Rightarrow> bool \<times> 'q"
    and pop :: "'q \<Rightarrow> 'a option \<times> 'q"
    and contents :: "'q \<Rightarrow> 'a list"
    and invar :: "'q \<Rightarrow> bool"
    and capacity :: nat
    and empty_queue :: "'q"
  assumes capacity_pos: "0 < capacity"
    and invar_empty: "invar empty_queue"
    and contents_empty: "contents empty_queue = []"
    and contents_bounded: "invar q \<Longrightarrow> length (contents q) \<le> capacity"
    and invar_push: "invar q \<Longrightarrow> invar (snd (push x q))"
    and push_result: "invar q \<Longrightarrow> fst (push x q) \<longleftrightarrow> length (contents q) < capacity"
    and push_contents: "invar q \<Longrightarrow>
      contents (snd (push x q)) = (if length (contents q) < capacity then contents q @ [x]
                                   else contents q)"
    and invar_pop: "invar q \<Longrightarrow> invar (snd (pop q))"
    and pop_result: "invar q \<Longrightarrow>
      fst (pop q) = (case contents q of [] \<Rightarrow> None | x # xs \<Rightarrow> Some x)"
    and pop_contents: "invar q \<Longrightarrow> contents (snd (pop q)) = tl (contents q)"

text \<open>Sequences of operations and their outputs, over any queue and over lists.\<close>

datatype 'a queue_op = Push 'a | Pop

datatype 'a queue_out = Pushed bool | Popped "'a option"

fun run_ops :: "('a \<Rightarrow> 'q \<Rightarrow> bool \<times> 'q) \<Rightarrow> ('q \<Rightarrow> 'a option \<times> 'q) \<Rightarrow> 'a queue_op list \<Rightarrow> 'q
    \<Rightarrow> 'a queue_out list" where
  "run_ops push pop [] q = []"
| "run_ops push pop (Push x # ops) q =
     (case push x q of (ok, q') \<Rightarrow> Pushed ok # run_ops push pop ops q')"
| "run_ops push pop (Pop # ops) q =
     (case pop q of (r, q') \<Rightarrow> Popped r # run_ops push pop ops q')"

definition fifo_push :: "nat \<Rightarrow> 'a \<Rightarrow> 'a list \<Rightarrow> bool \<times> 'a list" where
  "fifo_push cap x xs = (if length xs < cap then (True, xs @ [x]) else (False, xs))"

fun fifo_pop :: "'a list \<Rightarrow> 'a option \<times> 'a list" where
  "fifo_pop [] = (None, [])"
| "fifo_pop (x # xs) = (Some x, xs)"

context bounded_queue
begin

lemma push_cases:
  assumes "invar q"
  obtains (pushed) q' where "push x q = (True, q')" "invar q'" "contents q' = contents q @ [x]"
      "length (contents q) < capacity"
    | (full) q' where "push x q = (False, q')" "invar q'" "contents q' = contents q"
      "length (contents q) = capacity"
  using assms push_result [OF assms, of x] push_contents [OF assms, of x]
    invar_push [OF assms, of x] contents_bounded [OF assms]
  by (cases "push x q") (auto split: if_splits)

lemma pop_cases:
  assumes "invar q"
  obtains (empty) q' where "pop q = (None, q')" "invar q'" "contents q = []" "contents q' = []"
    | (popped) x q' where "pop q = (Some x, q')" "invar q'" "contents q = x # contents q'"
  using assms pop_result [OF assms] pop_contents [OF assms] invar_pop [OF assms]
  by (cases "pop q"; cases "contents q") auto

lemma run_ops_fifo:
  "invar q \<Longrightarrow> run_ops push pop ops q = run_ops (fifo_push capacity) fifo_pop ops (contents q)"
proof (induction ops arbitrary: q)
  case Nil
  show ?case by simp
next
  case (Cons op ops)
  show ?case
  proof (cases op)
    case (Push x)
    from Cons.prems show ?thesis
      by (cases rule: push_cases [where x = x]) (simp_all add: Push Cons.IH fifo_push_def)
  next
    case Pop
    from Cons.prems show ?thesis
      by (cases rule: pop_cases) (simp_all add: Pop Cons.IH)
  qed
qed

end

section \<open>standard\_spsc\_queue\<close>

record 'a ring =
  slots :: "'a option list"
  read_index :: nat
  write_index :: nat
  ring_size :: nat

definition queue_capacity :: nat where
  "queue_capacity = 4096"

definition empty_ring :: "nat \<Rightarrow> 'a ring" where
  "empty_ring cap = \<lparr>slots = replicate cap None, read_index = 0, write_index = 0, ring_size = 0\<rparr>"

definition try_push :: "'a \<Rightarrow> 'a ring \<Rightarrow> bool \<times> 'a ring" where
  "try_push v q =
     (if ring_size q = length (slots q) then (False, q)
      else (True, q\<lparr>slots := (slots q)[write_index q := Some v],
                    write_index := (write_index q + 1) mod length (slots q),
                    ring_size := ring_size q + 1\<rparr>))"

definition try_pop :: "'a ring \<Rightarrow> 'a option \<times> 'a ring" where
  "try_pop q =
     (if ring_size q = 0 then (None, q)
      else (slots q ! read_index q,
            q\<lparr>slots := (slots q)[read_index q := None],
              read_index := (read_index q + 1) mod length (slots q),
              ring_size := ring_size q - 1\<rparr>))"

text \<open>The \<open>i\<close>-th queued element is in the slot \<open>i\<close> places after the read index.\<close>

definition slot_of :: "'a ring \<Rightarrow> nat \<Rightarrow> nat" where
  "slot_of q i = (read_index q + i) mod length (slots q)"

definition ring_contents :: "'a ring \<Rightarrow> 'a list" where
  "ring_contents q = map (\<lambda>i. the (slots q ! slot_of q i)) [0..<ring_size q]"

text \<open>Exactly the queued slots are engaged; the others are \<open>std::nullopt\<close>.\<close>

definition ring_ok :: "nat \<Rightarrow> 'a ring \<Rightarrow> bool" where
  "ring_ok cap q \<longleftrightarrow> length (slots q) = cap \<and> read_index q < cap \<and> ring_size q \<le> cap \<and>
     write_index q = slot_of q (ring_size q) \<and>
     (\<forall>i < cap. slots q ! slot_of q i = None \<longleftrightarrow> ring_size q \<le> i)"

lemma slot_of_less: "0 < length (slots q) \<Longrightarrow> slot_of q i < length (slots q)"
  by (simp add: slot_of_def)

lemma mod_add_neq:
  assumes "i < j" and "j < (n :: nat)"
  shows "(r + i) mod n \<noteq> (r + j) mod n"
proof
  assume "(r + i) mod n = (r + j) mod n"
  then have "n dvd (r + j) - (r + i)" using assms by (subst mod_eq_dvd_iff_nat [symmetric]) simp_all
  with assms show False by (auto dest: dvd_imp_le)
qed

lemma slot_of_inj:
  assumes "i < length (slots q)" and "j < length (slots q)"
  shows "slot_of q i = slot_of q j \<longleftrightarrow> i = j"
  using assms mod_add_neq [of i j _ "read_index q"] mod_add_neq [of j i _ "read_index q"]
  unfolding slot_of_def by (metis linorder_neqE_nat)

lemma length_ring_contents [simp]: "length (ring_contents q) = ring_size q"
  by (simp add: ring_contents_def)

lemma ring_ok_empty: "0 < cap \<Longrightarrow> ring_ok cap (empty_ring cap)"
  by (simp add: ring_ok_def empty_ring_def slot_of_def)

lemma try_push_full: "ring_ok cap q \<Longrightarrow> ring_size q = cap \<Longrightarrow> try_push v q = (False, q)"
  by (simp add: try_push_def ring_ok_def)

lemma try_pop_empty: "ring_size q = 0 \<Longrightarrow> try_pop q = (None, q)"
  by (simp add: try_pop_def)

text \<open>A push with room fills the slot after the last queued one.\<close>

lemma try_push_room:
  assumes ok: "ring_ok cap q" and room: "ring_size q < cap"
  obtains q' where "try_push v q = (True, q')" and "ring_ok cap q'"
    and "ring_contents q' = ring_contents q @ [v]"
proof -
  let ?n = "ring_size q"
  let ?q = "snd (try_push v q)"
  have len: "length (slots q) = cap" and w: "write_index q = slot_of q ?n"
    and engaged: "\<And>i. i < cap \<Longrightarrow> slots q ! slot_of q i = None \<longleftrightarrow> ?n \<le> i"
    using ok by (simp_all add: ring_ok_def)
  have q': "try_push v q = (True, ?q)"
    "slots ?q = (slots q)[slot_of q ?n := Some v]" "read_index ?q = read_index q"
    "write_index ?q = (slot_of q ?n + 1) mod cap" "ring_size ?q = ?n + 1"
    using room len w by (simp_all add: try_push_def)
  have slot: "slot_of ?q i = slot_of q i" for i using q' len by (simp add: slot_of_def)
  have cell: "slots ?q ! slot_of q i = (if i = ?n then Some v else slots q ! slot_of q i)"
    if "i < cap" for i
    using that room len q'(2) slot_of_inj [of i q ?n] slot_of_less [of q i]
    by (auto simp: nth_list_update)
  have "slot_of q (?n + 1) = (slot_of q ?n + 1) mod cap"
    using len by (simp add: slot_of_def mod_Suc_eq)
  then have wr: "write_index ?q = slot_of ?q (?n + 1)" using q'(4) slot by simp
  have "slots ?q ! slot_of ?q i = None \<longleftrightarrow> ?n + 1 \<le> i" if "i < cap" for i
    unfolding slot cell [OF that] using engaged [OF that] by auto
  then have "ring_ok cap ?q"
    using ok room wr by (simp add: ring_ok_def q'(2,3,5))
  moreover have "ring_contents ?q = ring_contents q @ [v]"
    unfolding ring_contents_def slot q'(5) using room by (simp add: cell)
  ultimately show ?thesis using q'(1) that by blast
qed

text \<open>A pop empties the slot at the read index and moves past it.\<close>

lemma try_pop_some:
  assumes ok: "ring_ok cap q" and some: "0 < ring_size q"
  obtains v q' where "try_pop q = (Some v, q')" and "ring_ok cap q'"
    and "ring_contents q = v # ring_contents q'"
proof -
  let ?n = "ring_size q"
  let ?q = "snd (try_pop q)"
  have len: "length (slots q) = cap" and r: "read_index q < cap" and n: "?n \<le> cap"
    and engaged: "\<And>i. i < cap \<Longrightarrow> slots q ! slot_of q i = None \<longleftrightarrow> ?n \<le> i"
    using ok by (simp_all add: ring_ok_def)
  have r0: "read_index q = slot_of q 0" using r len by (simp add: slot_of_def)
  obtain v where v: "slots q ! slot_of q 0 = Some v"
    using engaged [of 0] some n by (cases "slots q ! slot_of q 0") auto
  have q': "try_pop q = (Some v, ?q)" "slots ?q = (slots q)[slot_of q 0 := None]"
    "read_index ?q = (slot_of q 0 + 1) mod cap" "ring_size ?q = ?n - 1"
    "write_index ?q = write_index q"
    using some len r0 v by (simp_all add: try_pop_def)
  have slot: "slot_of ?q i = slot_of q (Suc i)" for i
  proof -
    have "length (slots ?q) = cap" using q'(2) len by simp
    then show ?thesis
      unfolding slot_of_def q'(3) len using r by (simp add: mod_add_left_eq)
  qed
  have cell: "slots ?q ! slot_of q i = (if i = 0 then None else slots q ! slot_of q i)"
    if "i < cap" for i
    using that len q'(2) slot_of_inj [of i q 0] slot_of_less [of q i] by (auto simp: nth_list_update)
  have wrap: "slot_of q cap = slot_of q 0" using len by (simp add: slot_of_def)
  have "slots ?q ! slot_of ?q i = None \<longleftrightarrow> ?n - 1 \<le> i" if "i < cap" for i
  proof (cases "Suc i = cap")
    case True
    then show ?thesis using cell [of 0] that n wrap by (simp add: slot)
  next
    case False
    then show ?thesis using that cell [of "Suc i"] engaged [of "Suc i"] by (auto simp: slot)
  qed
  moreover have "read_index ?q < cap" using q'(3) r by simp
  moreover have "write_index ?q = slot_of ?q (?n - 1)"
    using ok some q'(5) by (simp add: ring_ok_def slot)
  ultimately have "ring_ok cap ?q" using q' len n by (simp add: ring_ok_def)
  moreover have "ring_contents q = v # ring_contents ?q"
  proof -
    have "[0..<?n] = 0 # map Suc [0..<?n - 1]"
      using some by (simp add: map_Suc_upt upt_conv_Cons)
    then have "ring_contents q = v # map (\<lambda>i. the (slots q ! slot_of q (Suc i))) [0..<?n - 1]"
      by (simp add: ring_contents_def v comp_def)
    also have "map (\<lambda>i. the (slots q ! slot_of q (Suc i))) [0..<?n - 1] = ring_contents ?q"
      using n q'(4) cell by (auto simp: ring_contents_def slot intro!: map_cong)
    finally show ?thesis .
  qed
  ultimately show ?thesis using q'(1) that by blast
qed

lemma ring_bounded_queue:
  assumes "0 < cap"
  shows "bounded_queue try_push try_pop ring_contents (ring_ok cap) cap (empty_ring cap)"
proof
  fix q :: "'a ring" and x :: 'a
  assume ok: "ring_ok cap q"
  then have le: "ring_size q \<le> cap" by (simp add: ring_ok_def)
  then show "length (ring_contents q) \<le> cap" by simp
  show "ring_ok cap (snd (try_push x q))"
    using ok le try_push_full [OF ok, of x] try_push_room [OF ok, of x]
    by (metis le_neq_implies_less snd_conv)
  show "fst (try_push x q) \<longleftrightarrow> length (ring_contents q) < cap"
    using ok le by (auto simp: try_push_def ring_ok_def)
  show "ring_contents (snd (try_push x q)) =
      (if length (ring_contents q) < cap then ring_contents q @ [x] else ring_contents q)"
    using ok le try_push_full [OF ok, of x] try_push_room [OF ok, of x]
    by (metis length_ring_contents le_neq_implies_less snd_conv)
  show "ring_ok cap (snd (try_pop q))"
    using ok try_pop_empty [of q] try_pop_some [OF ok] by (metis gr0I snd_conv)
  show "fst (try_pop q) = (case ring_contents q of [] \<Rightarrow> None | y # ys \<Rightarrow> Some y)"
  proof (cases "ring_size q = 0")
    case True
    then show ?thesis by (simp add: try_pop_empty ring_contents_def)
  next
    case False
    then show ?thesis using try_pop_some [OF ok] by (metis fst_conv list.case(2) not_gr0)
  qed
  show "ring_contents (snd (try_pop q)) = tl (ring_contents q)"
  proof (cases "ring_size q = 0")
    case True
    then show ?thesis by (simp add: try_pop_empty ring_contents_def)
  next
    case False
    then show ?thesis using try_pop_some [OF ok] by (metis list.sel(3) not_gr0 snd_conv)
  qed
qed (use assms ring_ok_empty [OF assms] in \<open>simp_all add: ring_contents_def empty_ring_def\<close>)

interpretation ring: bounded_queue try_push try_pop ring_contents "ring_ok queue_capacity"
  queue_capacity "empty_ring queue_capacity"
  by (rule ring_bounded_queue) (simp add: queue_capacity_def)

lemma fifo_bounded_queue:
  "0 < cap \<Longrightarrow> bounded_queue (fifo_push cap) fifo_pop id (\<lambda>xs. length xs \<le> cap) cap []"
proof
  fix q :: "'a list" and x :: 'a
  assume "length q \<le> cap"
  then show "length (snd (fifo_pop q)) \<le> cap" by (cases q) simp_all
  show "fst (fifo_pop q) = (case id q of [] \<Rightarrow> None | y # ys \<Rightarrow> Some y)" by (cases q) simp_all
  show "id (snd (fifo_pop q)) = tl (id q)" by (cases q) simp_all
qed (auto simp: fifo_push_def)

text \<open>
  C15. Refinement: on every sequence of pushes and pops, from empty and at every positive
  capacity, the ring with its slots, wrapping indices and size returns exactly what a FIFO
  list bounded by the capacity returns.
\<close>

theorem standard_queue_refines_fifo:
  assumes "0 < cap"
  shows "run_ops try_push try_pop ops (empty_ring cap) =
    run_ops (fifo_push cap) fifo_pop ops []"
  using bounded_queue.run_ops_fifo [OF ring_bounded_queue [OF assms] ring_ok_empty [OF assms]]
  by (simp add: ring_contents_def empty_ring_def)

theorem standard_queue_refines_fifo_witness:
  "run_ops try_push try_pop [Push 1, Push 2, Push 3, Pop, Push 4, Pop, Pop, Pop] (empty_ring 2) =
   [Pushed True, Pushed True, Pushed False, Popped (Some 1), Pushed True, Popped (Some 2),
    Popped (Some 4), Popped (None :: nat option)]"
  using standard_queue_refines_fifo
      [of 2 "[Push 1, Push 2, Push 3, Pop, Push 4, Pop, Pop, Pop :: nat queue_op]"]
  by (simp add: fifo_push_def)

end
