(* ===== verification/Histogram.thy ===== *)
theory Histogram
  imports Base
begin

text \<open>
  The latency histogram of a pipeline (\<open>src/core.cpp\<close>, class \<open>latency_histogram\<close>): 65
  power-of-two buckets, a sample count and the extremes, all \<open>std::uint64_t\<close>. The abstract
  value of a histogram is the list of values observed since it was empty; \<open>represents\<close> ties
  the fields to it and every observation preserves that tie.
\<close>

section \<open>The class\<close>

record latency_histogram =
  buckets :: "u64 list"
  hist_samples :: u64
  hist_minimum :: u64
  hist_maximum :: u64

record latency_summary =
  samples :: u64
  minimum_ns :: u64
  p50_ns :: u64
  p95_ns :: u64
  p99_ns :: u64
  maximum_ns :: u64

definition empty_histogram :: latency_histogram where
  "empty_histogram =
     \<lparr>buckets = replicate 65 0, hist_samples = 0, hist_minimum = u64_max, hist_maximum = 0\<rparr>"

text \<open>\<open>std::bit_width\<close>: the number of binary digits, 0 for 0.\<close>

fun bit_width_nat :: "nat \<Rightarrow> nat" where
  "bit_width_nat n = (if n = 0 then 0 else Suc (bit_width_nat (n div 2)))"

declare bit_width_nat.simps [simp del]

definition bit_width :: "u64 \<Rightarrow> nat" where
  "bit_width w = bit_width_nat (unat w)"

definition bucket_index :: "nat \<Rightarrow> u64 \<Rightarrow> nat" where
  "bucket_index n v = (if v = 0 then 0 else min (bit_width (v - 1) + 1) (n - 1))"

definition observe :: "u64 \<Rightarrow> latency_histogram \<Rightarrow> latency_histogram" where
  "observe v h =
     (let bucket = bucket_index (length (buckets h)) v
      in h\<lparr>buckets := (buckets h)[bucket := buckets h ! bucket + 1],
           hist_samples := hist_samples h + 1,
           hist_minimum := min (hist_minimum h) v,
           hist_maximum := max (hist_maximum h) v\<rparr>)"

text \<open>The loop of \<open>quantile\<close> over the buckets from \<open>index\<close> on.\<close>

fun quantile_loop :: "u64 list \<Rightarrow> nat \<Rightarrow> u64 \<Rightarrow> u64 \<Rightarrow> u64 \<Rightarrow> u64" where
  "quantile_loop [] index cumulative target mx = mx"
| "quantile_loop (b # bs) index cumulative target mx =
     (let cumulative = cumulative + b
      in if cumulative \<ge> target
         then (if index = 0 then 0
               else if index > 64 then u64_max
               else push_bit (index - 1) 1)
         else quantile_loop bs (index + 1) cumulative target mx)"

definition quantile :: "latency_histogram \<Rightarrow> u64 \<Rightarrow> u64" where
  "quantile h percentile =
     (let target = (hist_samples h * percentile + 99) div 100
      in quantile_loop (buckets h) 0 0 target (hist_maximum h))"

definition summary :: "latency_histogram \<Rightarrow> latency_summary" where
  "summary h =
     (if hist_samples h = 0
      then \<lparr>samples = 0, minimum_ns = 0, p50_ns = 0, p95_ns = 0, p99_ns = 0, maximum_ns = 0\<rparr>
      else \<lparr>samples = hist_samples h, minimum_ns = hist_minimum h,
            p50_ns = quantile h 50, p95_ns = quantile h 95, p99_ns = quantile h 99,
            maximum_ns = hist_maximum h\<rparr>)"

section \<open>Buckets\<close>

lemma bit_width_nat_upper: "n < 2 ^ bit_width_nat n"
proof (induction n rule: bit_width_nat.induct)
  case (1 n)
  then show ?case
    by (subst bit_width_nat.simps) (auto simp: div_less_iff_less_mult)
qed

lemma bit_width_nat_lower: "0 < n \<Longrightarrow> 2 ^ bit_width_nat n \<le> 2 * n"
proof (induction n rule: bit_width_nat.induct)
  case (1 n)
  show ?case
  proof (cases "n div 2 = 0")
    case True
    with "1.prems" show ?thesis by (simp add: bit_width_nat.simps [of n] bit_width_nat.simps [of 0])
  next
    case False
    with 1 have "2 ^ bit_width_nat (n div 2) \<le> 2 * (n div 2)" by simp
    with "1.prems" show ?thesis by (simp add: bit_width_nat.simps [of n])
  qed
qed

lemma bit_width_nat_le: "n < 2 ^ k \<Longrightarrow> bit_width_nat n \<le> k"
proof (rule ccontr)
  assume n: "n < 2 ^ k" and "\<not> bit_width_nat n \<le> k"
  then have "2 ^ Suc k \<le> (2 :: nat) ^ bit_width_nat n" by (intro power_increasing) auto
  moreover have "0 < n" using \<open>\<not> bit_width_nat n \<le> k\<close> by (cases n) (auto simp: bit_width_nat.simps)
  then have "2 ^ bit_width_nat n \<le> 2 * n" by (rule bit_width_nat_lower)
  ultimately show False using n by simp
qed

lemma bit_width_nat_mono: "m \<le> n \<Longrightarrow> bit_width_nat m \<le> bit_width_nat n"
  using bit_width_nat_upper [of n] by (intro bit_width_nat_le) simp

definition bucket_bound :: "nat \<Rightarrow> nat" where
  "bucket_bound i = (if i = 0 then 0 else 2 ^ (i - 1))"

lemma unat_pred: "v \<noteq> 0 \<Longrightarrow> unat ((v :: u64) - 1) = unat v - 1"
  by (rule unat_minus_one)

lemma bucket_index_less: "0 < n \<Longrightarrow> bucket_index n v < n"
  by (auto simp: bucket_index_def)

lemma bucket_index_mono:
  assumes "u \<le> v"
  shows "bucket_index n u \<le> bucket_index n v"
proof (cases "u = 0")
  case True
  then show ?thesis by (simp add: bucket_index_def)
next
  case False
  then have "v \<noteq> 0" using assms by (auto simp: word_nat unat_eq_0)
  moreover from this False assms have "bit_width (u - 1) \<le> bit_width (v - 1)"
    by (simp add: bit_width_def unat_pred word_nat bit_width_nat_mono diff_le_mono)
  ultimately show ?thesis using False by (auto simp: bucket_index_def)
qed

lemma bucket_index_bounds:
  assumes v: "unat v \<le> 2 ^ 63"
  shows "unat v \<le> bucket_bound (bucket_index 65 v)"
    and "v \<noteq> 0 \<Longrightarrow> bucket_bound (bucket_index 65 v) < 2 * unat v"
proof -
  let ?w = "bit_width (v - 1)"
  have "v \<noteq> 0 \<Longrightarrow> unat v - 1 < 2 ^ 63"
    using v by (simp add: unat_gt_0 less_imp_diff_less order_less_le_trans)
  then have w: "v \<noteq> 0 \<Longrightarrow> ?w \<le> 63"
    using v by (auto simp: bit_width_def unat_pred intro!: bit_width_nat_le)
  have idx: "v \<noteq> 0 \<Longrightarrow> bucket_index 65 v = ?w + 1" using w by (simp add: bucket_index_def)
  show "unat v \<le> bucket_bound (bucket_index 65 v)"
  proof (cases "v = 0")
    case False
    then show ?thesis
      using bit_width_nat_upper [of "unat v - 1"] idx
      by (simp add: bucket_bound_def bit_width_def unat_pred)
  qed simp
  show "bucket_bound (bucket_index 65 v) < 2 * unat v" if "v \<noteq> 0"
  proof (cases "unat v = 1")
    case True
    then show ?thesis
      using that idx by (simp add: bucket_bound_def bit_width_def unat_pred bit_width_nat.simps)
  next
    case False
    then have "0 < unat v - 1" using that unat_gt_0 [of v] by linarith
    from bit_width_nat_lower [OF this] have "2 ^ ?w \<le> 2 * (unat v - 1)"
      using that by (simp add: bit_width_def unat_pred)
    then show ?thesis using that idx \<open>0 < unat v - 1\<close> by (simp add: bucket_bound_def)
  qed
qed

section \<open>What a histogram represents\<close>

definition observed :: "u64 list \<Rightarrow> latency_histogram" where
  "observed vs = foldl (\<lambda>h v. observe v h) empty_histogram vs"

definition in_bucket :: "nat \<Rightarrow> u64 list \<Rightarrow> nat" where
  "in_bucket i vs = length (filter (\<lambda>v. bucket_index 65 v = i) vs)"

definition below_bucket :: "nat \<Rightarrow> u64 list \<Rightarrow> nat" where
  "below_bucket i vs = length (filter (\<lambda>v. bucket_index 65 v < i) vs)"

definition represents :: "u64 list \<Rightarrow> latency_histogram \<Rightarrow> bool" where
  "represents vs h \<longleftrightarrow>
     length (buckets h) = 65 \<and> (\<forall>i < 65. buckets h ! i = of_nat (in_bucket i vs)) \<and>
     hist_samples h = of_nat (length vs) \<and>
     hist_minimum h = fold min vs u64_max \<and> hist_maximum h = fold max vs 0"

lemma represents_empty: "represents [] empty_histogram"
  by (simp add: represents_def empty_histogram_def in_bucket_def)

lemma represents_observe: "represents vs h \<Longrightarrow> represents (vs @ [v]) (observe v h)"
  by (auto simp: represents_def observe_def Let_def in_bucket_def nth_list_update
      bucket_index_less min.commute max.commute)

lemma represents_observed: "represents vs (observed vs)"
  by (induction vs rule: rev_induct)
    (simp_all add: observed_def represents_empty represents_observe)

lemma fold_min_u64:
  fixes a :: u64
  shows "fold min vs a = Min (insert a (set vs))"
  using Min.set_eq_fold [of a vs] by simp

lemma fold_max_u64:
  fixes a :: u64
  shows "fold max vs a = Max (insert a (set vs))"
  using Max.set_eq_fold [of a vs] by simp

lemma fold_min_Min: "vs \<noteq> [] \<Longrightarrow> fold min vs u64_max = Min (set vs)"
  unfolding fold_min_u64 by (simp add: min_absorb2)

lemma fold_max_Max: "vs \<noteq> [] \<Longrightarrow> fold max vs (0 :: u64) = Max (set vs)"
  unfolding fold_max_u64 by (simp add: max_absorb2)

section \<open>Quantiles\<close>

lemma below_bucket_Suc: "below_bucket (Suc i) vs = below_bucket i vs + in_bucket i vs"
  unfolding below_bucket_def in_bucket_def by (induction vs) auto

lemma below_bucket_mono: "i \<le> j \<Longrightarrow> below_bucket i vs \<le> below_bucket j vs"
  by (induction j rule: dec_induct) (simp_all add: below_bucket_Suc)

lemma below_bucket_le: "below_bucket i vs \<le> length vs"
  by (simp add: below_bucket_def)

lemma of_nat_le_u64:
  "m < 2 ^ 64 \<Longrightarrow> n < 2 ^ 64 \<Longrightarrow> (of_nat m :: u64) \<le> of_nat n \<longleftrightarrow> m \<le> n"
  by (simp only: u64_le_nat unat_of_nat_u64)

lemma bucket_value_word:
  "i \<le> 64 \<Longrightarrow> (if i = 0 then 0 else if i > 64 then u64_max else push_bit (i - 1) (1 :: u64))
     = of_nat (bucket_bound i)"
  by (simp add: bucket_bound_def push_bit_eq_mult)

lemma quantile_loop_finds:
  assumes bs: "length bs = 65" "\<forall>i < 65. bs ! i = of_nat (in_bucket i vs)"
    and n: "length vs < 2 ^ 64"
    and T: "below_bucket j vs < T" "T \<le> below_bucket (Suc j) vs"
    and j: "i \<le> j" "j < 65"
  shows "quantile_loop (drop i bs) i (of_nat (below_bucket i vs)) (of_nat T) mx
    = of_nat (bucket_bound j)"
  using j(1)
proof (induction i rule: inc_induct)
  case base
  have split: "drop j bs = bs ! j # drop (Suc j) bs"
    by (rule Cons_nth_drop_Suc [symmetric]) (use bs j in simp)
  have cum: "of_nat (below_bucket j vs) + bs ! j = (of_nat (below_bucket (Suc j) vs) :: u64)"
    using bs j by (simp add: below_bucket_Suc)
  have reach: "(of_nat T :: u64) \<le> of_nat (below_bucket (Suc j) vs)"
    using T below_bucket_le [of "Suc j" vs] n by (subst of_nat_le_u64) auto
  show ?case
    unfolding split quantile_loop.simps Let_def cum using reach bucket_value_word [of j] j
    by simp
next
  case (step i)
  then have i: "i < 65" using j by simp
  have split: "drop i bs = bs ! i # drop (Suc i) bs"
    by (rule Cons_nth_drop_Suc [symmetric]) (use bs i in simp)
  have cum: "of_nat (below_bucket i vs) + bs ! i = (of_nat (below_bucket (Suc i) vs) :: u64)"
    using bs i by (simp add: below_bucket_Suc)
  have "below_bucket (Suc i) vs < T"
    using below_bucket_mono [of "Suc i" j vs] step T by simp
  then have miss: "\<not> (of_nat T :: u64) \<le> of_nat (below_bucket (Suc i) vs)"
    using T below_bucket_le [of "Suc i" vs] below_bucket_le [of "Suc j" vs] n
    by (subst of_nat_le_u64) auto
  show ?case
    unfolding split quantile_loop.simps Let_def cum using miss step.IH by simp
qed

definition nearest_rank_index :: "nat \<Rightarrow> nat \<Rightarrow> nat" where
  "nearest_rank_index n p = (n * p + 99) div 100 - 1"

lemma nearest_rank_index_bounds:
  assumes "0 < n" and "1 \<le> p" and "p \<le> 100"
  shows "nearest_rank_index n p < n" and "(n * p + 99) div 100 = Suc (nearest_rank_index n p)"
proof -
  have "1 \<le> n * p" using assms by (simp add: Suc_leI)
  then have "1 * 100 \<le> n * p + 99" by linarith
  then have "1 \<le> (n * p + 99) div 100" by (simp only: less_eq_div_iff_mult_less_eq)
  moreover have "n * p + 99 \<le> n * 100 + 99"
    using assms(3) by (simp only: add_le_cancel_right mult_le_mono2)
  then have "(n * p + 99) div 100 \<le> (n * 100 + 99) div 100" by (rule div_le_mono)
  moreover have "(n * 100 + 99) div 100 = n" by simp
  ultimately show "nearest_rank_index n p < n" and
    "(n * p + 99) div 100 = Suc (nearest_rank_index n p)"
    using assms(1) by (simp_all add: nearest_rank_index_def)
qed

lemma quantile_target:
  assumes n: "n < 2 ^ 57" and p: "p \<le> 100"
  shows "((of_nat n :: u64) * of_nat p + 99) div 100 = of_nat ((n * p + 99) div 100)"
proof -
  have "n * p \<le> 2 ^ 57 * 100" using n p by (intro mult_mono) auto
  then have np: "n * p + 99 < 2 ^ 64" by simp
  have sum: "(of_nat n :: u64) * of_nat p + 99 = of_nat (n * p + 99)" by simp
  have lhs: "unat ((of_nat (n * p + 99) :: u64) div 100) = (n * p + 99) div 100"
    using unat_of_nat_u64 [OF np] by (simp only: unat_div) simp
  have rhs: "unat (of_nat ((n * p + 99) div 100) :: u64) = (n * p + 99) div 100"
    using np by (intro unat_of_nat_u64) (simp add: div_le_dividend order_le_less_trans)
  show ?thesis unfolding sum u64_eq_nat lhs rhs ..
qed

lemma quantile_bucket_bound:
  assumes vs: "vs \<noteq> []" "length vs < 2 ^ 57" and p: "1 \<le> p" "p \<le> 100"
    and h: "represents vs h"
  shows "quantile h (of_nat p) =
    of_nat (bucket_bound (bucket_index 65 (sort vs ! nearest_rank_index (length vs) p)))"
proof -
  let ?k = "nearest_rank_index (length vs) p"
  let ?x = "sort vs ! ?k" and ?T = "(length vs * p + 99) div 100"
  let ?j = "bucket_index 65 ?x"
  have k: "?k < length vs" and T: "?T = Suc ?k"
    using nearest_rank_index_bounds [of "length vs" p] vs(1) p by simp_all
  have below: "v < ?x" if "bucket_index 65 v < ?j" for v
    using that bucket_index_mono [of ?x v 65] by (meson not_le)
  have "below_bucket ?j vs \<le> length (filter (\<lambda>v. v < ?x) vs)"
    unfolding below_bucket_def by (rule length_filter_imp) (rule below)
  then have lo: "below_bucket ?j vs < ?T"
    using rank_at_most [OF k] T by simp
  have "length (filter (\<lambda>v. v \<le> ?x) vs) \<le> below_bucket (Suc ?j) vs"
    unfolding below_bucket_def
    by (rule length_filter_imp) (simp only: bucket_index_mono less_Suc_eq_le)
  then have hi: "?T \<le> below_bucket (Suc ?j) vs"
    using rank_at_least [OF k] T by simp
  have target: "(hist_samples h * of_nat p + 99) div 100 = of_nat ?T"
    using h quantile_target [OF vs(2) p(2)] by (simp add: represents_def)
  have "quantile_loop (drop 0 (buckets h)) 0 (of_nat (below_bucket 0 vs)) (of_nat ?T)
      (hist_maximum h) = of_nat (bucket_bound ?j)"
    using h vs(2) lo hi
    by (intro quantile_loop_finds) (simp_all add: represents_def bucket_index_less)
  then show ?thesis unfolding quantile_def Let_def target by (simp add: below_bucket_def)
qed

lemma bucket_bound_le: "i \<le> 64 \<Longrightarrow> bucket_bound i \<le> 2 ^ 63"
  using power_increasing [of "i - 1" 63 "2 :: nat"] by (simp add: bucket_bound_def)

lemma unat_bucket_bound:
  "unat (of_nat (bucket_bound (bucket_index 65 v)) :: u64) = bucket_bound (bucket_index 65 v)"
  using bucket_bound_le [of "bucket_index 65 v"] bucket_index_less [of 65 v]
  by (intro unat_of_nat_u64) auto

lemma bucket_index_top:
  assumes "(v :: u64) > 2 ^ 63"
  shows "bucket_index 65 v = 64"
proof -
  have v: "2 ^ 63 < unat v" using assms by (simp add: word_nat)
  then have "v \<noteq> 0" by auto
  then have "unat (v - 1) = unat v - 1" by (rule unat_pred)
  then have "2 ^ 63 \<le> unat (v - 1)" using v by linarith
  also have "\<dots> < 2 ^ bit_width (v - 1)" unfolding bit_width_def by (rule bit_width_nat_upper)
  finally have "63 < bit_width (v - 1)" by (rule power_less_imp_less_exp [rotated]) simp
  then show ?thesis using \<open>v \<noteq> 0\<close> by (simp add: bucket_index_def)
qed

lemma of_nat_length_0:
  "length vs < 2 ^ 64 \<Longrightarrow> (of_nat (length vs) :: u64) = 0 \<longleftrightarrow> vs = []"
  using unat_of_nat_u64 [of "length vs"] by (auto simp: u64_eq_nat)

lemma hist_samples_observed: "hist_samples (observed vs) = of_nat (length vs)"
  using represents_observed [of vs] by (simp add: represents_def)

section \<open>Properties\<close>

text \<open>
  C37. For every nonempty list of fewer than \<open>2^57\<close> observations, each of at most \<open>2^63\<close>
  nanoseconds, and every percentile from 1 to 100, the reported quantile bounds the true nearest-rank
  order statistic from above and is less than twice it (or both are 0), whatever the order of
  observation.
\<close>

theorem histogram_quantile_sandwich:
  assumes "vs \<noteq> []" and "length vs < 2 ^ 57" and "1 \<le> p" and "p \<le> 100"
    and "\<forall>v \<in> set vs. unat v \<le> 2 ^ 63"
  shows "let x = sort vs ! nearest_rank_index (length vs) p;
             q = quantile (observed vs) (of_nat p)
         in unat x \<le> unat q \<and> (x = 0 \<and> q = 0 \<or> unat q < 2 * unat x)"
proof -
  let ?x = "sort vs ! nearest_rank_index (length vs) p"
  have "?x \<in> set (sort vs)"
    using nearest_rank_index_bounds(1) [of "length vs" p] assms by (intro nth_mem) simp
  then have x: "unat ?x \<le> 2 ^ 63" using assms(5) by simp
  have q: "quantile (observed vs) (of_nat p) = of_nat (bucket_bound (bucket_index 65 ?x))"
    using assms represents_observed by (intro quantile_bucket_bound)
  show ?thesis
    unfolding Let_def q unat_bucket_bound
    using bucket_index_bounds [OF x] by (auto simp: bucket_index_def bucket_bound_def)
qed

theorem histogram_quantile_sandwich_witness:
  "let x = sort [5, 900, 7 :: u64] ! nearest_rank_index 3 95; q = quantile (observed [5, 900, 7]) 95
   in unat x \<le> unat q \<and> (x = 0 \<and> q = 0 \<or> unat q < 2 * unat x)"
  using histogram_quantile_sandwich [of "[5, 900, 7]" 95] by (simp add: numeral_3_eq_3)

text \<open>
  C38. The summary is exact on the sample count and the extremes: over any nonempty list of
  fewer than \<open>2^64\<close> observations it reports their number, their minimum and their maximum.
\<close>

theorem histogram_summary_exact:
  assumes "vs \<noteq> []" and "length vs < 2 ^ 64"
  shows "unat (samples (summary (observed vs))) = length vs \<and>
    minimum_ns (summary (observed vs)) = Min (set vs) \<and>
    maximum_ns (summary (observed vs)) = Max (set vs)"
proof -
  have "hist_samples (observed vs) \<noteq> 0"
    using assms of_nat_length_0 [of vs] by (simp add: hist_samples_observed)
  then show ?thesis
    using represents_observed [of vs] assms
    by (simp add: summary_def represents_def unat_of_nat_u64 fold_min_Min fold_max_Max)
qed

theorem histogram_summary_exact_witness:
  "unat (samples (summary (observed [5, 900, 7]))) = 3 \<and>
   minimum_ns (summary (observed [5, 900, 7])) = 5"
  using histogram_summary_exact [of "[5, 900, 7]"] by simp

text \<open>
  The 65 buckets have no room for the values above \<open>2^63\<close> that the branch
  \<open>index > 64\<close> of \<open>quantile\<close> is written for: such a value lands in bucket 64, that branch is
  never taken, and every percentile of a histogram holding it alone is \<open>2^63\<close>, below the
  minimum the same summary reports.
\<close>

theorem histogram_top_bucket_underestimates:
  assumes "v > 2 ^ 63" and "1 \<le> p" and "p \<le> 100"
  shows "quantile (observed [v]) (of_nat p) = 2 ^ 63 \<and>
    quantile (observed [v]) (of_nat p) < minimum_ns (summary (observed [v]))"
proof -
  have "nearest_rank_index (length [v]) p = 0"
    using nearest_rank_index_bounds(1) [of 1 p] assms by simp
  then have "quantile (observed [v]) (of_nat p) = of_nat (bucket_bound (bucket_index 65 v))"
    using quantile_bucket_bound [of "[v]" p "observed [v]"] assms represents_observed [of "[v]"]
    by simp
  then have "quantile (observed [v]) (of_nat p) = 2 ^ 63"
    unfolding bucket_index_top [OF assms(1)] by (simp add: bucket_bound_def)
  moreover have "minimum_ns (summary (observed [v])) = v"
    using represents_observed [of "[v]"] by (simp add: summary_def represents_def min_absorb1)
  ultimately show ?thesis using assms(1) by simp
qed

theorem histogram_top_bucket_underestimates_witness:
  "quantile (observed [2 ^ 63 + 1]) 50 = 2 ^ 63 \<and>
   quantile (observed [2 ^ 63 + 1]) 50 < minimum_ns (summary (observed [2 ^ 63 + 1]))"
proof -
  have "(2 ^ 63 + 1 :: u64) > 2 ^ 63" by simp
  moreover have "1 \<le> (50 :: nat)" "50 \<le> (100 :: nat)" by simp_all
  ultimately show ?thesis
    by (rule histogram_top_bucket_underestimates [where p = 50, unfolded of_nat_numeral])
qed

end
