(* ===== verification/Trade.thy ===== *)
theory Trade
  imports Base
begin

text \<open>
  The event type of the pipelines (\<open>include/bengal_market/model.hpp\<close>): the fixed-capacity
  text \<open>bounded_text<Capacity>\<close> and the records \<open>trade\<close> and \<open>parse_metrics\<close>. The capacity
  of a bounded text is the length of its array, which no operation changes. A \<open>trade\<close>
  holds its prices and sizes as signed 64-bit fixed-point values (HOL integers in \<open>in_i64\<close>).
\<close>

section \<open>Bounded text\<close>

record bounded_text =
  text_data :: string
  text_size :: nat

definition empty_text :: "nat \<Rightarrow> bounded_text" where
  "empty_text capacity = \<lparr>text_data = replicate capacity (char_of (0 :: nat)), text_size = 0\<rparr>"

text \<open>The copy loop of \<open>assign\<close>, from \<open>index\<close> on.\<close>

fun copy_loop :: "string \<Rightarrow> nat \<Rightarrow> string \<Rightarrow> string" where
  "copy_loop [] index dst = dst"
| "copy_loop (c # cs) index dst = copy_loop cs (index + 1) (dst[index := c])"

definition assign :: "string \<Rightarrow> bounded_text \<Rightarrow> bool \<times> bounded_text" where
  "assign v t =
     (if length v > length (text_data t) then (False, t)
      else (True, t\<lparr>text_size := length v, text_data := copy_loop v 0 (text_data t)\<rparr>))"

definition view :: "bounded_text \<Rightarrow> string" where
  "view t = take (text_size t) (text_data t)"

definition text_ok :: "nat \<Rightarrow> bounded_text \<Rightarrow> bool" where
  "text_ok capacity t \<longleftrightarrow> length (text_data t) = capacity \<and> text_size t \<le> capacity"

lemma copy_loop_eq:
  "index + length v \<le> length dst \<Longrightarrow>
   copy_loop v index dst = take index dst @ v @ drop (index + length v) dst"
proof (induction v index dst rule: copy_loop.induct)
  case (1 index dst)
  then show ?case by simp
next
  case (2 c cs index dst)
  have "take (Suc index) (dst[index := c]) = take index dst @ [c]"
    using "2.prems" by (simp add: take_Suc_conv_app_nth)
  with 2 show ?case by (simp add: drop_update_cancel)
qed

lemma text_ok_empty [simp]: "text_ok n (empty_text n)"
  by (simp add: text_ok_def empty_text_def)

lemma view_empty [simp]: "view (empty_text n) = []"
  by (simp add: view_def empty_text_def)

lemma assign_fits:
  assumes "text_ok n t" and "length v \<le> n"
  shows "fst (assign v t)" and "view (snd (assign v t)) = v" and "text_ok n (snd (assign v t))"
  using assms by (simp_all add: assign_def view_def text_ok_def copy_loop_eq)

lemma assign_too_long:
  "text_ok n t \<Longrightarrow> n < length v \<Longrightarrow> assign v t = (False, t)"
  by (simp add: assign_def text_ok_def)

lemma fst_assign: "text_ok n t \<Longrightarrow> fst (assign v t) \<longleftrightarrow> length v \<le> n"
  by (simp add: assign_def text_ok_def)

lemma text_ok_assign: "text_ok n t \<Longrightarrow> text_ok n (snd (assign v t))"
  by (cases "length v \<le> n") (simp_all add: assign_fits assign_too_long not_le)

lemma length_view: "text_ok n t \<Longrightarrow> length (view t) = text_size t \<and> length (view t) \<le> n"
  by (simp add: view_def text_ok_def)

section \<open>Trades and metrics\<close>

datatype trade_side = buy | sell

record trade =
  trade_id :: bounded_text
  product_id :: bounded_text
  price :: int
  trade_size :: int
  side :: trade_side
  source_time_ns :: u64
  enqueued_ns :: u64

definition new_trade :: trade where
  "new_trade = \<lparr>trade_id = empty_text 24, product_id = empty_text 20, price = 0, trade_size = 0,
     side = buy, source_time_ns = 0, enqueued_ns = 0\<rparr>"

definition trade_ok :: "trade \<Rightarrow> bool" where
  "trade_ok t \<longleftrightarrow> text_ok 24 (trade_id t) \<and> text_ok 20 (product_id t) \<and>
     in_i64 (price t) \<and> in_i64 (trade_size t)"

record parse_metrics =
  frames :: u64
  parse_errors :: u64
  sequence_gaps :: u64
  out_of_order :: u64

definition no_metrics :: parse_metrics where
  "no_metrics = \<lparr>frames = 0, parse_errors = 0, sequence_gaps = 0, out_of_order = 0\<rparr>"

lemma trade_ok_new [simp]: "trade_ok new_trade"
  by (simp add: trade_ok_def new_trade_def in_i64_def)

text \<open>
  Assigning a text that fits the capacity makes it the view, and one that does not fit
  changes nothing and reports failure; either way the array keeps its capacity and the size
  stays within it, so no read or write leaves the array.
\<close>

theorem bounded_text_assign_view:
  assumes "text_ok capacity t"
  shows "(if length v \<le> capacity then fst (assign v t) \<and> view (snd (assign v t)) = v
          else assign v t = (False, t)) \<and> text_ok capacity (snd (assign v t))"
  using assms by (simp add: assign_fits assign_too_long text_ok_assign)

theorem bounded_text_assign_view_witness:
  "view (snd (assign ''BTC-USD'' (empty_text 20))) = ''BTC-USD'' \<and>
   assign ''BTC'' (empty_text 2) = (False, empty_text 2)"
  using bounded_text_assign_view [of 20 "empty_text 20" "''BTC-USD''"]
    bounded_text_assign_view [of 2 "empty_text 2" "''BTC''"] by simp

end
