(* ===== verification/Checksum.thy ===== *)
theory Checksum
  imports Trade
begin

unbundle bit_operations_syntax

text \<open>
  The event checksum (\<open>src/core.cpp\<close>, \<open>hash_bytes\<close>, \<open>hash_integer\<close>, \<open>update_checksum\<close>): the
  64-bit FNV-1a hash of the fields of a trade, one after the other, integers little-endian.
  The template \<open>hash_integer\<close> is modelled with the byte count of its integer type and the
  value of the unsigned cast; it is used at 8 bytes and, for the side, at 1.
\<close>

section \<open>The routines\<close>

definition fnv_prime :: u64 where
  "fnv_prime = 1099511628211"

definition initial_checksum :: u64 where
  "initial_checksum = 14695981039346656037"

primrec hash_bytes :: "u64 \<Rightarrow> string \<Rightarrow> u64" where
  "hash_bytes hash [] = hash"
| "hash_bytes hash (byte # bytes) =
     hash_bytes ((hash XOR of_nat (of_char byte)) * fnv_prime) bytes"

primrec hash_integer :: "nat \<Rightarrow> u64 \<Rightarrow> u64 \<Rightarrow> u64" where
  "hash_integer 0 hash bits = hash"
| "hash_integer (Suc n) hash bits =
     hash_integer n ((hash XOR (bits AND 255)) * fnv_prime) (drop_bit 8 bits)"

primrec side_code :: "trade_side \<Rightarrow> u64" where
  "side_code buy = 0"
| "side_code sell = 1"

definition update_checksum :: "u64 \<Rightarrow> trade \<Rightarrow> u64" where
  "update_checksum hash v =
     (let hash = hash_bytes hash (view (trade_id v));
          hash = hash_bytes hash (view (product_id v));
          hash = hash_integer 8 hash (word_of_int (price v));
          hash = hash_integer 8 hash (word_of_int (trade_size v));
          hash = hash_integer 1 hash (side_code (side v));
          hash = hash_integer 8 hash (source_time_ns v)
      in hash)"

definition stream_checksum :: "trade list \<Rightarrow> u64" where
  "stream_checksum ts = foldl update_checksum initial_checksum ts"

section \<open>The reference hash over bytes\<close>

definition fnv_step :: "u64 \<Rightarrow> u64 \<Rightarrow> u64" where
  "fnv_step hash byte = (hash XOR byte) * fnv_prime"

definition fnv1a :: "u64 \<Rightarrow> u64 list \<Rightarrow> u64" where
  "fnv1a hash bytes = foldl fnv_step hash bytes"

definition text_bytes :: "string \<Rightarrow> u64 list" where
  "text_bytes s = map (\<lambda>c. of_nat (of_char c)) s"

primrec le_bytes :: "nat \<Rightarrow> u64 \<Rightarrow> u64 list" where
  "le_bytes 0 bits = []"
| "le_bytes (Suc n) bits = (bits AND 255) # le_bytes n (drop_bit 8 bits)"

definition trade_bytes :: "trade \<Rightarrow> u64 list" where
  "trade_bytes v = text_bytes (view (trade_id v)) @ text_bytes (view (product_id v)) @
     le_bytes 8 (word_of_int (price v)) @ le_bytes 8 (word_of_int (trade_size v)) @
     [side_code (side v)] @ le_bytes 8 (source_time_ns v)"

lemma hash_bytes_fnv1a: "hash_bytes h s = fnv1a h (text_bytes s)"
  by (induction s arbitrary: h) (simp_all add: fnv1a_def text_bytes_def fnv_step_def)

lemma hash_integer_fnv1a: "hash_integer n h bits = fnv1a h (le_bytes n bits)"
  by (induction n arbitrary: h bits) (simp_all add: fnv1a_def fnv_step_def)

lemma fnv1a_append: "fnv1a h (xs @ ys) = fnv1a (fnv1a h xs) ys"
  by (simp add: fnv1a_def)

lemma le_bytes_side: "le_bytes 1 (side_code s) = [side_code s]"
  by (cases s) simp_all

lemma update_checksum_fnv1a: "update_checksum h v = fnv1a h (trade_bytes v)"
  unfolding update_checksum_def Let_def trade_bytes_def hash_bytes_fnv1a hash_integer_fnv1a
    le_bytes_side fnv1a_append ..

lemma stream_fnv1a: "foldl update_checksum h ts = fnv1a h (concat (map trade_bytes ts))"
  by (induction ts arbitrary: h) (simp_all add: update_checksum_fnv1a fnv1a_append fnv1a_def)

section \<open>The hash step is invertible\<close>

text \<open>The FNV prime is odd, so multiplication by it modulo \<open>2^64\<close> has an inverse.\<close>

definition fnv_prime_inverse :: u64 where
  "fnv_prime_inverse = 14886173955864302971"

lemma fnv_prime_inverse: "fnv_prime * fnv_prime_inverse = 1"
  by (simp add: fnv_prime_def fnv_prime_inverse_def)

lemma fnv_prime_cancel: "a * fnv_prime = b * fnv_prime \<longleftrightarrow> a = b"
proof
  assume "a * fnv_prime = b * fnv_prime"
  then have "a * fnv_prime * fnv_prime_inverse = b * fnv_prime * fnv_prime_inverse" by simp
  then show "a = b" by (simp only: mult.assoc fnv_prime_inverse mult_1_right)
qed simp

lemma xor_cancel_left: "(c XOR a = c XOR b) \<longleftrightarrow> a = (b :: u64)"
proof
  assume "c XOR a = c XOR b"
  then have "(c XOR c) XOR a = (c XOR c) XOR b" by (simp only: xor.assoc)
  then show "a = b" by simp
qed simp

lemma xor_cancel_right: "(a XOR c = b XOR c) \<longleftrightarrow> a = (b :: u64)"
  using xor_cancel_left [of c a b] by (simp only: xor.commute)

lemma fnv_step_inj_hash: "fnv_step h b = fnv_step h' b \<longleftrightarrow> h = h'"
  by (simp add: fnv_step_def fnv_prime_cancel xor_cancel_right)

lemma fnv_step_inj_byte: "fnv_step h b = fnv_step h b' \<longleftrightarrow> b = b'"
  by (simp add: fnv_step_def fnv_prime_cancel xor_cancel_left)

lemma fnv1a_inj_hash: "fnv1a h bs = fnv1a h' bs \<longleftrightarrow> h = h'"
  by (induction bs arbitrary: h h') (simp_all add: fnv1a_def fnv_step_inj_hash)

lemma fnv1a_one_byte: "fnv1a h (xs @ a # ys) = fnv1a h (xs @ b # ys) \<longleftrightarrow> a = b"
proof -
  have "fnv1a h (xs @ c # ys) = fnv1a (fnv_step (fnv1a h xs) c) ys" for c
    by (simp add: fnv1a_def)
  then show ?thesis by (simp add: fnv1a_inj_hash fnv_step_inj_byte)
qed

section \<open>Properties\<close>

text \<open>
  C39. The checksum of a trade, computed field by field over bounded texts and shifted words,
  is the textbook FNV-1a hash of its serialisation: both texts, then price, size, side and
  source time in little-endian bytes, started from the running hash.
\<close>

theorem update_checksum_is_fnv1a:
  "update_checksum hash v = fnv1a hash (trade_bytes v)"
  by (rule update_checksum_fnv1a)

text \<open>
  C40. A replay whose events differ in a single serialised byte of a single trade never has
  the same checksum, whatever the events before and after it.
\<close>

theorem checksum_detects_byte:
  assumes "trade_bytes t = xs @ a # ys" and "trade_bytes u = xs @ b # ys" and "a \<noteq> b"
  shows "stream_checksum (before @ t # after) \<noteq> stream_checksum (before @ u # after)"
proof -
  have "stream_checksum (before @ w # after) = fnv1a initial_checksum
      ((concat (map trade_bytes before) @ xs) @ c # (ys @ concat (map trade_bytes after)))"
    if "trade_bytes w = xs @ c # ys" for w c
    using that unfolding stream_checksum_def stream_fnv1a by simp
  with assms show ?thesis by (simp only: fnv1a_one_byte not_False_eq_True)
qed

theorem checksum_detects_byte_witness:
  "stream_checksum [new_trade, new_trade\<lparr>side := sell\<rparr>] \<noteq> stream_checksum [new_trade, new_trade]"
proof -
  let ?xs = "replicate 16 (0 :: u64)" and ?ys = "replicate 8 (0 :: u64)"
  have "trade_bytes (new_trade\<lparr>side := sell\<rparr>) = ?xs @ 1 # ?ys"
    and "trade_bytes new_trade = ?xs @ 0 # ?ys"
    by (simp_all add: trade_bytes_def new_trade_def text_bytes_def eval_nat_numeral)
  from checksum_detects_byte [OF this, of "[new_trade]" "[]"] show ?thesis by simp
qed

end
