(* ===== verification/Pipeline.thy ===== *)
theory Pipeline
  imports SpscQueue Histogram Checksum
begin

text \<open>
  The two-thread pipeline of \<open>src/core.cpp\<close>. The producer is the thread that reads the capture:
  it calls \<open>submit\<close> once per trade and then \<open>finish\<close>; the worker runs \<open>consume\<close>. The state is
  a record with a program counter for each thread, and each atomic action of a thread (one
  queue operation under its lock, one load or store of \<open>producer_done_\<close>, the join) is one
  step. The local work around an action (the clock readings, the histogram, the checksum and
  the counters, which only one thread touches) belongs to the step of its action. Every
  interleaving is a list of \<open>turn\<close>s; a turn carries the value the clock returns in it. The
  operations of the queue are parameters, so that the results hold for any class with the laws
  of \<open>bounded_queue\<close>; the ring of \<open>SpscQueue\<close> is one.
\<close>

section \<open>State and steps\<close>

datatype producer_pc = Emitting | Submitting trade | Joining | Joined

datatype worker_pc = Popping | Checking | Exited

record 'q pipeline =
  todo :: "trade list"
  producer :: producer_pc
  handoff :: 'q
  producer_done :: bool
  worker :: worker_pc
  histogram :: latency_histogram
  pipe_events :: u64
  pipe_backpressure :: u64
  pipe_checksum :: u64

definition new_pipeline :: "'q \<Rightarrow> trade list \<Rightarrow> 'q pipeline" where
  "new_pipeline q ts = \<lparr>todo = ts, producer = Emitting, handoff = q, producer_done = False,
     worker = Popping, histogram = empty_histogram, pipe_events = 0, pipe_backpressure = 0,
     pipe_checksum = initial_checksum\<rparr>"

text \<open>
  \<open>submit\<close>: the trade is stamped, then one attempt to push per turn; a refused attempt counts
  as backpressure and leaves the trade to be tried again.
\<close>

definition submit_begin :: "u64 \<Rightarrow> trade \<Rightarrow> 'q pipeline \<Rightarrow> 'q pipeline" where
  "submit_begin now v p = p\<lparr>producer := Submitting (v\<lparr>enqueued_ns := now\<rparr>)\<rparr>"

definition submit_attempt :: "(trade \<Rightarrow> 'q \<Rightarrow> bool \<times> 'q) \<Rightarrow> trade \<Rightarrow> 'q pipeline \<Rightarrow> 'q pipeline" where
  "submit_attempt push v p =
     (case push v (handoff p) of (pushed, q) \<Rightarrow>
        if pushed then p\<lparr>handoff := q, producer := Emitting\<rparr>
        else p\<lparr>handoff := q, pipe_backpressure := pipe_backpressure p + 1\<rparr>)"

text \<open>\<open>finish\<close>: the store of the flag, then the join, which waits for the worker.\<close>

definition finish_store :: "'q pipeline \<Rightarrow> 'q pipeline" where
  "finish_store p = p\<lparr>producer_done := True, producer := Joining\<rparr>"

definition finish_join :: "'q pipeline \<Rightarrow> 'q pipeline" where
  "finish_join p = (if worker p = Exited then p\<lparr>producer := Joined\<rparr> else p)"

definition producer_step :: "(trade \<Rightarrow> 'q \<Rightarrow> bool \<times> 'q) \<Rightarrow> u64 \<Rightarrow> 'q pipeline \<Rightarrow> 'q pipeline" where
  "producer_step push now p =
     (case producer p of
        Emitting \<Rightarrow>
          (case todo p of
             [] \<Rightarrow> finish_store p
           | v # vs \<Rightarrow> submit_begin now v (p\<lparr>todo := vs\<rparr>))
      | Submitting v \<Rightarrow> submit_attempt push v p
      | Joining \<Rightarrow> finish_join p
      | Joined \<Rightarrow> p)"

text \<open>\<open>consume\<close>: a pop, and after an empty one the load of the flag.\<close>

definition consume_pop :: "('q \<Rightarrow> trade option \<times> 'q) \<Rightarrow> u64 \<Rightarrow> 'q pipeline \<Rightarrow> 'q pipeline" where
  "consume_pop pop now p =
     (case pop (handoff p) of
        (Some v, q) \<Rightarrow>
          p\<lparr>handoff := q, histogram := observe (now - enqueued_ns v) (histogram p),
            pipe_checksum := update_checksum (pipe_checksum p) v,
            pipe_events := pipe_events p + 1\<rparr>
      | (None, q) \<Rightarrow> p\<lparr>handoff := q, worker := Checking\<rparr>)"

definition consume_check :: "'q pipeline \<Rightarrow> 'q pipeline" where
  "consume_check p = p\<lparr>worker := if producer_done p then Exited else Popping\<rparr>"

definition worker_step :: "('q \<Rightarrow> trade option \<times> 'q) \<Rightarrow> u64 \<Rightarrow> 'q pipeline \<Rightarrow> 'q pipeline" where
  "worker_step pop now p =
     (case worker p of
        Popping \<Rightarrow> consume_pop pop now p
      | Checking \<Rightarrow> consume_check p
      | Exited \<Rightarrow> p)"

section \<open>Interleavings\<close>

datatype turn = Producer u64 | Worker u64

fun take_turn :: "(trade \<Rightarrow> 'q \<Rightarrow> bool \<times> 'q) \<Rightarrow> ('q \<Rightarrow> trade option \<times> 'q) \<Rightarrow> turn \<Rightarrow> 'q pipeline
    \<Rightarrow> 'q pipeline" where
  "take_turn push pop (Producer now) p = producer_step push now p"
| "take_turn push pop (Worker now) p = worker_step pop now p"

definition run_turns :: "(trade \<Rightarrow> 'q \<Rightarrow> bool \<times> 'q) \<Rightarrow> ('q \<Rightarrow> trade option \<times> 'q) \<Rightarrow> turn list
    \<Rightarrow> 'q pipeline \<Rightarrow> 'q pipeline" where
  "run_turns push pop turns p = fold (take_turn push pop) turns p"

lemma run_turns_Nil [simp]: "run_turns push pop [] p = p"
  by (simp add: run_turns_def)

lemma run_turns_Cons [simp]:
  "run_turns push pop (t # ts) p = run_turns push pop ts (take_turn push pop t p)"
  by (simp add: run_turns_def)

lemma run_turns_append:
  "run_turns push pop (ts @ us) p = run_turns push pop us (run_turns push pop ts p)"
  by (simp add: run_turns_def)

text \<open>The same as a step relation, for rule induction.\<close>

inductive reachable :: "(trade \<Rightarrow> 'q \<Rightarrow> bool \<times> 'q) \<Rightarrow> ('q \<Rightarrow> trade option \<times> 'q) \<Rightarrow> 'q \<Rightarrow> trade list
    \<Rightarrow> 'q pipeline \<Rightarrow> bool" for push pop q ts where
  start: "reachable push pop q ts (new_pipeline q ts)"
| produce: "reachable push pop q ts p \<Longrightarrow> reachable push pop q ts (producer_step push now p)"
| work: "reachable push pop q ts p \<Longrightarrow> reachable push pop q ts (worker_step pop now p)"

lemma reachable_turn:
  "reachable push pop q ts p \<Longrightarrow> reachable push pop q ts (take_turn push pop t p)"
  by (cases t) (simp_all add: reachable.produce reachable.work)

lemma reachable_run_turns:
  "reachable push pop q ts p \<Longrightarrow> reachable push pop q ts (run_turns push pop turns p)"
  by (induction turns arbitrary: p) (simp_all add: reachable_turn)

lemma reachable_iff_run:
  "reachable push pop q ts p \<longleftrightarrow> (\<exists>turns. p = run_turns push pop turns (new_pipeline q ts))"
proof
  show "reachable push pop q ts p \<Longrightarrow> \<exists>turns. p = run_turns push pop turns (new_pipeline q ts)"
  proof (induction rule: reachable.induct)
    case start
    show ?case by (rule exI [of _ "[]"]) simp
  next
    case (produce p now)
    then obtain turns where "p = run_turns push pop turns (new_pipeline q ts)" by blast
    then show ?case
      by (intro exI [of _ "turns @ [Producer now]"]) (simp add: run_turns_append)
  next
    case (work p now)
    then obtain turns where "p = run_turns push pop turns (new_pipeline q ts)" by blast
    then show ?case
      by (intro exI [of _ "turns @ [Worker now]"]) (simp add: run_turns_append)
  qed
qed (auto intro: reachable_run_turns reachable.start)

section \<open>The report\<close>

record replay_report =
  engine :: string
  input :: parse_metrics
  stage_latency :: latency_summary
  events :: u64
  dropped :: u64
  backpressure :: u64
  checksum :: u64
  elapsed_ns :: u64

definition report :: "string \<Rightarrow> parse_metrics \<Rightarrow> u64 \<Rightarrow> 'q pipeline \<Rightarrow> replay_report" where
  "report engine_name metrics elapsed p = \<lparr>engine = engine_name, input = metrics,
     stage_latency = summary (histogram p), events = pipe_events p, dropped = 0,
     backpressure = pipe_backpressure p, checksum = pipe_checksum p, elapsed_ns = elapsed\<rparr>"

section \<open>Conservation\<close>

text \<open>
  The trades accounted for: those consumed are a prefix of the input, and those in the queue,
  in the producer's hands and not yet submitted are the rest, in order. The enqueue time is the
  only field a trade changes on the way.
\<close>

definition unstamp :: "trade \<Rightarrow> trade" where
  "unstamp v = v\<lparr>enqueued_ns := 0\<rparr>"

definition in_hand :: "'q pipeline \<Rightarrow> trade list" where
  "in_hand p = (case producer p of Submitting v \<Rightarrow> [v] | _ \<Rightarrow> [])"

definition accounts :: "('q \<Rightarrow> trade list) \<Rightarrow> trade list \<Rightarrow> nat \<Rightarrow> 'q pipeline \<Rightarrow> bool" where
  "accounts contents ts n p \<longleftrightarrow> n \<le> length ts \<and>
     map unstamp (contents (handoff p) @ in_hand p @ todo p) = map unstamp (drop n ts) \<and>
     pipe_events p = of_nat n \<and> pipe_checksum p = stream_checksum (take n ts) \<and>
     (\<exists>latencies. length latencies = n \<and> represents latencies (histogram p))"

definition pcs_ok :: "'q pipeline \<Rightarrow> bool" where
  "pcs_ok p \<longleftrightarrow> (producer_done p \<longleftrightarrow> producer p = Joining \<or> producer p = Joined) \<and>
     (producer_done p \<longrightarrow> todo p = []) \<and> (worker p = Exited \<longrightarrow> producer_done p) \<and>
     (producer p = Joined \<longrightarrow> worker p = Exited)"

lemma update_checksum_unstamp: "unstamp v = unstamp w \<Longrightarrow> update_checksum h v = update_checksum h w"
proof -
  have "update_checksum h v = update_checksum h (unstamp v)" for v
    by (simp add: update_checksum_def unstamp_def)
  then show "unstamp v = unstamp w \<Longrightarrow> update_checksum h v = update_checksum h w" by metis
qed

lemma unstamp_stamp [simp]: "unstamp (v\<lparr>enqueued_ns := now\<rparr>) = unstamp v"
  by (simp add: unstamp_def)

lemma pcs_ok_new: "pcs_ok (new_pipeline q ts)"
  by (simp add: pcs_ok_def new_pipeline_def)

lemma pcs_ok_producer: "pcs_ok p \<Longrightarrow> pcs_ok (producer_step push now p)"
  by (auto simp: pcs_ok_def producer_step_def finish_store_def submit_begin_def submit_attempt_def
      finish_join_def split: producer_pc.splits list.splits prod.splits if_splits)

lemma pcs_ok_worker: "pcs_ok p \<Longrightarrow> pcs_ok (worker_step pop now p)"
  by (auto simp: pcs_ok_def worker_step_def consume_pop_def consume_check_def
      split: worker_pc.splits option.splits prod.splits if_splits)

lemma reachable_pcs_ok: "reachable push pop q ts p \<Longrightarrow> pcs_ok p"
  by (induction rule: reachable.induct) (simp_all add: pcs_ok_new pcs_ok_producer pcs_ok_worker)

text \<open>
  A bound on the rounds to the join: a trade not yet submitted costs two producer turns, a
  queued trade one worker turn, and a worker that found the queue empty must check the flag.
\<close>

definition producer_work :: "'q pipeline \<Rightarrow> nat" where
  "producer_work p = 2 * length (todo p) +
     (case producer p of Emitting \<Rightarrow> 2 | Submitting v \<Rightarrow> 3 | Joining \<Rightarrow> 1 | Joined \<Rightarrow> 0)"

definition turns_left :: "('q \<Rightarrow> trade list) \<Rightarrow> 'q pipeline \<Rightarrow> nat" where
  "turns_left contents p = 4 * producer_work p + 2 * length (contents (handoff p)) +
     (case worker p of Popping \<Rightarrow> 2 | Checking \<Rightarrow> if producer_done p then 1 else 3 | Exited \<Rightarrow> 0)"

primrec round_robin :: "(u64 \<times> u64) list \<Rightarrow> turn list" where
  "round_robin [] = []"
| "round_robin (c # cs) = Worker (fst c) # Producer (snd c) # round_robin cs"

text \<open>
  The queue of a pipeline holds trades; everything below is proved from its laws, so it holds
  of both engines.
\<close>

locale trade_queue = bounded_queue push pop contents invar capacity empty_queue
  for push :: "trade \<Rightarrow> 'q \<Rightarrow> bool \<times> 'q" and pop :: "'q \<Rightarrow> trade option \<times> 'q"
    and contents :: "'q \<Rightarrow> trade list" and invar :: "'q \<Rightarrow> bool" and capacity :: nat
    and empty_queue :: 'q
begin

lemma accounts_new: "accounts contents ts 0 (new_pipeline empty_queue ts)"
  unfolding accounts_def new_pipeline_def
  using represents_empty by (auto simp: in_hand_def stream_checksum_def contents_empty)

lemma submit_attempt_moves:
  assumes "invar (handoff p)" and "producer p = Submitting v"
  shows "invar (handoff (submit_attempt push v p))"
    and "contents (handoff (submit_attempt push v p)) @ in_hand (submit_attempt push v p) =
      contents (handoff p) @ in_hand p"
proof -
  show "invar (handoff (submit_attempt push v p))"
    using assms(1) by (cases rule: push_cases [where x = v]) (simp_all add: submit_attempt_def)
  show "contents (handoff (submit_attempt push v p)) @ in_hand (submit_attempt push v p) =
      contents (handoff p) @ in_hand p"
    using assms by (cases rule: push_cases [where x = v])
      (simp_all add: submit_attempt_def in_hand_def)
qed

lemma producer_step_accounts:
  assumes "accounts contents ts n p" and "invar (handoff p)"
  shows "accounts contents ts n (producer_step push now p) \<and> invar (handoff (producer_step push now p))"
proof (cases "producer p")
  case (Submitting v)
  have same: "todo (submit_attempt push v p) = todo p"
    "pipe_events (submit_attempt push v p) = pipe_events p"
    "pipe_checksum (submit_attempt push v p) = pipe_checksum p"
    "histogram (submit_attempt push v p) = histogram p"
    by (simp_all add: submit_attempt_def split: prod.split)
  show ?thesis
    using assms(1) submit_attempt_moves [OF assms(2) Submitting]
    unfolding accounts_def same producer_step_def Submitting
    by (simp only: producer_pc.case append.assoc [symmetric] same simp_thms)
next
  case Emitting
  then show ?thesis
    using assms by (cases "todo p")
      (simp_all add: accounts_def producer_step_def finish_store_def submit_begin_def in_hand_def)
qed (use assms in \<open>simp_all add: producer_step_def finish_join_def accounts_def in_hand_def\<close>)

lemma worker_step_accounts:
  assumes acc: "accounts contents ts n p" and q: "invar (handoff p)"
  shows "(\<exists>n'. accounts contents ts n' (worker_step pop now p)) \<and>
    invar (handoff (worker_step pop now p))"
proof (cases "worker p")
  case Popping
  from q show ?thesis
  proof (cases rule: pop_cases)
    case (empty q')
    then have "accounts contents ts n (worker_step pop now p)"
      using acc Popping by (simp add: accounts_def worker_step_def consume_pop_def in_hand_def)
    then show ?thesis using empty Popping by (auto simp: worker_step_def consume_pop_def)
  next
    case (popped v q')
    let ?p = "worker_step pop now p"
    have p': "?p = p\<lparr>handoff := q', histogram := observe (now - enqueued_ns v) (histogram p),
        pipe_checksum := update_checksum (pipe_checksum p) v, pipe_events := pipe_events p + 1\<rparr>"
      using popped Popping by (simp add: worker_step_def consume_pop_def)
    have rest: "unstamp v # map unstamp (contents q' @ in_hand p @ todo p) = map unstamp (drop n ts)"
      using acc popped by (simp add: accounts_def)
    then have "drop n ts \<noteq> []" by (cases "drop n ts") simp_all
    then have n: "n < length ts" by simp
    have head: "unstamp v = unstamp (ts ! n)"
      and tail: "map unstamp (contents q' @ in_hand p @ todo p) = map unstamp (drop (Suc n) ts)"
      using rest n by (simp_all add: Cons_nth_drop_Suc [symmetric])
    obtain ls where "length ls = n" "represents ls (histogram p)" using acc by (auto simp: accounts_def)
    then have "\<exists>latencies. length latencies = Suc n \<and> represents latencies (histogram ?p)"
      by (intro exI [of _ "ls @ [now - enqueued_ns v]"]) (simp add: p' represents_observe)
    moreover have "pipe_checksum ?p = stream_checksum (take (Suc n) ts)"
      using acc n by (simp add: p' accounts_def take_Suc_conv_app_nth stream_checksum_def
          update_checksum_unstamp [OF head])
    ultimately have "accounts contents ts (Suc n) ?p"
      using acc n tail by (simp add: p' accounts_def in_hand_def add.commute)
    then show ?thesis using popped by (auto simp: p')
  qed
qed (use assms in \<open>auto simp: worker_step_def consume_check_def accounts_def in_hand_def\<close>)

lemma reachable_accounts:
  "reachable push pop empty_queue ts p \<Longrightarrow> (\<exists>n. accounts contents ts n p) \<and> invar (handoff p)"
proof (induction rule: reachable.induct)
  case start
  show ?case using accounts_new by (auto simp: new_pipeline_def invar_empty)
next
  case (produce p now)
  then show ?case using producer_step_accounts by blast
next
  case (work p now)
  then show ?case using worker_step_accounts by blast
qed

lemma reachable_invar: "reachable push pop empty_queue ts p \<Longrightarrow> invar (handoff p)"
  using reachable_accounts by blast

text \<open>After the join nothing is in the producer's hands: what was not consumed is in the queue.\<close>

lemma joined_accounts:
  assumes "reachable push pop empty_queue ts p" and "producer p = Joined"
  shows "accounts contents ts (length ts - length (contents (handoff p))) p"
    and "length (contents (handoff p)) \<le> length ts"
proof -
  obtain n where n: "accounts contents ts n p" using reachable_accounts [OF assms(1)] by blast
  have "producer_done p" "todo p = []"
    using reachable_pcs_ok [OF assms(1)] assms(2) by (auto simp: pcs_ok_def)
  then have "map unstamp (contents (handoff p)) = map unstamp (drop n ts)" and le: "n \<le> length ts"
    using n assms(2) by (simp_all add: accounts_def in_hand_def)
  from map_eq_imp_length_eq [OF this(1)]
  have len: "length (contents (handoff p)) = length ts - n" by simp
  then show "length (contents (handoff p)) \<le> length ts" by simp
  show "accounts contents ts (length ts - length (contents (handoff p))) p"
    using n le by (simp add: len)
qed

text \<open>No interleaving is stuck: a turn of the worker and one of the producer come closer to the join.\<close>

lemma producer_step_turns:
  assumes "invar (handoff p)"
  shows "turns_left contents (producer_step push now p) \<le> turns_left contents p"
    and "\<not> producer_done p \<Longrightarrow> producer p \<noteq> Joining \<Longrightarrow> producer p \<noteq> Joined \<Longrightarrow>
      contents (handoff p) = [] \<Longrightarrow>
      turns_left contents (producer_step push now p) + 2 \<le> turns_left contents p"
proof -
  have "turns_left contents (producer_step push now p) \<le> turns_left contents p \<and>
    (\<not> producer_done p \<and> producer p \<noteq> Joining \<and> producer p \<noteq> Joined \<and>
      contents (handoff p) = [] \<longrightarrow>
      turns_left contents (producer_step push now p) + 2 \<le> turns_left contents p)"
  proof (cases "producer p")
    case (Submitting v)
    from assms show ?thesis
      by (cases rule: push_cases [where x = v])
        (use capacity_pos in \<open>auto simp: Submitting producer_step_def submit_attempt_def
          turns_left_def producer_work_def split: worker_pc.split\<close>)
  next
    case Emitting
    then show ?thesis
      by (cases "todo p") (auto simp: producer_step_def finish_store_def submit_begin_def
          turns_left_def producer_work_def split: worker_pc.split)
  qed (auto simp: producer_step_def finish_join_def turns_left_def producer_work_def)
  then show "turns_left contents (producer_step push now p) \<le> turns_left contents p"
    and "\<not> producer_done p \<Longrightarrow> producer p \<noteq> Joining \<Longrightarrow> producer p \<noteq> Joined \<Longrightarrow>
      contents (handoff p) = [] \<Longrightarrow>
      turns_left contents (producer_step push now p) + 2 \<le> turns_left contents p"
    by simp_all
qed

lemma worker_step_turns:
  assumes "invar (handoff p)" and "pcs_ok p" and "producer p \<noteq> Joined"
    and p'_def: "p' = worker_step pop now p"
  shows "turns_left contents p' < turns_left contents p \<or> worker p = Exited \<and> p' = p \<or>
    turns_left contents p' = turns_left contents p + 1 \<and> contents (handoff p') = [] \<and>
      \<not> producer_done p' \<and> producer p' = producer p"
proof (cases "worker p")
  case Popping
  from assms(1) show ?thesis
    by (cases rule: pop_cases)
      (auto simp: p'_def Popping worker_step_def consume_pop_def turns_left_def producer_work_def)
qed (auto simp: p'_def worker_step_def consume_check_def turns_left_def producer_work_def)

lemma round_turns:
  assumes q: "invar (handoff p)" and ok: "pcs_ok p" and going: "producer p \<noteq> Joined"
  shows "turns_left contents (producer_step push now' (worker_step pop now p)) < turns_left contents p"
proof -
  let ?p = "worker_step pop now p"
  have q': "invar (handoff ?p)"
    using q by (cases rule: pop_cases; cases "worker p")
      (simp_all add: worker_step_def consume_pop_def consume_check_def)
  note le = producer_step_turns(1) [OF q', of now']
  note less = producer_step_turns(2) [OF q', of now']
  from worker_step_turns [OF q ok going refl, of now] show ?thesis
  proof (elim disjE conjE)
    assume "worker p = Exited" and same: "?p = p"
    then have "producer p = Joining" using ok going unfolding pcs_ok_def by blast
    then show ?thesis
      unfolding same using \<open>worker p = Exited\<close>
      by (simp add: producer_step_def finish_join_def turns_left_def producer_work_def)
  next
    assume "turns_left contents ?p = turns_left contents p + 1" "contents (handoff ?p) = []"
      "\<not> producer_done ?p" "producer ?p = producer p"
    moreover have "pcs_ok ?p" using pcs_ok_worker [OF ok] .
    ultimately show ?thesis using less by (auto simp: pcs_ok_def)
  qed (use le in simp)
qed

lemma joined_stays: "producer p = Joined \<Longrightarrow> producer (run_turns push pop turns p) = Joined"
proof (induction turns arbitrary: p)
  case (Cons t turns)
  have "producer (take_turn push pop t p) = Joined"
    using Cons.prems by (cases t) (auto simp: producer_step_def worker_step_def consume_pop_def
        consume_check_def split: worker_pc.split option.split prod.split)
  then show ?case by (simp add: Cons.IH)
qed simp

lemma round_robin_joins:
  assumes "reachable push pop empty_queue ts p" and "turns_left contents p \<le> length clocks"
  shows "producer (run_turns push pop (round_robin clocks) p) = Joined"
  using assms
proof (induction clocks arbitrary: p)
  case Nil
  then show ?case by (auto simp: turns_left_def producer_work_def split: producer_pc.splits)
next
  case (Cons c clocks)
  obtain now now' where c: "c = (now, now')" by (cases c)
  show ?case
  proof (cases "producer p = Joined")
    case True
    then show ?thesis by (rule joined_stays)
  next
    case False
    let ?p = "producer_step push now' (worker_step pop now p)"
    have "turns_left contents ?p < turns_left contents p"
      using reachable_invar [OF Cons.prems(1)] reachable_pcs_ok [OF Cons.prems(1)] False
      by (rule round_turns)
    then have "turns_left contents ?p \<le> length clocks" using Cons.prems(2) by simp
    moreover have "reachable push pop empty_queue ts ?p"
      using Cons.prems(1) by (intro reachable.intros)
    ultimately show ?thesis by (simp add: c Cons.IH)
  qed
qed

end

interpretation ring_pipeline: trade_queue try_push try_pop ring_contents "ring_ok queue_capacity"
  queue_capacity "empty_ring queue_capacity"
  by (rule trade_queue.intro) (rule ring.bounded_queue_axioms)

section \<open>Losing trades\<close>

text \<open>
  The worker pops, finds nothing, and is preempted before it loads the flag; the producer
  submits its trades and stores the flag; the worker loads it and exits. The trades stay in the
  queue.
\<close>

primrec submit_turns :: "trade list \<Rightarrow> turn list" where
  "submit_turns [] = []"
| "submit_turns (v # vs) = Producer 0 # Producer 0 # submit_turns vs"

definition late_exit :: "trade list \<Rightarrow> turn list" where
  "late_exit ts = [Worker 0] @ submit_turns ts @ [Producer 0, Worker 0, Producer 0]"

context trade_queue
begin

lemma run_submit_turns:
  assumes "invar (handoff p)" and "producer p = Emitting"
    and "length (contents (handoff p)) + length (todo p) \<le> capacity"
  shows "\<exists>q. run_turns push pop (submit_turns (todo p)) p = p\<lparr>handoff := q, todo := []\<rparr> \<and>
    length (contents q) = length (contents (handoff p)) + length (todo p)"
  using assms
proof (induction "todo p" arbitrary: p)
  case Nil
  then show ?case by (intro exI [of _ "handoff p"]) simp
next
  case (Cons v vs)
  let ?v = "v\<lparr>enqueued_ns := 0\<rparr>"
  have todo: "todo p = v # vs" using Cons.hyps(2) ..
  from Cons.prems(1) show ?case
  proof (cases rule: push_cases [where x = ?v])
    case (pushed q')
    let ?p = "p\<lparr>handoff := q', todo := vs\<rparr>"
    have two: "run_turns push pop (submit_turns (todo p)) p = run_turns push pop (submit_turns vs) ?p"
      using Cons.prems(2) pushed(1) todo
      by (cases p) (simp add: producer_step_def submit_begin_def submit_attempt_def)
    have "\<exists>q. run_turns push pop (submit_turns (todo ?p)) ?p = ?p\<lparr>handoff := q, todo := []\<rparr> \<and>
      length (contents q) = length (contents (handoff ?p)) + length (todo ?p)"
      using Cons.prems pushed by (intro Cons.hyps(1)) (simp_all add: todo)
    then show ?thesis using pushed two by (simp add: todo)
  next
    case (full q')
    then show ?thesis using Cons.prems(3) by (simp add: todo)
  qed
qed

lemma late_exit_loses:
  assumes "length ts \<le> capacity"
  defines "p \<equiv> run_turns push pop (late_exit ts) (new_pipeline empty_queue ts)"
  shows "producer p = Joined" and "pipe_events p = 0" and "length (contents (handoff p)) = length ts"
proof -
  obtain q0 where q0: "pop empty_queue = (None, q0)" "invar q0" "contents q0 = []"
    using invar_empty by (cases rule: pop_cases) (use contents_empty in auto)
  let ?p = "(new_pipeline empty_queue ts)\<lparr>handoff := q0, worker := Checking\<rparr>"
  have "\<exists>q. run_turns push pop (submit_turns (todo ?p)) ?p = ?p\<lparr>handoff := q, todo := []\<rparr> \<and>
    length (contents q) = length (contents (handoff ?p)) + length (todo ?p)"
    using q0 assms(1) by (intro run_submit_turns) (simp_all add: new_pipeline_def)
  then obtain q where q: "run_turns push pop (submit_turns ts) ?p = ?p\<lparr>handoff := q, todo := []\<rparr>"
    "length (contents q) = length ts"
    using q0 by (auto simp: new_pipeline_def)
  have first: "take_turn push pop (Worker 0) (new_pipeline empty_queue ts) = ?p"
    using q0 by (simp add: new_pipeline_def worker_step_def consume_pop_def)
  have "p = ?p\<lparr>handoff := q, todo := [], producer_done := True, producer := Joined, worker := Exited\<rparr>"
    unfolding p_def late_exit_def
    by (simp only: run_turns_append run_turns_Cons run_turns_Nil first q(1))
      (simp add: new_pipeline_def producer_step_def finish_store_def worker_step_def
        consume_check_def finish_join_def)
  then show "producer p = Joined" "pipe_events p = 0" "length (contents (handoff p)) = length ts"
    using q(2) by (simp_all add: new_pipeline_def)
qed

end

section \<open>Losing none\<close>

text \<open>The producer has stored the flag, and the worker is about to pop or the queue is empty.\<close>

definition draining :: "('q \<Rightarrow> trade list) \<Rightarrow> 'q pipeline \<Rightarrow> bool" where
  "draining contents p \<longleftrightarrow> pcs_ok p \<and> producer_done p \<and>
     (worker p = Popping \<or> contents (handoff p) = [])"

context trade_queue
begin

lemma draining_turn:
  assumes "draining contents p" and q: "invar (handoff p)"
  shows "draining contents (take_turn push pop t p) \<and> invar (handoff (take_turn push pop t p))"
proof (cases t)
  case (Producer now)
  have stored: "producer p = Joining \<or> producer p = Joined" using assms(1) by (auto simp: draining_def pcs_ok_def)
  have "handoff (producer_step push now p) = handoff p" "worker (producer_step push now p) = worker p"
    "producer_done (producer_step push now p) = producer_done p"
    using stored by (auto simp: producer_step_def finish_join_def split: if_splits)
  then show ?thesis
    using assms pcs_ok_producer [of p push now] by (simp add: Producer draining_def)
next
  case (Worker now)
  have ok: "pcs_ok (worker_step pop now p)"
    using assms(1) by (intro pcs_ok_worker) (simp add: draining_def)
  have "producer_done (worker_step pop now p) \<and> invar (handoff (worker_step pop now p)) \<and>
      (worker (worker_step pop now p) = Popping \<or> contents (handoff (worker_step pop now p)) = [])"
    using q assms(1) by (cases rule: pop_cases; cases "worker p")
      (simp_all add: draining_def worker_step_def consume_pop_def consume_check_def)
  then show ?thesis using ok by (simp add: Worker draining_def)
qed

lemma draining_run:
  "draining contents p \<Longrightarrow> invar (handoff p) \<Longrightarrow> draining contents (run_turns push pop turns p)"
  by (induction turns arbitrary: p) (simp_all add: draining_turn)

lemma draining_joined:
  "draining contents p \<Longrightarrow> producer p = Joined \<Longrightarrow> contents (handoff p) = []"
  by (auto simp: draining_def pcs_ok_def)

end

section \<open>Properties\<close>

text \<open>
  C1. Conservation: in every reachable state of every interleaving, on any queue with the laws
  of the interface, the worker has consumed a prefix of the submitted trades, each once and in
  order: the event count is its length, the checksum is its checksum, the histogram holds one
  latency per trade, and what is queued, in hand or not yet submitted is the remainder in order.
\<close>

theorem pipeline_consumes_prefix:
  assumes "trade_queue push pop contents invar capacity q0"
    and "reachable push pop q0 ts p"
  shows "\<exists>n. accounts contents ts n p"
  using trade_queue.reachable_accounts [OF assms] by blast

theorem pipeline_consumes_prefix_witness:
  "\<exists>n. accounts ring_contents [new_trade] n
     (worker_step try_pop 9 (new_pipeline (empty_ring queue_capacity) [new_trade]))"
  using pipeline_consumes_prefix [OF ring_pipeline.trade_queue_axioms
      reachable.work [OF reachable.start], of "[new_trade]" 9] .

text \<open>
  C2. Termination: whatever interleaving came before, the threads alternating for a bounded
  number of rounds, at any clock readings, bring the producer past the join, so \<open>finish\<close>
  returns and no state deadlocks.
\<close>

theorem pipeline_finish_returns:
  assumes "trade_queue push pop contents invar capacity q0"
    and "turns_left contents (run_turns push pop turns (new_pipeline q0 ts)) \<le> length clocks"
  shows "producer (run_turns push pop (turns @ round_robin clocks) (new_pipeline q0 ts)) = Joined"
  unfolding run_turns_append
  using trade_queue.round_robin_joins [OF assms(1) reachable_run_turns [OF reachable.start] assms(2)] .

theorem pipeline_finish_returns_witness:
  "producer (run_turns try_push try_pop ([] @ round_robin (replicate 18 (0, 0)))
     (new_pipeline (empty_ring queue_capacity) [new_trade])) = Joined"
  using pipeline_finish_returns [OF ring_pipeline.trade_queue_axioms,
      of "[]" "[new_trade]" "replicate 18 (0, 0)"]
  by (simp add: turns_left_def producer_work_def new_pipeline_def ring.contents_empty)

text \<open>
  C23. After the join the report is that of the submitted trades less those still queued: the
  events, the checksum and the number of latency samples agree with the consumed prefix, and
  \<open>dropped\<close> is 0 whatever was left in the queue.
\<close>

theorem pipeline_report_exact:
  assumes "trade_queue push pop contents invar capacity q0"
    and "reachable push pop q0 ts p" and "producer p = Joined"
  shows "let left = length (contents (handoff p)); r = report name metrics elapsed p
         in left \<le> length ts \<and> events r = of_nat (length ts - left) \<and>
            checksum r = stream_checksum (take (length ts - left) ts) \<and>
            samples (stage_latency r) = events r \<and> dropped r = 0 \<and> input r = metrics"
  using trade_queue.joined_accounts [OF assms]
  by (auto simp: Let_def report_def accounts_def represents_def summary_def)

theorem pipeline_report_exact_witness:
  "checksum (report ''standard'' no_metrics 5
      (run_turns try_push try_pop (round_robin (replicate 18 (0, 0)))
        (new_pipeline (empty_ring queue_capacity) []))) = initial_checksum"
proof -
  let ?p = "new_pipeline (empty_ring queue_capacity) [] :: trade ring pipeline"
  let ?r = "run_turns try_push try_pop (round_robin (replicate 18 (0, 0))) ?p"
  have "producer ?r = Joined"
    by (rule ring_pipeline.round_robin_joins [OF reachable.start])
      (simp add: turns_left_def producer_work_def new_pipeline_def ring.contents_empty)
  from pipeline_report_exact [OF ring_pipeline.trade_queue_axioms
      reachable_run_turns [OF reachable.start] this, of "''standard''" no_metrics 5]
  show ?thesis by (simp add: Let_def stream_checksum_def)
qed

text \<open>
  C3. No loss outside the race: if the worker is about to pop (it is not between an empty pop
  and its load of the flag) in some reachable state after the flag was stored, then whatever
  interleaving follows, the report after the join counts every trade and has the checksum of the
  whole input.
\<close>

theorem pipeline_lossless_when_popping:
  assumes "trade_queue push pop contents invar capacity q0"
    and "reachable push pop q0 ts p" and "producer_done p" and "worker p = Popping"
    and "producer (run_turns push pop turns p) = Joined"
  shows "let r = report name metrics elapsed (run_turns push pop turns p)
         in events r = of_nat (length ts) \<and> checksum r = stream_checksum ts"
proof -
  let ?p = "run_turns push pop turns p"
  have "draining contents p" "invar (handoff p)"
    using assms(3,4) reachable_pcs_ok [OF assms(2)] trade_queue.reachable_invar [OF assms(1,2)]
    by (simp_all add: draining_def)
  then have "contents (handoff ?p) = []"
    using trade_queue.draining_run [OF assms(1)] trade_queue.draining_joined [OF assms(1)] assms(5)
    by blast
  then show ?thesis
    using trade_queue.joined_accounts(1) [OF assms(1) reachable_run_turns [OF assms(2)] assms(5)]
    by (simp add: Let_def report_def accounts_def)
qed

theorem pipeline_lossless_when_popping_witness:
  "checksum (report ''standard'' no_metrics 0 (run_turns try_push try_pop
      [Producer 3, Producer 4, Producer 5, Worker 9, Worker 9, Worker 9, Producer 0]
      (new_pipeline (empty_ring queue_capacity) [new_trade]))) = stream_checksum [new_trade]"
proof -
  let ?start = "new_pipeline (empty_ring queue_capacity) [new_trade] :: trade ring pipeline"
  let ?p = "run_turns try_push try_pop [Producer 3, Producer 4, Producer 5] ?start"
  note eval = new_pipeline_def producer_step_def submit_begin_def submit_attempt_def
    finish_store_def worker_step_def consume_pop_def consume_check_def finish_join_def
    try_push_def try_pop_def empty_ring_def queue_capacity_def
  have at: "producer_done ?p" "worker ?p = Popping" by (simp_all add: eval)
  have joined: "producer (run_turns try_push try_pop
      [Worker 9, Worker 9, Worker 9, Producer 0] ?p) = Joined"
    by (simp add: eval)
  from pipeline_lossless_when_popping [OF ring_pipeline.trade_queue_axioms
      reachable_run_turns [OF reachable.start] at joined, of "''standard''" no_metrics 0]
  show ?thesis by (simp add: Let_def)
qed

text \<open>
  C4. Finding: \<open>finish\<close> can lose trades. For every input that fits the queue there is an
  interleaving in which the worker pops before the first push and loads the flag after the
  store, so it exits with every trade queued: \<open>finish\<close> returns, the report has 0 events, and
  \<open>dropped\<close> is 0.
\<close>

theorem pipeline_can_lose_trades:
  assumes "trade_queue push pop contents invar capacity q0" and "length ts \<le> capacity"
  shows "let p = run_turns push pop (late_exit ts) (new_pipeline q0 ts);
             r = report name metrics elapsed p
         in producer p = Joined \<and> length (contents (handoff p)) = length ts \<and>
            events r = 0 \<and> dropped r = 0"
  using trade_queue.late_exit_loses [OF assms] by (simp add: Let_def report_def)

theorem pipeline_can_lose_trades_witness:
  "events (report ''standard'' no_metrics 0
     (run_turns try_push try_pop (late_exit [new_trade, new_trade])
       (new_pipeline (empty_ring queue_capacity) [new_trade, new_trade]))) = 0"
  using pipeline_can_lose_trades [OF ring_pipeline.trade_queue_axioms,
      of "[new_trade, new_trade]" "''standard''" no_metrics 0]
  by (simp add: Let_def queue_capacity_def)

end
