(* ===== verification/JsonApi.thy ===== *)
theory JsonApi
  imports Base
begin

text \<open>
  The JSON library (\<open>nlohmann::json\<close>) is not part of the repository, so it is a parameter: a
  record of the operations the program calls, over any type of JSON values. An operation that
  may throw returns an option. \<open>json_elements\<close> is what a range \<open>for\<close> visits; \<open>empty()\<close> is
  documented as \<open>begin() == end()\<close>, so it is that list being empty.
\<close>

record 'j json_lib =
  json_parse :: "string \<Rightarrow> 'j option"
  json_at :: "'j \<Rightarrow> string \<Rightarrow> 'j option"
  json_contains :: "'j \<Rightarrow> string \<Rightarrow> bool"
  json_get_string :: "'j \<Rightarrow> string option"
  json_get_u64 :: "'j \<Rightarrow> u64 option"
  json_get_bool :: "'j \<Rightarrow> bool option"
  json_eq_string :: "'j \<Rightarrow> string \<Rightarrow> bool"
  json_eq_int :: "'j \<Rightarrow> int \<Rightarrow> bool"
  json_is_array :: "'j \<Rightarrow> bool"
  json_elements :: "'j \<Rightarrow> 'j list"
  json_string :: "string \<Rightarrow> 'j"
  json_number :: "u64 \<Rightarrow> 'j"
  json_bool :: "bool \<Rightarrow> 'j"
  json_array :: "'j list \<Rightarrow> 'j"
  json_object :: "(string \<times> 'j) list \<Rightarrow> 'j"
  json_dump :: "'j \<Rightarrow> string option"
  json_dump_indented :: "nat \<Rightarrow> 'j \<Rightarrow> string option"

definition is_ascii :: "char \<Rightarrow> bool" where
  "is_ascii c \<longleftrightarrow> (of_char c :: nat) < 128"

text \<open>
  What the program relies on in its own output. \<open>json_dump\<close> may throw on text that is not
  UTF-8, so the laws speak of the values \<open>encodable\<close>, those built from ASCII text. A compact
  dump of one is a single line of ASCII and parses back to it, and so does an indented dump with
  the line end that the program prints after it; the accessors return what the constructors stored.
\<close>

locale json_library =
  fixes J :: "'j json_lib" and encodable :: "'j \<Rightarrow> bool"
  assumes string_encodable: "list_all is_ascii s \<Longrightarrow> encodable (json_string J s)"
    and number_encodable: "encodable (json_number J n)"
    and bool_encodable: "encodable (json_bool J b)"
    and array_encodable: "list_all encodable vs \<Longrightarrow> encodable (json_array J vs)"
    and object_encodable: "list_all (\<lambda>kv. list_all is_ascii (fst kv) \<and> encodable (snd kv)) kvs \<Longrightarrow>
      encodable (json_object J kvs)"
    and dump_encodable: "encodable v \<Longrightarrow> \<exists>s. json_dump J v = Some s"
    and dump_ascii: "encodable v \<Longrightarrow> json_dump J v = Some s \<Longrightarrow> list_all is_ascii s"
    and dump_line: "encodable v \<Longrightarrow> json_dump J v = Some s \<Longrightarrow> s \<noteq> [] \<and> newline \<notin> set s"
    and parse_dump: "encodable v \<Longrightarrow> json_dump J v = Some s \<Longrightarrow> json_parse J s = Some v"
    and dump_indented: "encodable v \<Longrightarrow> \<exists>s. json_dump_indented J width v = Some s"
    and parse_indented: "encodable v \<Longrightarrow> json_dump_indented J width v = Some s \<Longrightarrow>
      json_parse J (s @ [newline]) = Some v"
    and at_object: "distinct (map fst kvs) \<Longrightarrow> json_at J (json_object J kvs) k = map_of kvs k"
    and contains_object: "distinct (map fst kvs) \<Longrightarrow>
      json_contains J (json_object J kvs) k \<longleftrightarrow> k \<in> fst ` set kvs"
    and get_string: "json_get_string J (json_string J s) = Some s"
    and get_u64: "json_get_u64 J (json_number J n) = Some n"
    and get_bool: "json_get_bool J (json_bool J b) = Some b"
    and eq_string: "json_eq_string J (json_string J s) t \<longleftrightarrow> s = t"
    and eq_int: "json_eq_int J (json_number J n) i \<longleftrightarrow> uint n = i"
    and is_array: "json_is_array J (json_array J vs)"
    and elements_array: "json_elements J (json_array J vs) = vs"

end
