(* ===== verification/Digits.thy ===== *)
theory Digits
  imports Base
begin

text \<open>
  Decimal digits and the two routines of the C++ standard library the program uses for
  them: \<open>std::from_chars\<close> on an unsigned 64-bit value and the decimal printing of an
  unsigned value (\<open>std::to_string\<close>, \<open>operator<<\<close>). The comparisons are those of the
  source, \<open>character < '0' || character > '9'\<close>; a byte above 127 is a negative
  \<open>char\<close> on x86 and a large one here, and is no digit either way.
\<close>

section \<open>Characters\<close>

definition is_digit :: "char \<Rightarrow> bool" where
  "is_digit c \<longleftrightarrow> \<not> (c < CHR ''0'' \<or> c > CHR ''9'')"

definition digit_of :: "char \<Rightarrow> nat" where
  "digit_of c = of_char c - of_char CHR ''0''"

definition digit_char :: "nat \<Rightarrow> char" where
  "digit_char d = char_of (of_char CHR ''0'' + d)"

lemma is_digit_iff: "is_digit c \<longleftrightarrow> 48 \<le> (of_char c :: nat) \<and> (of_char c :: nat) \<le> 57"
  by (auto simp: is_digit_def less_char_def)

lemma is_digit_digit_char [simp]: "d < 10 \<Longrightarrow> is_digit (digit_char d)"
  by (simp add: is_digit_iff digit_char_def)

lemma digit_of_digit_char [simp]: "d < 10 \<Longrightarrow> digit_of (digit_char d) = d"
  by (simp add: digit_of_def digit_char_def)

lemma digit_char_digit_of [simp]: "is_digit c \<Longrightarrow> digit_char (digit_of c) = c"
  by (simp add: is_digit_iff digit_of_def digit_char_def)

lemma digit_of_less [simp]: "is_digit c \<Longrightarrow> digit_of c < 10"
  by (auto simp: is_digit_iff digit_of_def)

lemma digit_char_0: "digit_char 0 = CHR ''0''"
  unfolding digit_char_def by (simp only: add_0_right char_of_char)

lemma is_digit_0 [simp]: "is_digit CHR ''0''"
  by (simp add: is_digit_def)

lemma digit_of_0 [simp]: "digit_of CHR ''0'' = 0"
  by (simp add: digit_of_def)

lemma digit_char_simps:
  "digit_char (Suc 0) = CHR ''1''" "digit_char 1 = CHR ''1''" "digit_char 2 = CHR ''2''"
  "digit_char 3 = CHR ''3''" "digit_char 4 = CHR ''4''" "digit_char 5 = CHR ''5''"
  "digit_char 6 = CHR ''6''" "digit_char 7 = CHR ''7''" "digit_char 8 = CHR ''8''"
  "digit_char 9 = CHR ''9''"
  by code_simp+

lemma digit_char_inj: "d < 10 \<Longrightarrow> e < 10 \<Longrightarrow> digit_char d = digit_char e \<longleftrightarrow> d = e"
  by (metis digit_of_digit_char)

lemma digit_char_eq_0: "d < 10 \<Longrightarrow> digit_char d = CHR ''0'' \<longleftrightarrow> d = 0"
  using digit_char_inj [of d 0] by (simp add: digit_char_0)

section \<open>The value of a digit string\<close>

primrec digits_acc :: "nat \<Rightarrow> string \<Rightarrow> nat" where
  "digits_acc a [] = a"
| "digits_acc a (c # cs) = digits_acc (a * 10 + digit_of c) cs"

definition digits_value :: "string \<Rightarrow> nat" where
  "digits_value cs = digits_acc 0 cs"

lemma digits_acc_value: "digits_acc a cs = a * 10 ^ length cs + digits_acc 0 cs"
proof (induction cs arbitrary: a)
  case Nil
  then show ?case by simp
next
  case (Cons c cs)
  show ?case
    using Cons.IH [of "a * 10 + digit_of c"] Cons.IH [of "digit_of c"]
    by (simp add: algebra_simps)
qed

lemma digits_value_Nil [simp]: "digits_value [] = 0"
  by (simp add: digits_value_def)

lemma digits_value_Cons [simp]:
  "digits_value (c # cs) = digit_of c * 10 ^ length cs + digits_value cs"
  using digits_acc_value [of "digit_of c" cs] by (simp add: digits_value_def)

lemma digits_value_append:
  "digits_value (xs @ ys) = digits_value xs * 10 ^ length ys + digits_value ys"
  by (induction xs) (auto simp: algebra_simps power_add)

lemma digits_value_less: "list_all is_digit cs \<Longrightarrow> digits_value cs < 10 ^ length cs"
proof (induction cs)
  case Nil
  then show ?case by simp
next
  case (Cons c cs)
  then have IH: "digits_value cs < 10 ^ length cs" and c: "digit_of c < 10" by auto
  have "digits_value (c # cs) < (digit_of c + 1) * 10 ^ length cs"
    using IH by (simp add: algebra_simps)
  also have "\<dots> \<le> 10 * 10 ^ length cs"
    using c by (intro mult_right_mono) auto
  finally show ?case by simp
qed

lemma digits_value_zeros [simp]: "digits_value (replicate n CHR ''0'') = 0"
  by (induction n) auto

lemma digits_value_inj:
  "list_all is_digit xs \<Longrightarrow> list_all is_digit ys \<Longrightarrow> length xs = length ys
   \<Longrightarrow> digits_value xs = digits_value ys \<Longrightarrow> xs = ys"
proof (induction xs ys rule: list_induct2')
  case (4 x xs y ys)
  have "digits_value xs < 10 ^ length xs" "digits_value ys < 10 ^ length xs"
    using 4 digits_value_less [of xs] digits_value_less [of ys] by auto
  moreover have eq: "digit_of x * 10 ^ length xs + digits_value xs
      = digit_of y * 10 ^ length xs + digits_value ys"
    using 4 by simp
  ultimately have "digit_of x = digit_of y" and "digits_value xs = digits_value ys"
    by (metis add.commute div_mult_self3 div_less add_0 less_nat_zero_code
        mod_mult_self3 mod_less)+
  moreover from 4 have "digit_char (digit_of x) = x" "digit_char (digit_of y) = y" by simp_all
  ultimately have "x = y" by metis
  moreover have "xs = ys" using 4 \<open>digits_value xs = digits_value ys\<close> by simp
  ultimately show ?case by simp
qed auto

section \<open>Printing an unsigned value\<close>

fun show_nat :: "nat \<Rightarrow> string" where
  "show_nat n = (if n < 10 then [digit_char n] else show_nat (n div 10) @ [digit_char (n mod 10)])"

declare show_nat.simps [simp del]

definition to_string :: "u64 \<Rightarrow> string" where
  "to_string w = show_nat (unat w)"

lemma show_nat_digits [simp]: "list_all is_digit (show_nat n)"
  by (induction n rule: show_nat.induct) (simp add: show_nat.simps)

lemma show_nat_not_Nil [simp]: "show_nat n \<noteq> []"
  by (simp add: show_nat.simps)

lemma digits_value_show_nat [simp]: "digits_value (show_nat n) = n"
proof (induction n rule: show_nat.induct)
  case (1 n)
  show ?case
  proof (cases "n < 10")
    case True
    then show ?thesis by (simp add: show_nat.simps [of n])
  next
    case False
    with 1 show ?thesis
      by (simp add: show_nat.simps [of n] digits_value_append)
  qed
qed

lemma length_show_nat_le: "n < 10 ^ Suc k \<Longrightarrow> length (show_nat n) \<le> Suc k"
proof (induction k arbitrary: n)
  case 0
  then show ?case by (simp add: show_nat.simps)
next
  case (Suc k)
  then have "n div 10 < 10 ^ Suc k" by (simp add: less_mult_imp_div_less)
  with Suc.IH show ?case by (subst show_nat.simps) simp
qed

lemma show_nat_last: "10 \<le> n \<Longrightarrow> last (show_nat n) = digit_char (n mod 10)"
  by (subst show_nat.simps) simp

section \<open>std::from_chars on an unsigned 64-bit value\<close>

text \<open>
  \<open>from_chars(first, last, value)\<close> in base 10 consumes the longest prefix of digits (no
  sign, no space). With no digit it reports \<open>invalid_argument\<close>, with a value that does
  not fit \<open>result_out_of_range\<close>; otherwise it returns the value and the rest of the text.
\<close>

datatype errc = invalid_argument | result_out_of_range

definition from_chars :: "string \<Rightarrow> errc + u64 \<times> string" where
  "from_chars s =
     (let ds = takeWhile is_digit s; n = digits_value ds
      in if ds = [] then Inl invalid_argument
         else if n \<ge> 2 ^ 64 then Inl result_out_of_range
         else Inr (of_nat n, dropWhile is_digit s))"

lemma from_chars_whole:
  "from_chars s = Inr (w, []) \<longleftrightarrow>
     s \<noteq> [] \<and> list_all is_digit s \<and> digits_value s < 2 ^ 64 \<and> w = of_nat (digits_value s)"
proof (cases "list_all is_digit s")
  case True
  then have tw: "takeWhile is_digit s = s" and dw: "dropWhile is_digit s = []"
    using takeWhile_all [OF True] dropWhile_Nil_iff [of is_digit s] by blast+
  from True show ?thesis unfolding from_chars_def Let_def tw dw by auto
next
  case False
  then have "dropWhile is_digit s \<noteq> []" by (auto simp: list_all_iff)
  with False show ?thesis by (auto simp: from_chars_def Let_def list_all_iff)
qed

lemma from_chars_to_string: "from_chars (to_string w) = Inr (w, [])"
  using unat_lt_u64 [of w] by (simp add: from_chars_whole to_string_def)

section \<open>Scaling a fraction to a fixed number of digits\<close>

text \<open>
  Both parsers end with a loop that multiplies by ten until the fraction has its full width.
\<close>

function pad_zeros :: "nat \<Rightarrow> nat \<Rightarrow> u64 \<Rightarrow> u64" where
  "pad_zeros width digits fraction =
     (if digits < width then pad_zeros width (digits + 1) (fraction * 10) else fraction)"
  by pat_completeness auto
termination
  by (relation "measure (\<lambda>(width, digits, fraction). width - digits)") auto

declare pad_zeros.simps [simp del]

lemma pad_zeros_eq: "n \<le> width \<Longrightarrow> pad_zeros width n f = f * 10 ^ (width - n)"
proof (induction width n f rule: pad_zeros.induct)
  case (1 width n f)
  show ?case
  proof (cases "n < width")
    case True
    then have "width - n = Suc (width - (n + 1))" by simp
    then have "(10 :: u64) ^ (width - n) = 10 * 10 ^ (width - (n + 1))"
      by (simp only: power_Suc)
    with 1 True show ?thesis by (simp add: pad_zeros.simps [of width n f] mult.assoc)
  next
    case False
    with "1.prems" have "n = width" by simp
    then show ?thesis by (simp add: pad_zeros.simps [of width width f])
  qed
qed

lemma digits_scaled_less:
  assumes "list_all is_digit f" and "length f \<le> k"
  shows "digits_value f * 10 ^ (k - length f) < 10 ^ k"
proof -
  have "digits_value f * 10 ^ (k - length f) < 10 ^ length f * 10 ^ (k - length f)"
    using digits_value_less [OF assms(1)] by simp
  also have "\<dots> = (10 :: nat) ^ k" using assms(2) by (simp flip: power_add)
  finally show ?thesis .
qed

end
