(* ===== verification/Decimal.thy ===== *)
theory Decimal
  imports Digits
begin

text \<open>
  Fixed-point decimals (\<open>src/core.cpp\<close>, \<open>parse_decimal\<close> and \<open>format_decimal\<close>): prices
  and sizes are \<open>std::int64_t\<close> values at scale \<open>1e8\<close>. The magnitude is computed in
  \<open>std::uint64_t\<close>, so every intermediate value of the model is a word; the lemmas show
  that the checks in the code keep it from wrapping. The grammar \<open>decimal_literal\<close> and the
  exact rational value \<open>decimal_value\<close> are the specification the parser is compared with.
\<close>

section \<open>The routines\<close>

definition decimal_scale :: u64 where
  "decimal_scale = 100000000"

primrec find_char :: "char \<Rightarrow> string \<Rightarrow> nat option" where
  "find_char c [] = None"
| "find_char c (x # xs) = (if x = c then Some 0 else map_option Suc (find_char c xs))"

text \<open>The two loops over the fraction: accumulate its digits, then scale to eight of them.\<close>

primrec fraction_loop :: "u64 \<Rightarrow> string \<Rightarrow> u64 option" where
  "fraction_loop fraction [] = Some fraction"
| "fraction_loop fraction (c # cs) =
     (if c < CHR ''0'' \<or> c > CHR ''9'' then None
      else fraction_loop (fraction * 10 + of_nat (digit_of c)) cs)"

definition pad_fraction :: "nat \<Rightarrow> u64 \<Rightarrow> u64" where
  "pad_fraction index fraction = pad_zeros 8 index fraction"

definition decimal_limit :: "bool \<Rightarrow> u64" where
  "decimal_limit negative =
     (if negative then 9223372036854775807 + 1 else 9223372036854775807)"

definition scale_decimal :: "bool \<Rightarrow> u64 \<Rightarrow> u64 \<Rightarrow> int option" where
  "scale_decimal negative whole fraction =
     (let limit = decimal_limit negative; scale = decimal_scale
      in if whole > limit div scale then None
         else let scaled = whole * scale
           in if fraction > limit - scaled then None
              else let magnitude = scaled + fraction
                in if negative \<and> magnitude = limit then Some (- (2 ^ 63))
                   else let signed_value = sint magnitude
                     in Some (if negative then - signed_value else signed_value))"

definition parse_unsigned_decimal :: "bool \<Rightarrow> string \<Rightarrow> int option" where
  "parse_unsigned_decimal negative value =
     (if value = [] then None
      else let dot = find_char CHR ''.'' value;
               whole_text = (case dot of None \<Rightarrow> value | Some d \<Rightarrow> take d value);
               fraction_text = (case dot of None \<Rightarrow> [] | Some d \<Rightarrow> drop (d + 1) value)
        in if whole_text = [] \<or> length fraction_text > 8 \<or>
              (dot \<noteq> None \<and> find_char CHR ''.'' fraction_text \<noteq> None)
           then None
           else (case from_chars whole_text of
               Inl ec \<Rightarrow> None
             | Inr (whole, ptr) \<Rightarrow>
                 if ptr \<noteq> [] then None
                 else (case fraction_loop 0 fraction_text of
                     None \<Rightarrow> None
                   | Some fraction \<Rightarrow>
                       scale_decimal negative whole
                         (pad_fraction (length fraction_text) fraction))))"

definition parse_decimal :: "string \<Rightarrow> int option" where
  "parse_decimal value =
     (case value of
        [] \<Rightarrow> None
      | c # cs \<Rightarrow>
          if c = CHR ''-'' \<or> c = CHR ''+'' then parse_unsigned_decimal (c = CHR ''-'') cs
          else parse_unsigned_decimal False value)"

text \<open>
  \<open>std::setw(8) << std::setfill('0')\<close> pads on the left; the last loop pops trailing zeros.
  The code calls \<open>back()\<close> on a text that holds a dot and a nonzero fraction, so never on
  an empty one.
\<close>

definition setw_fill :: "nat \<Rightarrow> char \<Rightarrow> string \<Rightarrow> string" where
  "setw_fill width fill s = replicate (width - length s) fill @ s"

function pop_zeros :: "string \<Rightarrow> string" where
  "pop_zeros result =
     (if result \<noteq> [] \<and> last result = CHR ''0'' then pop_zeros (butlast result) else result)"
  by pat_completeness auto
termination
  by (relation "measure length") auto

declare pop_zeros.simps [simp del]

definition format_decimal :: "int \<Rightarrow> string" where
  "format_decimal v =
     (let negative = v < 0;
          magnitude = (if negative then 0 - (word_of_int v :: u64) else word_of_int v);
          scale = decimal_scale;
          whole = magnitude div scale;
          fraction = magnitude mod scale;
          output = (if negative then ''-'' else []) @ to_string whole
      in if fraction \<noteq> 0
         then pop_zeros (output @ ''.'' @ setw_fill 8 CHR ''0'' (to_string fraction))
         else output)"

section \<open>The specification\<close>

text \<open>
  An optional sign, at least one digit, and optionally a dot with up to eight digits.
\<close>

inductive decimal_literal :: "string \<Rightarrow> bool \<Rightarrow> string \<Rightarrow> string \<Rightarrow> bool" where
  "w \<noteq> [] \<Longrightarrow> list_all is_digit w \<Longrightarrow> list_all is_digit f \<Longrightarrow> length f \<le> 8 \<Longrightarrow>
   sg = [] \<and> \<not> neg \<or> sg = ''+'' \<and> \<not> neg \<or> sg = ''-'' \<and> neg \<Longrightarrow>
   body = w @ ''.'' @ f \<or> body = w \<and> f = [] \<Longrightarrow>
   decimal_literal (sg @ body) neg w f"

definition decimal_units :: "string \<Rightarrow> string \<Rightarrow> nat" where
  "decimal_units w f = digits_value w * 10 ^ 8 + digits_value f * 10 ^ (8 - length f)"

definition decimal_value :: "bool \<Rightarrow> string \<Rightarrow> string \<Rightarrow> int" where
  "decimal_value neg w f =
     (if neg then - int (decimal_units w f) else int (decimal_units w f))"

section \<open>The loops\<close>

lemma fraction_loop_eq:
  "fraction_loop a cs =
     (if list_all is_digit cs
      then Some (a * 10 ^ length cs + of_nat (digits_value cs)) else None)"
  by (induction cs arbitrary: a) (auto simp: is_digit_def algebra_simps)

lemma pad_fraction_eq: "index \<le> 8 \<Longrightarrow> pad_fraction index f = f * 10 ^ (8 - index)"
  by (simp add: pad_fraction_def pad_zeros_eq)

lemma pop_zeros_snoc [simp]:
  "pop_zeros (s @ [c]) = (if c = CHR ''0'' then pop_zeros s else s @ [c])"
  by (subst pop_zeros.simps) simp

lemma pop_zeros_Nil [simp]: "pop_zeros [] = []"
  by (simp add: pop_zeros.simps)

lemma pop_zeros_append: "c \<noteq> CHR ''0'' \<Longrightarrow> pop_zeros (s @ c # t) = s @ c # pop_zeros t"
proof (induction t rule: rev_induct)
  case Nil
  then show ?case by simp
next
  case (snoc x t)
  then show ?case using pop_zeros_snoc [of "s @ c # t" x] by simp
qed

lemma pop_zeros_suffix: "\<exists>k. t = pop_zeros t @ replicate k CHR ''0''"
proof (induction t rule: rev_induct)
  case Nil
  then show ?case by simp
next
  case (snoc x t)
  then obtain k where k: "t = pop_zeros t @ replicate k CHR ''0''" by blast
  show ?case
  proof (cases "x = CHR ''0''")
    case True
    have "t @ [x] = pop_zeros t @ replicate (Suc k) CHR ''0''"
      using k True by (metis append_assoc replicate_append_same replicate_Suc)
    then show ?thesis using True by (metis pop_zeros_snoc)
  next
    case False
    then show ?thesis by (auto intro: exI [of _ 0])
  qed
qed

section \<open>The checked scaling\<close>

lemma unat_decimal_limit: "unat (decimal_limit neg) = (if neg then 2 ^ 63 else 2 ^ 63 - 1)"
  by (simp add: decimal_limit_def)

lemma unat_decimal_scale: "unat decimal_scale = 10 ^ 8"
  by (simp add: decimal_scale_def)

lemma scale_decimal_in_range:
  assumes "unat whole * 10 ^ 8 + unat fraction \<le> unat (decimal_limit neg)"
  shows "scale_decimal neg whole fraction =
    Some (if neg then - int (unat whole * 10 ^ 8 + unat fraction)
          else int (unat whole * 10 ^ 8 + unat fraction))"
proof -
  let ?L = "decimal_limit neg"
  let ?m = "whole * decimal_scale + fraction"
  have bound: "unat ?L < 2 ^ 64" by (rule unat_lt_u64)
  have scaled: "unat (whole * decimal_scale) = unat whole * 10 ^ 8"
    using assms bound by (subst unat_mult_u64) (auto simp: unat_decimal_scale)
  have m: "unat ?m = unat whole * 10 ^ 8 + unat fraction"
    using assms bound scaled by (subst unat_add_u64) auto
  have le: "whole * decimal_scale \<le> ?L"
    using assms scaled by (simp add: word_nat)
  have fits: "\<not> fraction > ?L - whole * decimal_scale"
    using assms le scaled by (simp add: word_nat unat_sub_u64)
  have "unat whole \<le> unat ?L div 10 ^ 8"
    using assms by (simp add: less_eq_div_iff_mult_less_eq)
  then have fits': "\<not> whole > ?L div decimal_scale"
    by (simp add: word_nat unat_div unat_decimal_scale)
  have eq: "scale_decimal neg whole fraction =
      (if neg \<and> ?m = ?L then Some (- (2 ^ 63))
       else Some (if neg then - sint ?m else sint ?m))"
    using fits fits' by (simp add: scale_decimal_def Let_def)
  show ?thesis
  proof (cases "neg \<and> ?m = ?L")
    case True
    then have "unat whole * 10 ^ 8 + unat fraction = 2 ^ 63"
      using m by (simp add: unat_decimal_limit)
    with True eq show ?thesis by simp
  next
    case False
    then have "unat ?m < 2 ^ 63"
      using assms m by (auto simp: unat_decimal_limit u64_eq_nat split: if_splits)
    then have "uint ?m < 2 ^ 63" 
      by (simp only: uint_nat of_nat_less_numeral_power_cancel_iff)
    then have "sint ?m = int (unat ?m)"
      by (rule trans [OF sint_eq_uint_u64 uint_nat])
    then show ?thesis using False eq m by (simp only: if_False)
  qed
qed

lemma scale_decimal_out_of_range:
  assumes "unat whole * 10 ^ 8 + unat fraction > unat (decimal_limit neg)"
    and frac: "unat fraction < 10 ^ 8"
  shows "scale_decimal neg whole fraction = None"
proof (cases "whole > decimal_limit neg div decimal_scale")
  case True
  then show ?thesis by (simp add: scale_decimal_def Let_def)
next
  case False
  let ?L = "decimal_limit neg"
  have "unat whole \<le> unat ?L div 10 ^ 8"
    using False by (simp add: word_nat unat_div unat_decimal_scale)
  then have le: "unat whole * 10 ^ 8 \<le> unat ?L"
    by (simp add: less_eq_div_iff_mult_less_eq)
  have scaled: "unat (whole * decimal_scale) = unat whole * 10 ^ 8"
    using le unat_lt_u64 [of ?L] by (subst unat_mult_u64) (auto simp: unat_decimal_scale)
  have "fraction > ?L - whole * decimal_scale"
    using assms le scaled by (simp add: word_nat unat_sub_u64)
  with False show ?thesis by (simp add: scale_decimal_def Let_def)
qed

section \<open>Splitting the text\<close>

lemma digit_not_dot: "is_digit c \<Longrightarrow> c \<noteq> CHR ''.''"
  by (auto simp: is_digit_iff)

lemma digit_not_sign: "is_digit c \<Longrightarrow> c \<noteq> CHR ''-'' \<and> c \<noteq> CHR ''+''"
  by (auto simp: is_digit_iff)

lemma find_char_None: "find_char c s = None \<longleftrightarrow> c \<notin> set s"
  by (induction s) auto

lemma find_char_Some: "c \<notin> set w \<Longrightarrow> find_char c (w @ c # t) = Some (length w)"
  by (induction w) auto

lemma find_char_SomeD:
  "find_char c s = Some d \<Longrightarrow> d < length s \<and> s ! d = c \<and> c \<notin> set (take d s)"
proof (induction s arbitrary: d)
  case Nil
  then show ?case by simp
next
  case (Cons x s)
  then show ?case by (auto split: if_splits)
qed

lemma digits_no_dot: "list_all is_digit w \<Longrightarrow> CHR ''.'' \<notin> set w"
  using digit_not_dot by (auto simp: list_all_iff)

definition unsigned_body :: "string \<Rightarrow> string \<Rightarrow> string \<Rightarrow> bool" where
  "unsigned_body body w f \<longleftrightarrow> w \<noteq> [] \<and> list_all is_digit w \<and> list_all is_digit f \<and>
     length f \<le> 8 \<and> (body = w @ ''.'' @ f \<or> body = w \<and> f = [])"

lemma unsigned_body_hd_digit:
  assumes "unsigned_body body w f"
  obtains c cs where "body = c # cs" and "is_digit c"
  using assms by (cases w) (auto simp: unsigned_body_def)

definition checked_decimal :: "bool \<Rightarrow> string \<Rightarrow> string \<Rightarrow> int option" where
  "checked_decimal neg w f =
     (if in_i64 (decimal_value neg w f) then Some (decimal_value neg w f) else None)"

lemma in_i64_decimal_value:
  "in_i64 (decimal_value neg w f) \<longleftrightarrow> decimal_units w f \<le> unat (decimal_limit neg)"
  by (auto simp: in_i64_def decimal_value_def unat_decimal_limit)

lemma fraction_units_less:
  assumes "list_all is_digit f" and "length f \<le> 8"
  shows "digits_value f * 10 ^ (8 - length f) < 10 ^ 8"
  using digits_scaled_less [OF assms] .

lemma scale_decimal_text:
  assumes "list_all is_digit f" and "length f \<le> 8" and "digits_value w < 2 ^ 64"
  shows "scale_decimal neg (of_nat (digits_value w))
      (pad_fraction (length f) (of_nat (digits_value f))) = checked_decimal neg w f"
proof -
  let ?F = "digits_value f * 10 ^ (8 - length f)"
  have F: "?F < 10 ^ 8" by (rule fraction_units_less [OF assms(1,2)])
  have "pad_fraction (length f) (of_nat (digits_value f)) = of_nat ?F"
    using assms(2) by (simp add: pad_fraction_eq)
  moreover have "unat (of_nat ?F :: u64) = ?F" using F by (subst unat_of_nat_u64) simp_all
  moreover have "unat (of_nat (digits_value w) :: u64) = digits_value w"
    using assms(3) by (rule unat_of_nat_u64)
  ultimately have scaled: "scale_decimal neg (of_nat (digits_value w))
      (pad_fraction (length f) (of_nat (digits_value f)))
    = scale_decimal neg (of_nat (digits_value w)) (of_nat ?F)"
    and units: "unat (of_nat (digits_value w) :: u64) * 10 ^ 8 + unat (of_nat ?F :: u64)
      = decimal_units w f" and F': "unat (of_nat ?F :: u64) < 10 ^ 8"
    using F by (simp_all only: decimal_units_def)
  show ?thesis
  proof (cases "decimal_units w f \<le> unat (decimal_limit neg)")
    case True
    then have "in_i64 (decimal_value neg w f)" using in_i64_decimal_value by blast
    moreover have "scale_decimal neg (of_nat (digits_value w)) (of_nat ?F)
        = Some (decimal_value neg w f)"
      using scale_decimal_in_range [of "of_nat (digits_value w)" "of_nat ?F" neg] True
      by (simp only: units decimal_value_def)
    ultimately show ?thesis using scaled by (simp only: checked_decimal_def if_True)
  next
    case False
    then have "\<not> in_i64 (decimal_value neg w f)" using in_i64_decimal_value by blast
    moreover have "scale_decimal neg (of_nat (digits_value w)) (of_nat ?F) = None"
      using scale_decimal_out_of_range [of neg "of_nat (digits_value w)" "of_nat ?F"] False F'
      by (simp only: units not_le)
    ultimately show ?thesis using scaled by (simp only: checked_decimal_def if_False)
  qed
qed

section \<open>The parser accepts exactly the literals that fit\<close>

lemma from_chars_Inr_iff:
  "list_all is_digit w \<Longrightarrow> w \<noteq> [] \<Longrightarrow> digits_value w < 2 ^ 64 \<Longrightarrow>
   from_chars w = Inr (of_nat (digits_value w), [])"
  by (simp only: from_chars_whole) simp

lemma from_chars_overflow:
  assumes "list_all is_digit w" and "digits_value w \<ge> 2 ^ 64"
  shows "\<exists>ec. from_chars w = Inl ec"
proof -
  have tw: "takeWhile is_digit w = w" by (rule takeWhile_all [OF assms(1)])
  show ?thesis unfolding from_chars_def Let_def tw using assms(2) by simp
qed

lemma dot_split:
  assumes "unsigned_body body w f"
  shows "(case find_char CHR ''.'' body of None \<Rightarrow> body | Some d \<Rightarrow> take d body) = w"
    and "(case find_char CHR ''.'' body of None \<Rightarrow> [] | Some d \<Rightarrow> drop (d + 1) body) = f"
    and "find_char CHR ''.'' f = None"
proof -
  have w: "CHR ''.'' \<notin> set w" and f: "CHR ''.'' \<notin> set f"
    using assms digits_no_dot by (simp_all add: unsigned_body_def)
  from f show "find_char CHR ''.'' f = None" by (simp add: find_char_None)
  consider "body = w @ CHR ''.'' # f" | "body = w" "f = []"
    using assms by (auto simp: unsigned_body_def)
  then have "(case find_char CHR ''.'' body of None \<Rightarrow> body | Some d \<Rightarrow> take d body) = w
    \<and> (case find_char CHR ''.'' body of None \<Rightarrow> [] | Some d \<Rightarrow> drop (d + 1) body) = f"
    by cases (use w find_char_Some [OF w, of f] in \<open>simp_all add: find_char_None [THEN iffD2]\<close>)
  then show "(case find_char CHR ''.'' body of None \<Rightarrow> body | Some d \<Rightarrow> take d body) = w"
    and "(case find_char CHR ''.'' body of None \<Rightarrow> [] | Some d \<Rightarrow> drop (d + 1) body) = f"
    by blast+
qed

lemma parse_unsigned_body:
  assumes body: "unsigned_body body w f"
  shows "parse_unsigned_decimal neg body = checked_decimal neg w f"
proof -
  note parts = dot_split [OF body]
  have wf: "w \<noteq> []" "list_all is_digit w" "list_all is_digit f" "length f \<le> 8"
    using body by (simp_all add: unsigned_body_def)
  have ne: "body \<noteq> []" using body by (auto simp: unsigned_body_def)
  have frac: "fraction_loop 0 f = Some (of_nat (digits_value f))"
    using wf by (simp add: fraction_loop_eq)
  have eq: "parse_unsigned_decimal neg body =
    (case from_chars w of Inl ec \<Rightarrow> None
     | Inr (whole, ptr) \<Rightarrow> if ptr \<noteq> [] then None
         else scale_decimal neg whole (pad_fraction (length f) (of_nat (digits_value f))))"
    unfolding parse_unsigned_decimal_def Let_def parts
    using ne wf frac by (simp split: sum.split prod.split)
  show ?thesis
  proof (cases "digits_value w < 2 ^ 64")
    case True
    then show ?thesis
      unfolding eq from_chars_Inr_iff [OF wf(2,1) True] sum.case prod.case
      using scale_decimal_text [OF wf(3,4) True] by simp
  next
    case False
    then have "decimal_units w f > unat (decimal_limit neg)"
      by (simp add: decimal_units_def unat_decimal_limit)
    then have "checked_decimal neg w f = None"
      using in_i64_decimal_value by (simp add: checked_decimal_def not_le)
    moreover from False obtain ec where "from_chars w = Inl ec"
      using from_chars_overflow [OF wf(2)] by (auto simp: not_less)
    ultimately show ?thesis unfolding eq by simp
  qed
qed

lemma parse_unsigned_bodyD:
  assumes "parse_unsigned_decimal neg body = Some v"
  shows "\<exists>w f. unsigned_body body w f"
proof -
  let ?dot = "find_char CHR ''.'' body"
  let ?w = "case ?dot of None \<Rightarrow> body | Some d \<Rightarrow> take d body"
  let ?f = "case ?dot of None \<Rightarrow> [] | Some d \<Rightarrow> drop (d + 1) body"
  have shape: "\<not> (?w = [] \<or> length ?f > 8 \<or> (?dot \<noteq> None \<and> find_char CHR ''.'' ?f \<noteq> None))"
    using assms unfolding parse_unsigned_decimal_def Let_def by (metis option.distinct(1))
  obtain whole where whole: "from_chars ?w = Inr (whole, [])"
    and frac: "fraction_loop 0 ?f \<noteq> None"
    using assms shape unfolding parse_unsigned_decimal_def Let_def
    by (simp split: if_splits sum.splits prod.splits option.splits)
  have "list_all is_digit ?w" using whole by (simp only: from_chars_whole)
  moreover have "list_all is_digit ?f" using frac by (simp add: fraction_loop_eq split: if_splits)
  moreover have "body = ?w @ ''.'' @ ?f \<or> body = ?w \<and> ?f = []"
  proof (cases ?dot)
    case None
    then show ?thesis by simp
  next
    case (Some d)
    from find_char_SomeD [OF this] have "body = take d body @ CHR ''.'' # drop (Suc d) body"
      using id_take_nth_drop by metis
    with Some show ?thesis by simp
  qed
  ultimately have "unsigned_body body ?w ?f" using shape unfolding unsigned_body_def by simp
  then show ?thesis by blast
qed

lemma decimal_literal_iff:
  "decimal_literal s neg w f \<longleftrightarrow>
     (\<exists>sg body. s = sg @ body \<and> unsigned_body body w f \<and>
        (sg = [] \<and> \<not> neg \<or> sg = ''+'' \<and> \<not> neg \<or> sg = ''-'' \<and> neg))"
  unfolding decimal_literal.simps unsigned_body_def by blast

lemma parse_decimal_literal:
  assumes "decimal_literal s neg w f"
  shows "parse_decimal s = checked_decimal neg w f"
proof -
  from assms obtain sg body where s: "s = sg @ body" and body: "unsigned_body body w f"
    and sg: "sg = [] \<and> \<not> neg \<or> sg = ''+'' \<and> \<not> neg \<or> sg = ''-'' \<and> neg"
    by (auto simp: decimal_literal_iff)
  from body obtain c cs where c: "body = c # cs" "is_digit c" by (rule unsigned_body_hd_digit)
  have "parse_decimal s = parse_unsigned_decimal neg body"
    using sg s c digit_not_sign [of c] by (auto simp: parse_decimal_def)
  with body show ?thesis by (simp add: parse_unsigned_body)
qed

lemma parse_decimal_literalD:
  assumes "parse_decimal s = Some v"
  shows "\<exists>neg w f. decimal_literal s neg w f"
proof (cases s)
  case Nil
  with assms show ?thesis by (simp add: parse_decimal_def)
next
  case (Cons c cs)
  consider "c = CHR ''-''" | "c = CHR ''+''" | "c \<noteq> CHR ''-''" "c \<noteq> CHR ''+''" by blast
  then show ?thesis
  proof cases
    case 1
    with assms Cons obtain w f where "unsigned_body cs w f"
      using parse_unsigned_bodyD by (fastforce simp: parse_decimal_def)
    then have "decimal_literal s True w f"
      unfolding decimal_literal_iff using Cons 1 by (intro exI [of _ "[c]"] exI [of _ cs]) simp
    then show ?thesis by blast
  next
    case 2
    with assms Cons obtain w f where "unsigned_body cs w f"
      using parse_unsigned_bodyD by (fastforce simp: parse_decimal_def)
    then have "decimal_literal s False w f"
      unfolding decimal_literal_iff using Cons 2 by (intro exI [of _ "[c]"] exI [of _ cs]) simp
    then show ?thesis by blast
  next
    case 3
    with assms Cons obtain w f where "unsigned_body s w f"
      using parse_unsigned_bodyD by (fastforce simp: parse_decimal_def)
    then have "decimal_literal s False w f"
      unfolding decimal_literal_iff by (intro exI [of _ "[]"] exI [of _ s]) simp
    then show ?thesis by blast
  qed
qed

lemma parse_decimal_in_i64: "parse_decimal s = Some v \<Longrightarrow> in_i64 v"
  using parse_decimal_literal parse_decimal_literalD
  by (fastforce simp: checked_decimal_def split: if_splits)

lemma parse_decimal_Some_iff:
  "parse_decimal s = Some v \<longleftrightarrow>
     (\<exists>neg w f. decimal_literal s neg w f \<and> v = decimal_value neg w f \<and> in_i64 v)"
proof
  assume v: "parse_decimal s = Some v"
  then obtain neg w f where lit: "decimal_literal s neg w f"
    using parse_decimal_literalD by blast
  from lit v have "checked_decimal neg w f = Some v" by (simp add: parse_decimal_literal)
  with lit show "\<exists>neg w f. decimal_literal s neg w f \<and> v = decimal_value neg w f \<and> in_i64 v"
    by (auto simp: checked_decimal_def split: if_splits)
next
  assume "\<exists>neg w f. decimal_literal s neg w f \<and> v = decimal_value neg w f \<and> in_i64 v"
  then show "parse_decimal s = Some v" by (auto simp: parse_decimal_literal checked_decimal_def)
qed

section \<open>Formatting\<close>

definition canonical_fraction :: "nat \<Rightarrow> string" where
  "canonical_fraction n = (if n = 0 then [] else pop_zeros (setw_fill 8 CHR ''0'' (show_nat n)))"

lemma setw_fill_digits:
  assumes "n < 10 ^ 8"
  shows "list_all is_digit (setw_fill 8 CHR ''0'' (show_nat n))"
    and "length (setw_fill 8 CHR ''0'' (show_nat n)) = 8"
    and "digits_value (setw_fill 8 CHR ''0'' (show_nat n)) = n"
  using length_show_nat_le [of n 7] assms
  by (simp_all add: setw_fill_def list_all_replicate digits_value_append)

lemma canonical_fraction_props:
  assumes n: "n < 10 ^ 8"
  shows "list_all is_digit (canonical_fraction n)"
    and "length (canonical_fraction n) \<le> 8"
    and "digits_value (canonical_fraction n) * 10 ^ (8 - length (canonical_fraction n)) = n"
proof -
  let ?p = "setw_fill 8 CHR ''0'' (show_nat n)"
  obtain k where k: "?p = pop_zeros ?p @ replicate k CHR ''0''" using pop_zeros_suffix by blast
  note p = setw_fill_digits [OF n]
  have dig: "list_all is_digit (pop_zeros ?p)" using p(1) k by (metis list_all_append)
  have len: "length (pop_zeros ?p) + k = 8" using p(2) k by (metis length_append length_replicate)
  have val: "digits_value (pop_zeros ?p) * 10 ^ k = n"
    using p(3) k
    by (metis digits_value_append digits_value_zeros add_0_right length_replicate)
  from dig show "list_all is_digit (canonical_fraction n)" by (simp add: canonical_fraction_def)
  from len show "length (canonical_fraction n) \<le> 8" by (simp add: canonical_fraction_def)
  have "8 - length (pop_zeros ?p) = k" using len by simp
  with val show "digits_value (canonical_fraction n) * 10 ^ (8 - length (canonical_fraction n)) = n"
    by (simp add: canonical_fraction_def)
qed

lemma magnitude_word:
  assumes "in_i64 v"
  shows "unat (if v < 0 then 0 - (word_of_int v :: u64) else word_of_int v) = nat \<bar>v\<bar>"
proof (cases "v < 0")
  case True
  have "0 - (word_of_int v :: u64) = word_of_int (- v)" by simp
  moreover have "uint (word_of_int (- v) :: u64) = - v"
    using assms True by (intro uint_word_of_int_nonneg) (simp_all add: in_i64_def)
  ultimately show ?thesis using True by (simp only: if_True unat_eq_nat_uint abs_of_neg)
next
  case False
  have "uint (word_of_int v :: u64) = v"
    using assms False by (intro uint_word_of_int_nonneg) (simp_all add: in_i64_def)
  moreover have "\<bar>v\<bar> = v" using False by simp
  ultimately show ?thesis using False by (simp only: if_False unat_eq_nat_uint)
qed

lemma format_decimal_eq:
  assumes "in_i64 v"
  shows "format_decimal v =
    (if v < 0 then ''-'' else []) @ show_nat (nat \<bar>v\<bar> div 10 ^ 8) @
    (if nat \<bar>v\<bar> mod 10 ^ 8 = 0 then [] else ''.'' @ canonical_fraction (nat \<bar>v\<bar> mod 10 ^ 8))"
proof -
  let ?m = "if v < 0 then 0 - (word_of_int v :: u64) else word_of_int v"
  let ?n = "nat \<bar>v\<bar>"
  have m: "unat ?m = ?n" by (rule magnitude_word [OF assms])
  have w: "unat (?m div decimal_scale) = ?n div 10 ^ 8"
    by (simp only: unat_div unat_decimal_scale m)
  have f: "unat (?m mod decimal_scale) = ?n mod 10 ^ 8"
    by (simp only: unat_mod unat_decimal_scale m)
  have z: "?m mod decimal_scale = 0 \<longleftrightarrow> ?n mod 10 ^ 8 = 0"
    by (simp only: f [symmetric] unat_eq_0)
  let ?out = "(if v < 0 then ''-'' else []) @ show_nat (?n div 10 ^ 8)"
  have pop: "pop_zeros (?out @ CHR ''.'' # setw_fill 8 CHR ''0'' (show_nat (?n mod 10 ^ 8)))
    = ?out @ CHR ''.'' # pop_zeros (setw_fill 8 CHR ''0'' (show_nat (?n mod 10 ^ 8)))"
    by (rule pop_zeros_append) simp
  show ?thesis
    unfolding format_decimal_def Let_def to_string_def w f z
    using pop by (simp add: canonical_fraction_def)
qed

lemma format_decimal_literal:
  assumes v: "in_i64 v"
  shows "\<exists>w f. decimal_literal (format_decimal v) (v < 0) w f \<and> decimal_value (v < 0) w f = v"
proof -
  let ?n = "nat \<bar>v\<bar>"
  let ?w = "show_nat (?n div 10 ^ 8)" and ?f = "canonical_fraction (?n mod 10 ^ 8)"
  let ?body = "?w @ (if ?n mod 10 ^ 8 = 0 then [] else ''.'' @ ?f)"
  have lt: "?n mod 10 ^ 8 < 10 ^ 8" by simp
  note f = canonical_fraction_props [OF lt]
  have "unsigned_body ?body ?w ?f"
    using f by (simp add: unsigned_body_def canonical_fraction_def)
  then have "decimal_literal (format_decimal v) (v < 0) ?w ?f"
    unfolding decimal_literal_iff format_decimal_eq [OF v]
    by (intro exI [of _ "if v < 0 then ''-'' else []"] exI [of _ ?body]) simp
  moreover have units: "decimal_units ?w ?f = ?n"
    unfolding decimal_units_def f(3) by simp
  have "decimal_value (v < 0) ?w ?f = v" unfolding decimal_value_def units by simp
  ultimately show ?thesis by blast
qed

lemma parse_format_decimal: "in_i64 v \<Longrightarrow> parse_decimal (format_decimal v) = Some v"
  using format_decimal_literal parse_decimal_Some_iff by metis

section \<open>The printed text is the shortest one\<close>

lemma pop_zeros_last: "pop_zeros t = [] \<or> last (pop_zeros t) \<noteq> CHR ''0''"
  by (induction t rule: rev_induct) auto

lemma length_show_nat_value:
  assumes "list_all is_digit w" and "w \<noteq> []"
  shows "length (show_nat (digits_value w)) \<le> length w"
proof -
  obtain k where k: "length w = Suc k" using assms(2) by (cases w) auto
  have "digits_value w < 10 ^ Suc k" using digits_value_less [OF assms(1)] k by simp
  then show ?thesis using k by (simp only: length_show_nat_le)
qed

lemma canonical_fraction_shortest:
  assumes f: "list_all is_digit f" "length f \<le> 8"
  shows "length (canonical_fraction (digits_value f * 10 ^ (8 - length f))) \<le> length f"
proof (rule ccontr)
  let ?n = "digits_value f * 10 ^ (8 - length f)"
  let ?c = "canonical_fraction ?n"
  assume "\<not> length ?c \<le> length f"
  then have longer: "length f < length ?c" by simp
  have n: "?n < 10 ^ 8" by (rule fraction_units_less [OF f])
  note c = canonical_fraction_props [OF n]
  let ?pad = "\<lambda>x. x @ replicate (8 - length x) CHR ''0''"
  have "digits_value (?pad f) = digits_value (?pad ?c)"
    using c(3) by (simp add: digits_value_append)
  then have "?pad f = ?pad ?c"
    using f c(1,2) by (intro digits_value_inj) (simp_all add: list_all_replicate)
  then have "?c = take (length ?c) (?pad f)" by simp
  moreover have "min (length ?c - length f) (8 - length f) = length ?c - length f"
    using c(2) by (simp add: min_def diff_le_mono)
  ultimately have "?c = f @ replicate (length ?c - length f) CHR ''0''"
    using longer by (simp only: take_append take_all take_replicate less_imp_le)
  then have "last ?c = CHR ''0''" using longer
    by (metis last_appendR last_replicate zero_less_diff less_numeral_extra(3) replicate_empty)
  moreover have "?c \<noteq> []" using longer by auto
  ultimately show False using pop_zeros_last by (auto simp: canonical_fraction_def split: if_splits)
qed

lemma decimal_value_parts:
  assumes "list_all is_digit f" and "length f \<le> 8"
  shows "nat \<bar>decimal_value neg w f\<bar> div 10 ^ 8 = digits_value w"
    and "nat \<bar>decimal_value neg w f\<bar> mod 10 ^ 8 = digits_value f * 10 ^ (8 - length f)"
proof -
  have "nat \<bar>decimal_value neg w f\<bar> = decimal_units w f" by (simp add: decimal_value_def)
  then show "nat \<bar>decimal_value neg w f\<bar> div 10 ^ 8 = digits_value w"
    and "nat \<bar>decimal_value neg w f\<bar> mod 10 ^ 8 = digits_value f * 10 ^ (8 - length f)"
    using fraction_units_less [OF assms] by (simp_all add: decimal_units_def)
qed

lemma format_decimal_shortest:
  assumes s: "parse_decimal s = Some v"
  shows "length (format_decimal v) \<le> length s"
proof -
  obtain neg w f where lit: "decimal_literal s neg w f" and v: "v = decimal_value neg w f"
    and range: "in_i64 v"
    using s parse_decimal_Some_iff by blast
  then obtain sg body where parts: "s = sg @ body" "unsigned_body body w f"
    and sg: "sg = [] \<and> \<not> neg \<or> sg = ''+'' \<and> \<not> neg \<or> sg = ''-'' \<and> neg"
    by (auto simp: decimal_literal_iff)
  have wf: "w \<noteq> []" "list_all is_digit w" "list_all is_digit f" "length f \<le> 8"
    using parts(2) by (simp_all add: unsigned_body_def)
  note split = decimal_value_parts [OF wf(3,4), of neg w, folded v]
  let ?n = "digits_value f * 10 ^ (8 - length f)"
  have "length (if v < 0 then ''-'' else []) \<le> length sg"
    using sg v by (auto simp: decimal_value_def)
  moreover have "length (show_nat (digits_value w)) \<le> length w"
    by (rule length_show_nat_value [OF wf(2,1)])
  moreover have "length (canonical_fraction ?n) \<le> length f"
    by (rule canonical_fraction_shortest [OF wf(3,4)])
  moreover have "?n \<noteq> 0 \<Longrightarrow> body = w @ ''.'' @ f"
    using parts(2) by (auto simp: unsigned_body_def)
  moreover have "length w + length f \<le> length body"
    using parts(2) by (auto simp: unsigned_body_def)
  ultimately show ?thesis
    unfolding format_decimal_eq [OF range] split using parts(1) by (cases "?n = 0") auto
qed

section \<open>Properties\<close>

text \<open>
  C17. The parser is exact: it returns a value just for the texts of the documented grammar
  whose exact decimal value fits \<open>std::int64_t\<close> at scale \<open>1e8\<close>, and then it returns that
  value. Excess precision, overflow and every other text are rejected.
\<close>

theorem parse_decimal_exact:
  "parse_decimal s = Some v \<longleftrightarrow>
     (\<exists>neg w f. decimal_literal s neg w f \<and> v = decimal_value neg w f \<and> in_i64 v)"
  by (rule parse_decimal_Some_iff)

text \<open>
  C25. Every 64-bit value is printed as a text that parses back to it, and no text that
  parses to it is shorter (no sign, leading or trailing zero more than needed).
\<close>

theorem format_decimal_roundtrip:
  assumes "in_i64 v"
  shows "parse_decimal (format_decimal v) = Some v \<and>
    (\<forall>s. parse_decimal s = Some v \<longrightarrow> length (format_decimal v) \<le> length s)"
  using assms by (simp add: parse_format_decimal format_decimal_shortest)

theorem format_decimal_roundtrip_witness:
  "parse_decimal (format_decimal (- (2 ^ 63))) = Some (- (2 ^ 63)) \<and>
   in_i64 (- (2 ^ 63)) \<and> format_decimal 125000000 = ''1.25''"
proof -
  have "in_i64 (- (2 ^ 63))" by (simp add: in_i64_def)
  from this and format_decimal_roundtrip [OF this] have
    "parse_decimal (format_decimal (- (2 ^ 63))) = Some (- (2 ^ 63)) \<and> in_i64 (- (2 ^ 63))"
    by blast
  moreover have "format_decimal 125000000 = ''1.25''"
    by (simp add: format_decimal_eq in_i64_def canonical_fraction_def setw_fill_def
        show_nat.simps pop_zeros.simps digit_char_0 digit_char_simps)
  ultimately show ?thesis by blast
qed

end
