(* ===== verification/Timestamp.thy ===== *)
theory Timestamp
  imports Digits "HOL-Library.Signed_Division"
begin

text \<open>
  RFC 3339 timestamps in UTC (\<open>src/core.cpp\<close>, \<open>parse_component\<close>, \<open>is_leap_year\<close>,
  \<open>days_in_month\<close>, \<open>days_from_civil\<close>, \<open>parse_timestamp_ns\<close>). Calendar fields are
  \<open>unsigned\<close> (\<open>u32\<close>), the year in \<open>days_from_civil\<close> and its result are signed, seconds and
  nanoseconds are \<open>std::uint64_t\<close>. The cursor of the parser is the text from the cursor on.
  The specification counts days of the Gregorian calendar one year and one month at a time.
\<close>

section \<open>The routines\<close>

primrec component_loop :: "u32 \<Rightarrow> string \<Rightarrow> u32 option" where
  "component_loop result [] = Some result"
| "component_loop result (c # cs) =
     (if c < CHR ''0'' \<or> c > CHR ''9'' then None
      else component_loop (result * 10 + of_nat (digit_of c)) cs)"

definition parse_component :: "string \<Rightarrow> nat \<Rightarrow> nat \<Rightarrow> u32 option" where
  "parse_component value offset len =
     (if offset + len > length value then None
      else component_loop 0 (take len (drop offset value)))"

definition is_leap_year :: "u32 \<Rightarrow> bool" where
  "is_leap_year year \<longleftrightarrow> year mod 4 = 0 \<and> (year mod 100 \<noteq> 0 \<or> year mod 400 = 0)"

definition days_in_month :: "u32 \<Rightarrow> u32 \<Rightarrow> u32" where
  "days_in_month year month =
     (let days = [31, 28, 31, 30, 31, 30, 31, 31, 30, 31, 30, 31]
      in if month = 2 \<and> is_leap_year year then 29 else days ! unat (month - 1))"

definition days_from_civil :: "int \<Rightarrow> u32 \<Rightarrow> u32 \<Rightarrow> int" where
  "days_from_civil year0 month day =
     (let year = year0 - (if month \<le> 2 then 1 else 0);
          era = (if year \<ge> 0 then year else year - 399) sdiv 400;
          year_of_era = (word_of_int (year - era * 400) :: u32);
          day_of_year = (153 * (if month > 2 then month - 3 else month + 9) + 2) div 5 + day - 1;
          day_of_era = year_of_era * 365 + year_of_era div 4 - year_of_era div 100 + day_of_year
      in era * 146097 + uint day_of_era - 719468)"

primrec scan_fraction :: "string \<Rightarrow> u64 \<Rightarrow> nat \<Rightarrow> (u64 \<times> nat \<times> string) option" where
  "scan_fraction [] fraction digits = Some (fraction, digits, [])"
| "scan_fraction (c # cs) fraction digits =
     (if c = CHR ''Z'' then Some (fraction, digits, c # cs)
      else if digits = 9 \<or> c < CHR ''0'' \<or> c > CHR ''9'' then None
      else scan_fraction cs (fraction * 10 + of_nat (digit_of c)) (digits + 1))"

definition parse_nanos :: "string \<Rightarrow> u64 option" where
  "parse_nanos text =
     (case (if hd text = CHR ''.''
            then (case scan_fraction (tl text) 0 0 of
                None \<Rightarrow> None
              | Some (fraction, digits, rest) \<Rightarrow>
                  if digits = 0 then None else Some (fraction, digits, rest))
            else Some (0, 0, text)) of
        None \<Rightarrow> None
      | Some (fraction, digits, rest) \<Rightarrow>
          if rest \<noteq> ''Z'' then None else Some (pad_zeros 9 digits fraction))"

definition to_epoch_ns :: "int \<Rightarrow> u32 \<Rightarrow> u32 \<Rightarrow> u32 \<Rightarrow> u64 \<Rightarrow> u64 option" where
  "to_epoch_ns days hour minute second fraction =
     (if days < 0 then None
      else let seconds = (word_of_int days :: u64) * 86400 + ucast hour * 3600
                         + ucast minute * 60 + ucast second
        in if seconds > (u64_max - fraction) div 1000000000 then None
           else Some (seconds * 1000000000 + fraction))"

definition parse_timestamp_ns :: "string \<Rightarrow> u64 option" where
  "parse_timestamp_ns value =
     (if length value < 20 \<or> value ! 4 \<noteq> CHR ''-'' \<or> value ! 7 \<noteq> CHR ''-'' \<or>
         value ! 10 \<noteq> CHR ''T'' \<or> value ! 13 \<noteq> CHR '':'' \<or> value ! 16 \<noteq> CHR '':''
      then None
      else case (parse_component value 0 4, parse_component value 5 2, parse_component value 8 2,
                 parse_component value 11 2, parse_component value 14 2,
                 parse_component value 17 2) of
        (Some year, Some month, Some day, Some hour, Some minute, Some second) \<Rightarrow>
          if year < 1970 \<or> month < 1 \<or> month > 12 \<or> day < 1 \<or> day > days_in_month year month \<or>
             hour > 23 \<or> minute > 59 \<or> second > 59
          then None
          else (case parse_nanos (drop 19 value) of
              None \<Rightarrow> None
            | Some fraction \<Rightarrow>
                to_epoch_ns (days_from_civil (uint year) month day) hour minute second fraction)
      | _ \<Rightarrow> None)"

section \<open>The specification: counting days\<close>

definition gregorian_leap :: "nat \<Rightarrow> bool" where
  "gregorian_leap y \<longleftrightarrow> 4 dvd y \<and> (\<not> 100 dvd y \<or> 400 dvd y)"

definition year_days :: "nat \<Rightarrow> nat" where
  "year_days y = (if gregorian_leap y then 366 else 365)"

definition month_days :: "nat \<Rightarrow> nat \<Rightarrow> nat" where
  "month_days y m =
     (if m = 2 then (if gregorian_leap y then 29 else 28)
      else if m \<in> {4, 6, 9, 11} then 30 else 31)"

definition civil_days :: "nat \<Rightarrow> nat \<Rightarrow> nat \<Rightarrow> nat" where
  "civil_days y m d = (\<Sum>k = 1970..<y. year_days k) + (\<Sum>k = 1..<m. month_days y k) + (d - 1)"

definition valid_date :: "nat \<Rightarrow> nat \<Rightarrow> nat \<Rightarrow> bool" where
  "valid_date y m d \<longleftrightarrow> 1970 \<le> y \<and> 1 \<le> m \<and> m \<le> 12 \<and> 1 \<le> d \<and> d \<le> month_days y m"

section \<open>The calendar\<close>

definition leap_days :: "int \<Rightarrow> int" where
  "leap_days y = y div 4 - y div 100 + y div 400"

definition civil_formula :: "int \<Rightarrow> int \<Rightarrow> int \<Rightarrow> int" where
  "civil_formula y mp d =
     365 * y + leap_days y + (153 * mp + 2) div 5 + d - 719469"

lemma div_step:
  fixes y n :: int
  assumes "0 < n"
  shows "y div n = (y - 1) div n + (if n dvd y then 1 else 0)"
proof (cases "n dvd y")
  case True
  then obtain k where y: "y = n * k" by blast
  have "(y - 1) div n = k - 1"
    using assms y by (intro int_div_pos_eq [where r = "n - 1"]) (auto simp: algebra_simps)
  with True y assms show ?thesis by simp
next
  case False
  then have "y mod n \<noteq> 0" by (simp add: dvd_eq_mod_eq_0)
  moreover have "0 \<le> y mod n" "y mod n < n" using assms by simp_all
  ultimately have "(y - 1) div n = y div n"
    by (intro int_div_pos_eq [where r = "y mod n - 1"]) auto
  with False show ?thesis by simp
qed

lemma gregorian_leap_int:
  "gregorian_leap y \<longleftrightarrow> 4 dvd int y \<and> (\<not> 100 dvd int y \<or> 400 dvd int y)"
  unfolding gregorian_leap_def by (simp flip: int_dvd_int_iff)

lemma leap_arith:
  fixes a a' b b' c c' :: int
  assumes "a = a' + (if p then 1 else 0)" and "b = b' + (if q then 1 else 0)"
    and "c = c' + (if r then 1 else 0)" and "r \<Longrightarrow> q" and "q \<Longrightarrow> p"
  shows "a - b + c = a' - b' + c' + (if p \<and> (\<not> q \<or> r) then 1 else 0)"
  using assms by (cases p; cases q; cases r) simp_all

lemma leap_count:
  "leap_days (int y) = leap_days (int y - 1) + (if gregorian_leap y then 1 else 0)"
  unfolding gregorian_leap_int leap_days_def
proof (rule leap_arith)
  show "int y div 4 = (int y - 1) div 4 + (if 4 dvd int y then 1 else 0)"
    by (rule div_step) simp
  show "int y div 100 = (int y - 1) div 100 + (if 100 dvd int y then 1 else 0)"
    by (rule div_step) simp
  show "int y div 400 = (int y - 1) div 400 + (if 400 dvd int y then 1 else 0)"
    by (rule div_step) simp
  show "100 dvd int y" if "400 dvd int y"
    by (rule dvd_trans [OF _ that]) simp
  show "4 dvd int y" if "100 dvd int y"
    by (rule dvd_trans [OF _ that]) simp
qed

lemma days_before_year:
  "1970 \<le> y \<Longrightarrow> int (\<Sum>k = 1970..<y. year_days k) = civil_formula (int y - 1) 10 1"
proof (induction y rule: dec_induct)
  case base
  show ?case by (simp add: civil_formula_def leap_days_def)
next
  case (step y)
  have "civil_formula (int y) 10 1 = civil_formula (int y - 1) 10 1 + int (year_days y)"
    using leap_count [of y] unfolding civil_formula_def year_days_def by auto
  with step show ?case by simp
qed

lemma month_cases:
  "1 \<le> (m :: nat) \<Longrightarrow> m \<le> 12 \<Longrightarrow>
   m = 1 \<or> m = 2 \<or> m = 3 \<or> m = 4 \<or> m = 5 \<or> m = 6 \<or> m = 7 \<or> m = 8 \<or> m = 9 \<or>
   m = 10 \<or> m = 11 \<or> m = 12"
  by presburger

lemma days_before_month:
  assumes "1 \<le> m" and "m \<le> 12"
  shows "int (\<Sum>k = 1..<m. month_days y k) =
    (if m \<le> 2 then 31 * (int m - 1)
     else (153 * (int m - 3) + 2) div 5 + 59 + (if gregorian_leap y then 1 else 0))"
proof -
  have sum: "(\<Sum>k = 1..<m. month_days y k) = sum_list (map (month_days y) [1..<m])"
    using sum_set_upt_conv_sum_list_nat [of "month_days y" 1 m] by simp
  show ?thesis
    unfolding sum using month_cases [OF assms]
    by (elim disjE) (simp_all add: month_days_def upt_conv_Cons)
qed

lemma civil_formula_days:
  assumes "valid_date y m d"
  shows "int (civil_days y m d) =
    (if m \<le> 2 then civil_formula (int y - 1) (int m + 9) (int d)
     else civil_formula (int y) (int m - 3) (int d))"
proof -
  have y: "1970 \<le> y" and m: "1 \<le> m" "m \<le> 12" and d: "1 \<le> d"
    using assms by (simp_all add: valid_date_def)
  have days: "int (civil_days y m d) = civil_formula (int y - 1) 10 1
      + int (\<Sum>k = 1..<m. month_days y k) + (int d - 1)"
    using d by (simp only: civil_days_def of_nat_add days_before_year [OF y] of_nat_diff of_nat_1)
  show ?thesis
  proof (cases "m \<le> 2")
    case True
    then have "m = 1 \<or> m = 2" using m by auto
    then show ?thesis
      unfolding days days_before_month [OF m] civil_formula_def by auto
  next
    case False
    then show ?thesis
      unfolding days days_before_month [OF m] civil_formula_def using leap_count [of y] by auto
  qed
qed

section \<open>The word arithmetic of days\_from\_civil\<close>

lemma leap_days_era:
  assumes "0 \<le> q" and "q < 400"
  shows "leap_days (e * 400 + q) = e * 97 + (q div 4 - q div 100)"
proof -
  have "(e * 400 + q) div 4 = e * 100 + q div 4"
    using div_mult_self3 [of 4 "e * 100" q] by simp
  moreover have "(e * 400 + q) div 100 = e * 4 + q div 100"
    using div_mult_self3 [of 100 "e * 4" q] by simp
  moreover have "(e * 400 + q) div 400 = e + q div 400"
    using div_mult_self3 [of 400 e q] by simp
  moreover have "q div 400 = 0" using assms by simp
  ultimately show ?thesis by (simp add: leap_days_def)
qed

lemma word_of_int_div_u32:
  assumes "0 \<le> q" and "q < 2 ^ 32" and "0 \<le> k" and "k < 2 ^ 32"
  shows "(word_of_int q :: u32) div word_of_int k = word_of_int (q div k)"
proof (rule word_uint_eqI)
  have "0 \<le> q div k"
    using assms by (simp add: div_int_pos_iff)
  moreover have "q div k \<le> q"
    using assms zdiv_mono2 [of q 1 k] by (cases "k = 0") simp_all
  ultimately have "(q div k) mod 2 ^ 32 = q div k" using assms by simp
  then show "uint ((word_of_int q :: u32) div word_of_int k) = uint (word_of_int (q div k) :: u32)"
    using assms by (simp add: uint_div uint_word_of_int)
qed

lemma era_trunc:
  "0 \<le> a \<Longrightarrow> (if a \<ge> 0 then a else a - 399) sdiv 400 = a div (400 :: int)"
  by (simp add: signed_divide_int_def sgn_if)

lemma day_of_year_word:
  assumes "1 \<le> m" and "m \<le> 12"
  shows "(153 * (if (of_nat m :: u32) > 2 then of_nat m - 3 else of_nat m + 9) + 2) div 5
      + of_nat d - 1
    = (word_of_int ((153 * (if m \<le> 2 then int m + 9 else int m - 3) + 2) div 5 + int d - 1) :: u32)"
  using month_cases [OF assms] by (elim disjE) simp_all

lemma days_from_civil_eq:
  assumes y: "1 \<le> y" "y < 2 ^ 31" and m: "1 \<le> m" "m \<le> 12" and d: "1 \<le> d" "d \<le> 31"
  shows "days_from_civil (int y) (of_nat m) (of_nat d) =
    (if m \<le> 2 then civil_formula (int y - 1) (int m + 9) (int d)
     else civil_formula (int y) (int m - 3) (int d))"
proof -
  have m2: "(of_nat m :: u32) \<le> 2 \<longleftrightarrow> m \<le> 2"
    using month_cases [OF m] by (elim disjE) simp_all
  define year where "year = int y - (if m \<le> 2 then 1 else 0)"
  define mp where "mp = (if m \<le> 2 then int m + 9 else int m - 3)"
  define era where "era = year div 400"
  define q where "q = year mod 400"
  define doy where "doy = (153 * mp + 2) div 5 + int d - 1"
  have year: "0 \<le> year" and q: "0 \<le> q" "q < 400" and split: "year = era * 400 + q"
    using y by (simp_all add: year_def q_def era_def)
  have year_era: "year div 400 = era" "year - era * 400 = q" "uint (word_of_int q :: u32) = q"
    using q split by (simp_all add: era_def uint_word_of_int)
  have mp: "0 \<le> mp" "mp \<le> 11" using m by (auto simp: mp_def)
  then have doy: "0 \<le> doy" "doy < 400" using d by (auto simp: doy_def)
  have quot: "0 \<le> q div 4" "q div 4 < 400" "0 \<le> q div 100" "q div 100 \<le> q div 4"
    using q zdiv_mono2 [of q 4 100] by (auto simp: div_int_pos_iff)
  have "days_from_civil (int y) (of_nat m) (of_nat d) =
      era * 146097 + uint ((word_of_int q :: u32) * 365 + word_of_int q div word_of_int 4
        - word_of_int q div word_of_int 100 + word_of_int doy) - 719468"
    unfolding days_from_civil_def Let_def m2 year_def [symmetric] era_trunc [OF year]
      day_of_year_word [OF m] mp_def [symmetric] doy_def [symmetric] year_era
    by simp
  also have "(word_of_int q :: u32) * 365 + word_of_int q div word_of_int 4
        - word_of_int q div word_of_int 100 + word_of_int doy
      = word_of_int (q * 365 + q div 4 - q div 100 + doy)"
    using word_of_int_div_u32 [of q 4] word_of_int_div_u32 [of q 100] q by simp
  also have "uint (word_of_int (q * 365 + q div 4 - q div 100 + doy) :: u32)
      = q * 365 + q div 4 - q div 100 + doy"
    unfolding uint_word_of_int by (rule mod_pos_pos_trivial) (use q doy quot in simp_all)
  also have "era * 146097 + (q * 365 + q div 4 - q div 100 + doy) - 719468
      = civil_formula year mp (int d)"
    unfolding civil_formula_def split leap_days_era [OF q] doy_def by simp
  finally show ?thesis by (simp add: year_def mp_def)
qed

section \<open>Fields as numbers\<close>

lemma unat_of_nat_u32: "n < 2 ^ 32 \<Longrightarrow> unat (of_nat n :: u32) = n"
  by (simp add: unat_of_nat)

lemma is_leap_year_of_nat:
  assumes "y < 2 ^ 32"
  shows "is_leap_year (of_nat y) = gregorian_leap y"
proof -
  have mod: "(of_nat y :: u32) mod k = 0 \<longleftrightarrow> unat k dvd y" for k
    using assms by (simp add: word_unat_eq_iff unat_mod unat_of_nat_u32 dvd_eq_mod_eq_0)
  show ?thesis by (simp add: is_leap_year_def gregorian_leap_def mod)
qed

lemma days_in_month_of_nat:
  assumes y: "y < 2 ^ 32" and m: "1 \<le> m" "m \<le> 12"
  shows "unat (days_in_month (of_nat y) (of_nat m)) = month_days y m"
  using month_cases [OF m] is_leap_year_of_nat [OF y]
  by (elim disjE) (simp_all add: days_in_month_def month_days_def)

lemma component_loop_eq:
  "component_loop r cs =
     (if list_all is_digit cs
      then Some (r * 10 ^ length cs + of_nat (digits_value cs)) else None)"
  by (induction cs arbitrary: r) (auto simp: is_digit_def algebra_simps)

lemma component_loop_Some:
  "component_loop 0 cs = Some v \<longleftrightarrow> list_all is_digit cs \<and> v = of_nat (digits_value cs)"
  by (auto simp: component_loop_eq)

section \<open>The fraction\<close>

definition fraction_text :: "string \<Rightarrow> nat \<Rightarrow> bool" where
  "fraction_text tail n \<longleftrightarrow>
     tail = ''Z'' \<and> n = 0 \<or>
     (\<exists>f. tail = ''.'' @ f @ ''Z'' \<and> f \<noteq> [] \<and> length f \<le> 9 \<and> list_all is_digit f \<and>
          n = digits_value f * 10 ^ (9 - length f))"

lemma digit_not_Z: "is_digit c \<Longrightarrow> c \<noteq> CHR ''Z''"
  by (auto simp: is_digit_iff)

lemma scan_fraction_iff:
  "n \<le> 9 \<Longrightarrow> scan_fraction s a n = Some (b, m, rest) \<longleftrightarrow>
     (\<exists>f. s = f @ rest \<and> list_all is_digit f \<and> (rest = [] \<or> hd rest = CHR ''Z'') \<and>
          m = n + length f \<and> m \<le> 9 \<and> b = a * 10 ^ length f + of_nat (digits_value f))"
proof (induction s arbitrary: a n)
  case Nil
  then show ?case by auto
next
  case (Cons c s)
  show ?case
  proof (cases "c = CHR ''Z'' \<or> n = 9 \<or> \<not> is_digit c")
    case True
    then show ?thesis
      using Cons.prems digit_not_Z by (auto simp: is_digit_def Cons_eq_append_conv)
  next
    case False
    then have step: "scan_fraction (c # s) a n
        = scan_fraction s (a * 10 + of_nat (digit_of c)) (n + 1)"
      by (auto simp: is_digit_def)
    have "n + 1 \<le> 9" using False Cons.prems by simp
    note IH = Cons.IH [OF this, of "a * 10 + of_nat (digit_of c)"]
    have ext: "(\<exists>f. c # s = f @ rest \<and> P f) \<longleftrightarrow> (\<exists>f. s = f @ rest \<and> P (c # f))"
      if "P [] \<Longrightarrow> rest = [] \<or> hd rest = CHR ''Z''" for P
      using that False by (auto simp: Cons_eq_append_conv)
    show ?thesis
      unfolding step IH using False by (subst ext) (auto simp: algebra_simps)
  qed
qed

lemma parse_nanos_iff:
  assumes "tail \<noteq> []"
  shows "parse_nanos tail = Some v \<longleftrightarrow> (\<exists>n. fraction_text tail n \<and> v = of_nat n)"
proof (cases "hd tail = CHR ''.''")
  case False
  then show ?thesis
    using pad_zeros_eq [of 0 9 0] by (auto simp: parse_nanos_def fraction_text_def)
next
  case True
  then obtain t where t: "tail = CHR ''.'' # t" using assms by (cases tail) auto
  have "parse_nanos tail = Some v \<longleftrightarrow>
      (\<exists>b m. scan_fraction t 0 0 = Some (b, m, ''Z'') \<and> m \<noteq> 0 \<and> v = pad_zeros 9 m b)"
    unfolding t by (auto simp: parse_nanos_def split: option.splits if_splits)
  also have "\<dots> \<longleftrightarrow> (\<exists>f. t = f @ ''Z'' \<and> list_all is_digit f \<and> f \<noteq> [] \<and> length f \<le> 9 \<and>
      v = pad_zeros 9 (length f) (of_nat (digits_value f)))"
    by (auto simp: scan_fraction_iff)
  also have "\<dots> \<longleftrightarrow> (\<exists>n. fraction_text tail n \<and> v = of_nat n)"
    unfolding t fraction_text_def by (auto simp: pad_zeros_eq)
  finally show ?thesis .
qed

lemma fraction_text_less: "fraction_text text n \<Longrightarrow> n < 10 ^ 9"
  unfolding fraction_text_def using digits_scaled_less [of _ 9] by auto

section \<open>The overflow check\<close>

definition epoch_ns :: "nat \<Rightarrow> nat \<Rightarrow> nat \<Rightarrow> nat \<Rightarrow> nat \<Rightarrow> nat" where
  "epoch_ns days h mi sec n = (days * 86400 + h * 3600 + mi * 60 + sec) * 10 ^ 9 + n"

lemma ucast_of_nat_u32: "n < 2 ^ 32 \<Longrightarrow> (ucast (of_nat n :: u32) :: u64) = of_nat n"
  by (simp add: unsigned_of_nat take_bit_nat_eq_self)

lemma to_epoch_ns_eq:
  assumes D: "D < 2 ^ 40" and t: "h < 24" "mi < 60" "sec < 60" and n: "n < 10 ^ 9"
  shows "to_epoch_ns (int D) (of_nat h) (of_nat mi) (of_nat sec) (of_nat n) =
    (if epoch_ns D h mi sec n < 2 ^ 64 then Some (of_nat (epoch_ns D h mi sec n)) else None)"
proof -
  let ?S = "D * 86400 + h * 3600 + mi * 60 + sec"
  have S: "?S < 2 ^ 64" using D t by simp
  have secs: "(word_of_int (int D) :: u64) * 86400 + ucast (of_nat h :: u32) * 3600
      + ucast (of_nat mi :: u32) * 60 + ucast (of_nat sec :: u32) = of_nat ?S"
    using t by (simp add: ucast_of_nat_u32)
  have unat_S: "unat (of_nat ?S :: u64) = ?S" by (rule unat_of_nat_u64 [OF S])
  have unat_n: "unat (of_nat n :: u64) = n" using n by (intro unat_of_nat_u64) simp
  have "unat (u64_max - of_nat n) = 2 ^ 64 - 1 - n"
    by (simp only: unat_sub_u64 le_u64_max unat_n unat_u64_max)
  then have limit: "unat ((u64_max - of_nat n) div 1000000000) = (2 ^ 64 - 1 - n) div 10 ^ 9"
    by (simp add: unat_div)
  have "\<not> of_nat ?S > (u64_max - of_nat n) div 1000000000 \<longleftrightarrow> ?S \<le> (2 ^ 64 - 1 - n) div 10 ^ 9"
    by (simp only: not_less u64_le_nat unat_S limit)
  also have "\<dots> \<longleftrightarrow> epoch_ns D h mi sec n < 2 ^ 64"
    using n by (subst less_eq_div_iff_mult_less_eq) (auto simp: epoch_ns_def)
  finally have check: "of_nat ?S > (u64_max - of_nat n) div 1000000000
      \<longleftrightarrow> \<not> epoch_ns D h mi sec n < 2 ^ 64" by blast
  have result: "of_nat ?S * 1000000000 + of_nat n = (of_nat (epoch_ns D h mi sec n) :: u64)"
    by (simp add: epoch_ns_def)
  show ?thesis
    unfolding to_epoch_ns_def Let_def secs check result by simp
qed

lemma year_days_le: "year_days y \<le> 366"
  by (simp add: year_days_def)

lemma month_days_le: "month_days y m \<le> 31"
  by (simp add: month_days_def)

lemma civil_days_less:
  assumes "valid_date y m d" and "y < 10 ^ 4"
  shows "civil_days y m d < 2 ^ 40"
proof -
  have "(\<Sum>k = 1970..<y. year_days k) \<le> card {1970..<y} * 366"
    using sum_bounded_above [of "{1970..<y}" year_days 366] year_days_le by simp
  moreover have "(\<Sum>k = 1..<m. month_days y k) \<le> card {1..<m} * 31"
    using sum_bounded_above [of "{1..<m}" "month_days y" 31] month_days_le by simp
  moreover have "m \<le> 12" "d \<le> 31"
    using assms month_days_le [of y m] by (auto simp: valid_date_def)
  ultimately show ?thesis using assms(2) by (simp add: civil_days_def)
qed

lemma days_from_civil_days:
  assumes v: "valid_date y m d" and y: "y < 10 ^ 4"
  shows "days_from_civil (int y) (of_nat m) (of_nat d) = int (civil_days y m d)"
proof -
  have "1 \<le> y" "y < 2 ^ 31" "1 \<le> m" "m \<le> 12" "1 \<le> d" "d \<le> 31"
    using v y month_days_le [of y m] by (auto simp: valid_date_def)
  then show ?thesis by (simp only: days_from_civil_eq civil_formula_days [OF v])
qed

section \<open>The whole text\<close>

inductive timestamp_literal ::
  "string \<Rightarrow> nat \<Rightarrow> nat \<Rightarrow> nat \<Rightarrow> nat \<Rightarrow> nat \<Rightarrow> nat \<Rightarrow> nat \<Rightarrow> bool" where
  "list_all is_digit (Y @ Mo @ D @ H @ Mi @ S) \<Longrightarrow> length Y = 4 \<Longrightarrow> length Mo = 2 \<Longrightarrow>
   length D = 2 \<Longrightarrow> length H = 2 \<Longrightarrow> length Mi = 2 \<Longrightarrow> length S = 2 \<Longrightarrow> fraction_text tail n \<Longrightarrow>
   timestamp_literal
     (Y @ ''-'' @ Mo @ ''-'' @ D @ ''T'' @ H @ '':'' @ Mi @ '':'' @ S @ tail)
     (digits_value Y) (digits_value Mo) (digits_value D)
     (digits_value H) (digits_value Mi) (digits_value S) n"

lemma timestamp_split:
  fixes s :: string
  assumes "\<not> length s < 20"
  shows "\<exists>Y a Mo b D c H d Mi e S tail. s = Y @ a # Mo @ b # D @ c # H @ d # Mi @ e # S @ tail \<and>
    length Y = 4 \<and> length Mo = 2 \<and> length D = 2 \<and> length H = 2 \<and> length Mi = 2 \<and>
    length S = 2 \<and> tail \<noteq> []"
proof -
  have cut: "\<exists>x c r. u = x @ c # r \<and> length x = n \<and> length u = n + 1 + length r"
    if "n < length u" for n and u :: string
    using id_take_nth_drop [OF that] that
    by (intro exI [of _ "take n u"] exI [of _ "u ! n"] exI [of _ "drop (Suc n) u"]) auto
  from cut [of 4 s] assms obtain Y a r1 where 1: "s = Y @ a # r1" "length Y = 4" "length s = 5 + length r1"
    by auto
  from cut [of 2 r1] assms 1 obtain Mo b r2 where 2: "r1 = Mo @ b # r2" "length Mo = 2" "length r1 = 3 + length r2"
    by auto
  from cut [of 2 r2] assms 1 2 obtain D c r3 where 3: "r2 = D @ c # r3" "length D = 2" "length r2 = 3 + length r3"
    by auto
  from cut [of 2 r3] assms 1 2 3 obtain H d r4 where 4: "r3 = H @ d # r4" "length H = 2" "length r3 = 3 + length r4"
    by auto
  from cut [of 2 r4] assms 1 2 3 4 obtain Mi e r5 where 5: "r4 = Mi @ e # r5" "length Mi = 2" "length r4 = 3 + length r5"
    by auto
  have "r5 = take 2 r5 @ drop 2 r5" "length (take 2 r5) = 2" "drop 2 r5 \<noteq> []"
    using assms 1 2 3 4 5 by auto
  with 1 2 3 4 5 show ?thesis by metis
qed

lemma parse_timestamp_fields:
  assumes len: "length Y = 4" "length Mo = 2" "length D = 2" "length H = 2" "length Mi = 2"
    "length S = 2" and tail: "tail \<noteq> []"
  shows "parse_timestamp_ns (Y @ a # Mo @ b # D @ c # H @ d # Mi @ e # S @ tail) =
    (if a \<noteq> CHR ''-'' \<or> b \<noteq> CHR ''-'' \<or> c \<noteq> CHR ''T'' \<or> d \<noteq> CHR '':'' \<or> e \<noteq> CHR '':'' then None
     else case (component_loop 0 Y, component_loop 0 Mo, component_loop 0 D,
                component_loop 0 H, component_loop 0 Mi, component_loop 0 S) of
        (Some year, Some month, Some day, Some hour, Some minute, Some second) \<Rightarrow>
          if year < 1970 \<or> month < 1 \<or> month > 12 \<or> day < 1 \<or> day > days_in_month year month \<or>
             hour > 23 \<or> minute > 59 \<or> second > 59
          then None
          else (case parse_nanos tail of
              None \<Rightarrow> None
            | Some fraction \<Rightarrow>
                to_epoch_ns (days_from_civil (uint year) month day) hour minute second fraction)
      | _ \<Rightarrow> None)"
proof -
  let ?s = "Y @ a # Mo @ b # D @ c # H @ d # Mi @ e # S @ tail"
  have size: "length ?s < 20 \<longleftrightarrow> False" using assms by (cases tail) auto
  have nths: "?s ! 4 = a" "?s ! 7 = b" "?s ! 10 = c" "?s ! 13 = d" "?s ! 16 = e"
    using len by (simp_all add: nth_append)
  have rest: "drop 19 ?s = tail" using len by simp
  have parts: "parse_component ?s 0 4 = component_loop 0 Y"
    "parse_component ?s 5 2 = component_loop 0 Mo" "parse_component ?s 8 2 = component_loop 0 D"
    "parse_component ?s 11 2 = component_loop 0 H" "parse_component ?s 14 2 = component_loop 0 Mi"
    "parse_component ?s 17 2 = component_loop 0 S"
    using len by (simp_all add: parse_component_def)
  show ?thesis
    by (simp only: parse_timestamp_ns_def size nths rest parts simp_thms)
qed

lemma digits_field:
  assumes "list_all is_digit cs" and "length cs \<le> 4"
  shows "digits_value cs < 10 ^ 4" and "unat (of_nat (digits_value cs) :: u32) = digits_value cs"
proof -
  have "digits_value cs < 10 ^ length cs" by (rule digits_value_less [OF assms(1)])
  also have "\<dots> \<le> 10 ^ 4" using assms(2) by (intro power_increasing) auto
  finally show "digits_value cs < 10 ^ 4" .
  then show "unat (of_nat (digits_value cs) :: u32) = digits_value cs"
    by (intro unat_of_nat_u32) simp
qed

text \<open>The field checks of the code, on fields read from digits, are the calendar's.\<close>

lemma field_checks:
  assumes small: "y < 10 ^ 4" "m < 10 ^ 4" "dd < 10 ^ 4" "h < 10 ^ 4" "mi < 10 ^ 4" "sec < 10 ^ 4"
  shows "(of_nat y :: u32) < 1970 \<or> (of_nat m :: u32) < 1 \<or> (of_nat m :: u32) > 12 \<or>
      (of_nat dd :: u32) < 1 \<or> of_nat dd > days_in_month (of_nat y) (of_nat m) \<or>
      (of_nat h :: u32) > 23 \<or> (of_nat mi :: u32) > 59 \<or> (of_nat sec :: u32) > 59
    \<longleftrightarrow> \<not> (valid_date y m dd \<and> h < 24 \<and> mi < 60 \<and> sec < 60)"
proof -
  have u: "unat (of_nat k :: u32) = k" if "k < 10 ^ 4" for k
    using that by (intro unat_of_nat_u32) simp
  note cmp = word_less_nat_alt u [OF small(1)] u [OF small(2)] u [OF small(3)] u [OF small(4)]
    u [OF small(5)] u [OF small(6)]
  have dim: "unat (days_in_month (of_nat y) (of_nat m)) = month_days y m" if "1 \<le> m" "m \<le> 12"
    using small(1) that by (intro days_in_month_of_nat) simp_all
  show ?thesis
  proof (cases "1 \<le> m \<and> m \<le> 12")
    case True
    then show ?thesis by (auto simp: cmp dim valid_date_def)
  next
    case False
    then show ?thesis by (auto simp: cmp valid_date_def)
  qed
qed

lemma parse_timestamp_digits:
  assumes len: "length Y = 4" "length Mo = 2" "length D = 2" "length H = 2" "length Mi = 2"
    "length S = 2"
    and digits: "list_all is_digit Y" "list_all is_digit Mo" "list_all is_digit D"
    "list_all is_digit H" "list_all is_digit Mi" "list_all is_digit S"
    and tail: "tail \<noteq> []"
  shows "parse_timestamp_ns
      (Y @ CHR ''-'' # Mo @ CHR ''-'' # D @ CHR ''T'' # H @ CHR '':'' # Mi @ CHR '':'' # S @ tail)
    = Some t \<longleftrightarrow>
    (\<exists>n. fraction_text tail n \<and>
       valid_date (digits_value Y) (digits_value Mo) (digits_value D) \<and>
       digits_value H < 24 \<and> digits_value Mi < 60 \<and> digits_value S < 60 \<and>
       epoch_ns (civil_days (digits_value Y) (digits_value Mo) (digits_value D))
         (digits_value H) (digits_value Mi) (digits_value S) n < 2 ^ 64 \<and>
       t = of_nat (epoch_ns (civil_days (digits_value Y) (digits_value Mo) (digits_value D))
         (digits_value H) (digits_value Mi) (digits_value S) n))"
    (is "parse_timestamp_ns ?s = Some t \<longleftrightarrow> ?rhs")
proof -
  let ?y = "digits_value Y" and ?mo = "digits_value Mo" and ?d = "digits_value D"
    and ?h = "digits_value H" and ?mi = "digits_value Mi" and ?sec = "digits_value S"
  note small = digits_field [OF digits(1)] digits_field [OF digits(2)] digits_field [OF digits(3)]
    digits_field [OF digits(4)] digits_field [OF digits(5)] digits_field [OF digits(6)]
  have small: "?y < 10 ^ 4" "?mo < 10 ^ 4" "?d < 10 ^ 4" "?h < 10 ^ 4" "?mi < 10 ^ 4" "?sec < 10 ^ 4"
    using small len by simp_all
  have year: "uint (of_nat ?y :: u32) = int ?y"
    using small(1) by (simp add: uint_nat unat_of_nat del: of_nat_unat)
  have comps: "component_loop 0 cs = Some (of_nat (digits_value cs))" if "list_all is_digit cs" for cs
    using that by (simp add: component_loop_Some)
  note comps = comps [OF digits(1)] comps [OF digits(2)] comps [OF digits(3)]
    comps [OF digits(4)] comps [OF digits(5)] comps [OF digits(6)]
  let ?ok = "valid_date ?y ?mo ?d \<and> ?h < 24 \<and> ?mi < 60 \<and> ?sec < 60"
  have code: "parse_timestamp_ns ?s =
    (if \<not> ?ok then None
     else case parse_nanos tail of None \<Rightarrow> None
       | Some f \<Rightarrow> to_epoch_ns (days_from_civil (int ?y) (of_nat ?mo) (of_nat ?d))
           (of_nat ?h) (of_nat ?mi) (of_nat ?sec) f)"
    unfolding parse_timestamp_fields [OF len tail] comps prod.case option.case
      field_checks [OF small] year by simp
  show ?thesis
  proof (cases ?ok)
    case False
    then show ?thesis unfolding code by auto
  next
    case True
    then have valid: "valid_date ?y ?mo ?d" by blast
    have days: "civil_days ?y ?mo ?d < 2 ^ 40" by (rule civil_days_less [OF valid small(1)])
    let ?e = "epoch_ns (civil_days ?y ?mo ?d) ?h ?mi ?sec"
    have epoch: "to_epoch_ns (int (civil_days ?y ?mo ?d)) (of_nat ?h) (of_nat ?mi) (of_nat ?sec)
        (of_nat n) = (if ?e n < 2 ^ 64 then Some (of_nat (?e n)) else None)"
      if "fraction_text tail n" for n
      using True fraction_text_less [OF that] by (intro to_epoch_ns_eq [OF days]) simp_all
    have some: "to_epoch_ns (int (civil_days ?y ?mo ?d)) (of_nat ?h) (of_nat ?mi) (of_nat ?sec)
        (of_nat n) = Some t \<longleftrightarrow> ?e n < 2 ^ 64 \<and> t = of_nat (?e n)"
      if "fraction_text tail n" for n
      unfolding epoch [OF that] by auto
    have "parse_timestamp_ns ?s = Some t \<longleftrightarrow>
      (\<exists>f. parse_nanos tail = Some f \<and>
        to_epoch_ns (int (civil_days ?y ?mo ?d)) (of_nat ?h) (of_nat ?mi) (of_nat ?sec) f = Some t)"
      unfolding code days_from_civil_days [OF valid small(1)] using True
      by (simp split: option.split)
    also have "\<dots> \<longleftrightarrow> (\<exists>n. fraction_text tail n \<and> ?e n < 2 ^ 64 \<and> t = of_nat (?e n))"
      unfolding parse_nanos_iff [OF tail] using some by metis
    finally show ?thesis using True by blast
  qed
qed

lemma fraction_text_not_Nil: "fraction_text tail n \<Longrightarrow> tail \<noteq> []"
  by (auto simp: fraction_text_def)

lemma parse_timestamp_shape:
  assumes "parse_timestamp_ns s = Some t"
  shows "\<exists>Y Mo D H Mi S tail.
    s = Y @ CHR ''-'' # Mo @ CHR ''-'' # D @ CHR ''T'' # H @ CHR '':'' # Mi @ CHR '':'' # S @ tail \<and>
    length Y = 4 \<and> length Mo = 2 \<and> length D = 2 \<and> length H = 2 \<and> length Mi = 2 \<and>
    length S = 2 \<and> tail \<noteq> [] \<and> list_all is_digit (Y @ Mo @ D @ H @ Mi @ S)"
proof -
  have "\<not> length s < 20"
    using assms by (auto simp: parse_timestamp_ns_def)
  from timestamp_split [OF this] obtain Y a Mo b D c H d Mi e S tail where
    s: "s = Y @ a # Mo @ b # D @ c # H @ d # Mi @ e # S @ tail" and
    len: "length Y = 4" "length Mo = 2" "length D = 2" "length H = 2" "length Mi = 2"
      "length S = 2" "tail \<noteq> []"
    by blast
  note eq = parse_timestamp_fields [OF len, of a b c d e, folded s]
  have sep: "a = CHR ''-''" "b = CHR ''-''" "c = CHR ''T''" "d = CHR '':''" "e = CHR '':''"
    using assms unfolding eq by (auto split: if_splits)
  have "component_loop 0 x \<noteq> None" if "x \<in> {Y, Mo, D, H, Mi, S}" for x
    using assms that unfolding eq by (auto split: option.splits if_splits)
  then have "list_all is_digit x" if "x \<in> {Y, Mo, D, H, Mi, S}" for x
    using that by (metis component_loop_eq)
  then have "list_all is_digit (Y @ Mo @ D @ H @ Mi @ S)" by simp
  then show ?thesis using s len sep by blast
qed

lemma parse_timestamp_sound:
  assumes t: "parse_timestamp_ns s = Some t"
  shows "\<exists>y mo d h mi sec n. timestamp_literal s y mo d h mi sec n \<and>
        valid_date y mo d \<and> h < 24 \<and> mi < 60 \<and> sec < 60 \<and>
        epoch_ns (civil_days y mo d) h mi sec n < 2 ^ 64 \<and>
        t = of_nat (epoch_ns (civil_days y mo d) h mi sec n)"
proof -
  from parse_timestamp_shape [OF t] obtain Y Mo D H Mi S tail where
    s: "s = Y @ CHR ''-'' # Mo @ CHR ''-'' # D @ CHR ''T'' # H @ CHR '':'' # Mi @ CHR '':'' # S @ tail"
    and len: "length Y = 4" "length Mo = 2" "length D = 2" "length H = 2" "length Mi = 2"
      "length S = 2" and tail: "tail \<noteq> []" and dig: "list_all is_digit (Y @ Mo @ D @ H @ Mi @ S)"
    by blast
  have digs: "list_all is_digit Y" "list_all is_digit Mo" "list_all is_digit D"
    "list_all is_digit H" "list_all is_digit Mi" "list_all is_digit S"
    using dig by simp_all
  from t [unfolded s parse_timestamp_digits [OF len digs tail]] obtain n where
    n: "fraction_text tail n" and
    rest: "valid_date (digits_value Y) (digits_value Mo) (digits_value D)"
      "digits_value H < 24" "digits_value Mi < 60" "digits_value S < 60"
      "epoch_ns (civil_days (digits_value Y) (digits_value Mo) (digits_value D))
         (digits_value H) (digits_value Mi) (digits_value S) n < 2 ^ 64"
      "t = of_nat (epoch_ns (civil_days (digits_value Y) (digits_value Mo) (digits_value D))
         (digits_value H) (digits_value Mi) (digits_value S) n)"
    by blast
  have "timestamp_literal s (digits_value Y) (digits_value Mo) (digits_value D)
      (digits_value H) (digits_value Mi) (digits_value S) n"
    using timestamp_literal.intros [OF dig len n] s by simp
  then show ?thesis
    using rest by blast
qed

lemma parse_timestamp_complete:
  assumes lit: "timestamp_literal s y mo d h mi sec n"
    and rest: "valid_date y mo d" "h < 24" "mi < 60" "sec < 60"
      "epoch_ns (civil_days y mo d) h mi sec n < 2 ^ 64"
      "t = of_nat (epoch_ns (civil_days y mo d) h mi sec n)"
  shows "parse_timestamp_ns s = Some t"
proof -
  from lit show "parse_timestamp_ns s = Some t"
  proof cases
    case (1 Y Mo D H Mi S tail)
    have digs: "list_all is_digit Y" "list_all is_digit Mo" "list_all is_digit D"
      "list_all is_digit H" "list_all is_digit Mi" "list_all is_digit S"
      using 1(8) by simp_all
    note iff = parse_timestamp_digits [OF 1(9-14) digs fraction_text_not_Nil [OF 1(15)], of t]
    show ?thesis using iff rest 1(1-7,15) by auto
  qed
qed

section \<open>Properties\<close>

text \<open>
  C18. The timestamp parser is exact: it accepts just the RFC 3339 UTC texts
  \<open>YYYY-MM-DDThh:mm:ss[.f]Z\<close> (one to nine fraction digits) that name a day of the Gregorian
  calendar from 1970 on and a time of that day and whose distance to the epoch fits
  \<open>std::uint64_t\<close> nanoseconds, and it returns that distance.
\<close>

theorem parse_timestamp_exact:
  "parse_timestamp_ns s = Some t \<longleftrightarrow>
     (\<exists>y mo d h mi sec n. timestamp_literal s y mo d h mi sec n \<and>
        valid_date y mo d \<and> h < 24 \<and> mi < 60 \<and> sec < 60 \<and>
        epoch_ns (civil_days y mo d) h mi sec n < 2 ^ 64 \<and>
        t = of_nat (epoch_ns (civil_days y mo d) h mi sec n))"
  using parse_timestamp_sound parse_timestamp_complete by blast

text \<open>
  C26. \<open>days_from_civil\<close>, which computes in 32-bit words over 400-year eras, is the count of
  days since 1970-01-01 obtained by walking the calendar, for every valid date of the four
  digit years the parser accepts.
\<close>

theorem days_from_civil_counts_days:
  assumes "valid_date y m d" and "y < 10 ^ 4"
  shows "days_from_civil (int y) (of_nat m) (of_nat d) = int (civil_days y m d)"
  by (rule days_from_civil_days [OF assms])

theorem days_from_civil_counts_days_witness:
  "days_from_civil 2024 2 29 = int (civil_days 2024 2 29) \<and> valid_date 2024 2 29"
proof -
  have v: "valid_date 2024 2 29" by (simp add: valid_date_def month_days_def gregorian_leap_def)
  have "days_from_civil (int 2024) (of_nat 2) (of_nat 29) = int (civil_days 2024 2 29)"
    by (rule days_from_civil_counts_days [OF v]) simp
  with v show ?thesis by simp
qed

end
