(* ===== verification/Reader.thy ===== *)
theory Reader
  imports JsonApi Trade Decimal Timestamp "HOL-Library.Monad_Syntax" "HOL-Library.AList"
begin

text \<open>
  The capture reader of \<open>src/core.cpp\<close>: \<open>read_bounded_line\<close>, \<open>read_capture\<close> and the loops
  inside it. A stream is the text not yet read. The local variables of \<open>read_capture\<close> are the
  record \<open>reader\<close>; the trades it hands to its consumer are its field \<open>emitted\<close>, in order. A
  statement that throws inside the \<open>try\<close> block is the outcome \<open>Thrown\<close> together with the state
  it left; \<open>unordered_map\<close> is an association list with distinct keys.
\<close>

section \<open>read\_bounded\_line\<close>

datatype capture_error = Cannot_open | Record_too_large | No_metadata

definition maximum_record_size :: nat where
  "maximum_record_size = 8 * 1024 * 1024"

definition maximum_sequence_streams :: nat where
  "maximum_sequence_streams = 4096"

fun read_line_loop :: "string \<Rightarrow> string \<Rightarrow> capture_error + (string \<times> string) option" where
  "read_line_loop line [] = Inr (if line = [] then None else Some (line, []))"
| "read_line_loop line (c # cs) =
     (if c = newline then Inr (Some (line, cs))
      else if length line = maximum_record_size then Inl Record_too_large
      else read_line_loop (line @ [c]) cs)"

definition read_bounded_line :: "string \<Rightarrow> capture_error + (string \<times> string) option" where
  "read_bounded_line stream = read_line_loop [] stream"

lemma read_line_loop_shorter:
  "read_line_loop line cs = Inr (Some (l, rest)) \<Longrightarrow> cs \<noteq> [] \<Longrightarrow> length rest < length cs"
proof (induction line cs rule: read_line_loop.induct)
  case (2 line c cs)
  then show ?case
    by (cases cs) (auto split: if_splits)
qed simp

lemma read_bounded_line_shorter:
  "read_bounded_line stream = Inr (Some (line, rest)) \<Longrightarrow> length rest < length stream"
  by (cases "stream = []") (auto simp: read_bounded_line_def intro: read_line_loop_shorter)

section \<open>The state of read\_capture\<close>

datatype outcome = Completed | Thrown

record reader =
  metrics :: parse_metrics
  last_sequences :: "(u64 \<times> u64) list"
  metadata_seen :: bool
  emitted :: "trade list"

definition new_reader :: reader where
  "new_reader = \<lparr>metrics = no_metrics, last_sequences = [], metadata_seen = False, emitted = []\<rparr>"

definition count_frame :: "reader \<Rightarrow> reader" where
  "count_frame r = r\<lparr>metrics := (metrics r)\<lparr>frames := frames (metrics r) + 1\<rparr>\<rparr>"

definition count_error :: "reader \<Rightarrow> reader" where
  "count_error r = r\<lparr>metrics := (metrics r)\<lparr>parse_errors := parse_errors (metrics r) + 1\<rparr>\<rparr>"

section \<open>Metadata records\<close>

definition product_id_ok :: "'j json_lib \<Rightarrow> 'j \<Rightarrow> bool" where
  "product_id_ok J entry =
     (case json_get_string J entry of
        None \<Rightarrow> False
      | Some product \<Rightarrow> \<not> (product = [] \<or> length product > 20))"

definition metadata_ok :: "'j json_lib \<Rightarrow> 'j \<Rightarrow> bool" where
  "metadata_ok J rec =
     (case do {
        format \<leftarrow> json_at J rec ''format'';
        version \<leftarrow> (if json_eq_string J format ''bengal-market-capture''
                    then json_at J rec ''version'' else None);
        source \<leftarrow> (if json_eq_int J version 1 then json_at J rec ''source'' else None);
        _ \<leftarrow> json_get_string J source;
        json_at J rec ''product_ids''
      } of
        None \<Rightarrow> False
      | Some product_ids \<Rightarrow>
          json_is_array J product_ids \<and> json_elements J product_ids \<noteq> [] \<and>
          list_all (product_id_ok J) (json_elements J product_ids))"

definition process_metadata :: "'j json_lib \<Rightarrow> 'j \<Rightarrow> reader \<Rightarrow> outcome \<times> reader" where
  "process_metadata J rec r =
     (if metadata_seen r \<or> \<not> metadata_ok J rec then (Thrown, r)
      else (Completed, r\<lparr>metadata_seen := True\<rparr>))"

section \<open>Sequence numbers\<close>

text \<open>\<open>None\<close> is the throw at the stream limit, before anything is stored.\<close>

definition track_sequence :: "u64 \<Rightarrow> u64 \<Rightarrow> reader \<Rightarrow> reader option" where
  "track_sequence connection_id sequence r =
     (case map_of (last_sequences r) connection_id of
        None \<Rightarrow>
          if length (last_sequences r) = maximum_sequence_streams then None
          else Some (r\<lparr>last_sequences := (connection_id, sequence) # last_sequences r\<rparr>)
      | Some previous \<Rightarrow>
          let m = metrics r;
              m = (if sequence > previous \<and> sequence - previous > 1
                   then m\<lparr>sequence_gaps := sequence_gaps m + (sequence - previous - 1)\<rparr>
                   else if sequence \<le> previous
                   then m\<lparr>out_of_order := out_of_order m + 1\<rparr>
                   else m);
              seqs = (if sequence > previous
                      then AList.update connection_id sequence (last_sequences r)
                      else last_sequences r)
          in Some (r\<lparr>metrics := m, last_sequences := seqs\<rparr>))"

section \<open>Market trades\<close>

definition side_of :: "string \<Rightarrow> trade_side option" where
  "side_of s = (if s = ''BUY'' then Some buy else if s = ''SELL'' then Some sell else None)"

definition assign_field :: "string \<Rightarrow> bounded_text \<Rightarrow> bounded_text option" where
  "assign_field s t = (case assign s t of (ok, t') \<Rightarrow> if ok then Some t' else None)"

definition parse_trade :: "'j json_lib \<Rightarrow> 'j \<Rightarrow> trade option" where
  "parse_trade J input_trade = do {
     price_text \<leftarrow> json_at J input_trade ''price'' \<bind> json_get_string J;
     size_text \<leftarrow> json_at J input_trade ''size'' \<bind> json_get_string J;
     side_text \<leftarrow> json_at J input_trade ''side'' \<bind> json_get_string J;
     time_text \<leftarrow> json_at J input_trade ''time'' \<bind> json_get_string J;
     p \<leftarrow> parse_decimal price_text;
     s \<leftarrow> parse_decimal size_text;
     timestamp \<leftarrow> parse_timestamp_ns time_text;
     id_text \<leftarrow> json_at J input_trade ''trade_id'' \<bind> json_get_string J;
     id_field \<leftarrow> assign_field id_text (trade_id new_trade);
     product_text \<leftarrow> json_at J input_trade ''product_id'' \<bind> json_get_string J;
     product_field \<leftarrow> assign_field product_text (product_id new_trade);
     sd \<leftarrow> side_of side_text;
     Some (new_trade\<lparr>trade_id := id_field, product_id := product_field, price := p,
       trade_size := s, side := sd, source_time_ns := timestamp\<rparr>)
   }"

fun emit_trades :: "'j json_lib \<Rightarrow> 'j list \<Rightarrow> reader \<Rightarrow> outcome \<times> reader" where
  "emit_trades J [] r = (Completed, r)"
| "emit_trades J (t # ts) r =
     (case parse_trade J t of
        None \<Rightarrow> (Thrown, r)
      | Some v \<Rightarrow> emit_trades J ts (r\<lparr>emitted := emitted r @ [v]\<rparr>))"

fun emit_events :: "'j json_lib \<Rightarrow> 'j list \<Rightarrow> reader \<Rightarrow> outcome \<times> reader" where
  "emit_events J [] r = (Completed, r)"
| "emit_events J (e # es) r =
     (case json_at J e ''trades'' of
        None \<Rightarrow> (Thrown, r)
      | Some trades \<Rightarrow>
          (case emit_trades J (json_elements J trades) r of
             (Thrown, r') \<Rightarrow> (Thrown, r')
           | (Completed, r') \<Rightarrow> emit_events J es r'))"

section \<open>Frames and records\<close>

definition frame_payload :: "'j json_lib \<Rightarrow> 'j \<Rightarrow> (u64 \<times> 'j \<times> string) option" where
  "frame_payload J rec = do {
     _ \<leftarrow> json_at J rec ''received_ns'' \<bind> json_get_u64 J;
     connection_id \<leftarrow> json_at J rec ''connection_id'' \<bind> json_get_u64 J;
     payload_text \<leftarrow> json_at J rec ''payload'' \<bind> json_get_string J;
     payload \<leftarrow> json_parse J payload_text;
     channel \<leftarrow> json_at J payload ''channel'' \<bind> json_get_string J;
     Some (connection_id, payload, channel)
   }"

definition process_frame :: "'j json_lib \<Rightarrow> 'j \<Rightarrow> reader \<Rightarrow> outcome \<times> reader" where
  "process_frame J rec r0 =
     (let r = count_frame r0 in
      case frame_payload J rec of
        None \<Rightarrow> (Thrown, r)
      | Some (connection_id, payload, channel) \<Rightarrow>
          if \<not> json_contains J payload ''sequence_num''
          then (if channel = ''market_trades'' \<or> channel = ''heartbeats'' then (Thrown, r)
                else (Completed, r))
          else
            case json_at J payload ''sequence_num'' \<bind> json_get_u64 J of
              None \<Rightarrow> (Thrown, r)
            | Some sequence \<Rightarrow>
                (case track_sequence connection_id sequence r of
                   None \<Rightarrow> (Thrown, r)
                 | Some r' \<Rightarrow>
                     if channel \<noteq> ''market_trades'' then (Completed, r')
                     else
                       case json_at J payload ''events'' of
                         None \<Rightarrow> (Thrown, r')
                       | Some evs \<Rightarrow> emit_events J (json_elements J evs) r'))"

definition process_record :: "'j json_lib \<Rightarrow> string \<Rightarrow> reader \<Rightarrow> outcome \<times> reader" where
  "process_record J line r =
     (case json_parse J line of
        None \<Rightarrow> (Thrown, r)
      | Some rec \<Rightarrow>
          (case json_at J rec ''type'' \<bind> json_get_string J of
             None \<Rightarrow> (Thrown, r)
           | Some ty \<Rightarrow>
               if ty = ''metadata'' then process_metadata J rec r
               else if ty \<noteq> ''frame'' then (Thrown, r)
               else if \<not> metadata_seen r then (Thrown, r)
               else process_frame J rec r))"

text \<open>One iteration of the loop: empty lines are skipped and a throw counts as a parse error.\<close>

definition process_line :: "'j json_lib \<Rightarrow> string \<Rightarrow> reader \<Rightarrow> reader" where
  "process_line J line r =
     (if line = [] then r
      else case process_record J line r of
             (Completed, r') \<Rightarrow> r'
           | (Thrown, r') \<Rightarrow> count_error r')"

function read_loop :: "'j json_lib \<Rightarrow> string \<Rightarrow> reader \<Rightarrow> capture_error option \<times> reader" where
  "read_loop J stream r =
     (case read_bounded_line stream of
        Inl e \<Rightarrow> (Some e, r)
      | Inr None \<Rightarrow> (None, r)
      | Inr (Some (line, rest)) \<Rightarrow> read_loop J rest (process_line J line r))"
  by pat_completeness auto

termination
  by (relation "measure (\<lambda>(J, stream, r). length stream)")
    (auto dest: read_bounded_line_shorter)

declare read_loop.simps [simp del]

text \<open>
  The file is \<open>None\<close> if it cannot be opened. The trades handed to the consumer are returned in
  every case, since the consumer has seen them when a later error is thrown.
\<close>

definition read_capture :: "'j json_lib \<Rightarrow> string option \<Rightarrow>
    (capture_error + parse_metrics) \<times> trade list" where
  "read_capture J file =
     (case file of
        None \<Rightarrow> (Inl Cannot_open, [])
      | Some stream \<Rightarrow>
          (case read_loop J stream new_reader of
             (Some e, r) \<Rightarrow> (Inl e, emitted r)
           | (None, r) \<Rightarrow>
               (if \<not> metadata_seen r then Inl No_metadata else Inr (metrics r), emitted r)))"

end
