(* ===== verification/JsonModel.thy ===== *)
theory JsonModel
  imports JsonApi Digits
begin

text \<open>
  An executable JSON library that satisfies the laws of \<open>json_library\<close>: a compact printer and a
  recursive-descent parser for strings, unsigned numbers, booleans, arrays and objects. It is no
  model of \<open>nlohmann::json\<close>; it shows that the laws can hold and evaluates the examples.
\<close>

section \<open>Printing\<close>

datatype jvalue =
    JBool bool
  | JNumber u64
  | JString string
  | JArray "jvalue list"
  | JObject "(string \<times> jvalue) list"

definition escape :: "char \<Rightarrow> string" where
  "escape c =
     (if c = CHR 0x22 then [CHR 0x5C, CHR 0x22]
      else if c = CHR 0x5C then [CHR 0x5C, CHR 0x5C]
      else if c = newline then [CHR 0x5C, CHR ''n'']
      else [c])"

definition print_text :: "string \<Rightarrow> string" where
  "print_text s = concat (map escape s) @ [CHR 0x22]"

fun jprint :: "jvalue \<Rightarrow> string"
  and jtail :: "jvalue list \<Rightarrow> string"
  and jmembers :: "(string \<times> jvalue) list \<Rightarrow> string" where
  "jprint (JBool b) = (if b then ''true'' else ''false'')"
| "jprint (JNumber n) = to_string n"
| "jprint (JString s) = CHR 0x22 # print_text s"
| "jprint (JArray vs) = CHR ''['' # (if vs = [] then '']'' else tl (jtail vs))"
| "jprint (JObject kvs) = CHR ''{'' # (if kvs = [] then ''}'' else tl (jmembers kvs))"
| "jtail [] = '']''"
| "jtail (v # vs) = CHR '','' # jprint v @ jtail vs"
| "jmembers [] = ''}''"
| "jmembers ((k, v) # kvs) = CHR '','' # CHR 0x22 # print_text k @ CHR '':'' # jprint v @ jmembers kvs"

section \<open>Parsing\<close>

fun parse_text :: "string \<Rightarrow> (string \<times> string) option" where
  "parse_text [] = None"
| "parse_text (c # r) =
     (if c = CHR 0x22 then Some ([], r)
      else if c = CHR 0x5C
      then (case r of
              [] \<Rightarrow> None
            | e # r' \<Rightarrow>
                (case parse_text r' of
                   None \<Rightarrow> None
                 | Some (t, r'') \<Rightarrow> Some ((if e = CHR ''n'' then newline else e) # t, r'')))
      else (case parse_text r of None \<Rightarrow> None | Some (t, r'') \<Rightarrow> Some (c # t, r'')))"

fun pvalue :: "nat \<Rightarrow> string \<Rightarrow> (jvalue \<times> string) option"
  and ptail :: "nat \<Rightarrow> string \<Rightarrow> (jvalue list \<times> string) option"
  and pmembers :: "nat \<Rightarrow> string \<Rightarrow> ((string \<times> jvalue) list \<times> string) option" where
  "pvalue 0 s = None"
| "pvalue (Suc n) [] = None"
| "pvalue (Suc n) (c # r) =
     (if c = CHR 0x22 then map_option (\<lambda>(t, r). (JString t, r)) (parse_text r)
      else if c = CHR ''['' then
        (if take 1 r = '']'' then Some (JArray [], tl r)
         else map_option (\<lambda>(vs, r). (JArray vs, r)) (ptail n (CHR '','' # r)))
      else if c = CHR ''{'' then
        (if take 1 r = ''}'' then Some (JObject [], tl r)
         else map_option (\<lambda>(kvs, r). (JObject kvs, r)) (pmembers n (CHR '','' # r)))
      else if take 4 (c # r) = ''true'' then Some (JBool True, drop 3 r)
      else if take 5 (c # r) = ''false'' then Some (JBool False, drop 4 r)
      else if is_digit c then
        Some (JNumber (of_nat (digits_value (takeWhile is_digit (c # r)))), dropWhile is_digit r)
      else None)"
| "ptail 0 s = None"
| "ptail (Suc n) [] = None"
| "ptail (Suc n) (c # r) =
     (if c = CHR '']'' then Some ([], r)
      else if c = CHR '','' then
        Option.bind (pvalue n r) (\<lambda>(v, r). map_option (\<lambda>(vs, r). (v # vs, r)) (ptail n r))
      else None)"
| "pmembers 0 s = None"
| "pmembers (Suc n) [] = None"
| "pmembers (Suc n) (c # r) =
     (if c = CHR ''}'' then Some ([], r)
      else if c = CHR '','' \<and> take 1 r = [CHR 0x22] then
        Option.bind (parse_text (tl r)) (\<lambda>(k, r).
          if take 1 r = '':'' then
            Option.bind (pvalue n (tl r)) (\<lambda>(v, r).
              map_option (\<lambda>(kvs, r). ((k, v) # kvs, r)) (pmembers n r))
          else None)
      else None)"

definition jparse :: "string \<Rightarrow> jvalue option" where
  "jparse s =
     (case pvalue (2 * length s) s of
        None \<Rightarrow> None
      | Some (v, r) \<Rightarrow> if r = [] \<or> r = [newline] then Some v else None)"

lemma parse_print_text: "parse_text (print_text s @ rest) = Some (s, rest)"
  by (induction s) (auto simp: print_text_def escape_def newline_def)

lemma show_nat_Cons:
  obtains c cs where "show_nat n = c # cs" and "is_digit c" and "list_all is_digit cs"
proof -
  have "show_nat n \<noteq> []" by (subst show_nat.simps) simp
  then show ?thesis using show_nat_digits [of n] that by (cases "show_nat n") auto
qed

lemma digit_not_punct:
  assumes "is_digit c"
  shows "c \<noteq> CHR 0x22" "c \<noteq> CHR ''[''" "c \<noteq> CHR ''{''" "c \<noteq> CHR ''t''" "c \<noteq> CHR ''f''"
    "c \<noteq> CHR '']''" "c \<noteq> CHR ''}''"
  using assms by (auto simp: is_digit_def)

definition ends_value :: "string \<Rightarrow> bool" where
  "ends_value rest \<longleftrightarrow> rest = [] \<or> \<not> is_digit (hd rest)"

lemma digits_then:
  assumes "list_all is_digit ds" and "ends_value rest"
  shows "takeWhile is_digit (ds @ rest) = ds" and "dropWhile is_digit (ds @ rest) = rest"
  using assms by (induction ds) (auto simp: ends_value_def takeWhile_eq_Nil_iff dropWhile_eq_self_iff)

lemma pvalue_number:
  assumes "ends_value rest" and "0 < n"
  shows "pvalue n (to_string w @ rest) = Some (JNumber w, rest)"
proof -
  obtain c cs where s: "show_nat (unat w) = c # cs" and c: "is_digit c" and cs: "list_all is_digit cs"
    by (rule show_nat_Cons)
  obtain m where n: "n = Suc m" using assms(2) by (cases n) auto
  have val: "digits_value (c # cs) = unat w"
    using digits_value_show_nat [of "unat w"] by (simp only: s)
  have "takeWhile is_digit (c # cs @ rest) = c # cs" "dropWhile is_digit (cs @ rest) = rest"
    using digits_then [OF _ assms(1), of "c # cs"] digits_then [OF cs assms(1)] c cs by simp_all
  then show ?thesis
    using digit_not_punct [OF c] c val unfolding to_string_def s n
    by (simp del: takeWhile.simps digits_value_Cons)
qed

lemma jprint_starts:
  obtains c cs where "jprint v = c # cs" and "c \<noteq> CHR '']''" and "c \<noteq> CHR ''}''"
proof (cases v)
  case (JNumber w)
  obtain c cs where "show_nat (unat w) = c # cs" "is_digit c" by (rule show_nat_Cons)
  then show ?thesis using that digit_not_punct [of c] JNumber by (simp add: to_string_def)
next
  case (JBool b)
  then show ?thesis using that by (cases b) simp_all
qed (use that in simp_all)

lemma jtail_ends: "ends_value (jtail vs @ rest)"
  by (cases vs) (simp_all add: ends_value_def is_digit_def)

lemma jmembers_ends: "ends_value (jmembers kvs @ rest)"
  by (cases kvs) (auto simp: ends_value_def is_digit_def)

lemma jtail_length: "0 < length (jtail vs)" "0 < length (jmembers kvs)"
  by (cases vs; simp) (cases kvs; auto)

lemma parse_printed:
  "\<forall>n rest. 2 * length (jprint v) \<le> n \<longrightarrow> ends_value rest \<longrightarrow>
     pvalue n (jprint v @ rest) = Some (v, rest)"
  "\<forall>n rest. 2 * length (jtail vs) \<le> n + 1 \<longrightarrow> ptail n (jtail vs @ rest) = Some (vs, rest)"
  "\<forall>n rest. 2 * length (jmembers kvs) \<le> n + 1 \<longrightarrow> pmembers n (jmembers kvs @ rest) = Some (kvs, rest)"
proof (induction v and vs and kvs rule: jprint_jtail_jmembers.induct)
  case (1 b)
  show ?case
  proof (intro allI impI)
    fix n rest
    assume "2 * length (jprint (JBool b)) \<le> n"
    then obtain m where "n = Suc m" by (cases n) (auto split: if_splits)
    then show "pvalue n (jprint (JBool b) @ rest) = Some (JBool b, rest)" by simp
  qed
next
  case (2 w)
  have "0 < length (to_string w)" using show_nat_Cons [of "unat w"] by (auto simp: to_string_def)
  then have "0 < n" if "2 * length (to_string w) \<le> n" for n using that by linarith
  then show ?case using pvalue_number by simp
next
  case (3 s)
  show ?case
  proof (intro allI impI)
    fix n rest
    assume "2 * length (jprint (JString s)) \<le> n"
    then obtain m where "n = Suc m" by (cases n) auto
    then show "pvalue n (jprint (JString s) @ rest) = Some (JString s, rest)"
      by (simp add: parse_print_text)
  qed
next
  case (4 vs)
  show ?case
  proof (intro allI impI)
    fix n rest
    assume le: "2 * length (jprint (JArray vs)) \<le> n"
    then obtain m where n: "n = Suc m" by (cases n) auto
    show "pvalue n (jprint (JArray vs) @ rest) = Some (JArray vs, rest)"
    proof (cases vs)
      case (Cons v vs')
      have "ptail m (jtail vs @ rest) = Some (vs, rest)"
        using 4 le n Cons by auto
      moreover obtain c cs where "jprint v = c # cs" "c \<noteq> CHR '']''" by (rule jprint_starts)
      ultimately show ?thesis using n Cons by simp
    qed (simp add: n)
  qed
next
  case (5 kvs)
  show ?case
  proof (intro allI impI)
    fix n rest
    assume le: "2 * length (jprint (JObject kvs)) \<le> n"
    then obtain m where n: "n = Suc m" by (cases n) auto
    show "pvalue n (jprint (JObject kvs) @ rest) = Some (JObject kvs, rest)"
    proof (cases kvs)
      case (Cons kv kvs')
      have "pmembers m (jmembers kvs @ rest) = Some (kvs, rest)"
        using 5 le n Cons by (cases kv) auto
      then show ?thesis using n Cons by (cases kv) simp
    qed (simp add: n)
  qed
next
  case 6
  show ?case
  proof (intro allI impI)
    fix n and rest :: string
    assume "2 * length (jtail []) \<le> n + 1"
    then obtain m where "n = Suc m" by (cases n) auto
    then show "ptail n (jtail [] @ rest) = Some ([], rest)" by simp
  qed
next
  case (7 v vs)
  show ?case
  proof (intro allI impI)
    fix n rest
    assume le: "2 * length (jtail (v # vs)) \<le> n + 1"
    then obtain m where n: "n = Suc m" by (cases n) auto
    have "pvalue m (jprint v @ jtail vs @ rest) = Some (v, jtail vs @ rest)"
      using 7(1) le n jtail_ends by auto
    moreover have "ptail m (jtail vs @ rest) = Some (vs, rest)"
      using 7(2) le n by auto
    ultimately show "ptail n (jtail (v # vs) @ rest) = Some (v # vs, rest)" by (simp add: n)
  qed
next
  case 8
  show ?case
  proof (intro allI impI)
    fix n and rest :: string
    assume "2 * length (jmembers []) \<le> n + 1"
    then obtain m where "n = Suc m" by (cases n) auto
    then show "pmembers n (jmembers [] @ rest) = Some ([], rest)" by simp
  qed
next
  case (9 k v kvs)
  show ?case
  proof (intro allI impI)
    fix n rest
    assume le: "2 * length (jmembers ((k, v) # kvs)) \<le> n + 1"
    then obtain m where n: "n = Suc m" by (cases n) auto
    have "pvalue m (jprint v @ jmembers kvs @ rest) = Some (v, jmembers kvs @ rest)"
      using 9(1) le n jmembers_ends by auto
    moreover have "pmembers m (jmembers kvs @ rest) = Some (kvs, rest)"
      using 9(2) le n by auto
    ultimately show "pmembers n (jmembers ((k, v) # kvs) @ rest) = Some ((k, v) # kvs, rest)"
      by (simp add: n parse_print_text)
  qed
qed

lemma jparse_jprint: "r = [] \<or> r = [newline] \<Longrightarrow> jparse (jprint v @ r) = Some v"
proof -
  assume r: "r = [] \<or> r = [newline]"
  then have "ends_value r" by (auto simp: ends_value_def newline_def is_digit_def)
  then have "pvalue (2 * length (jprint v @ r)) (jprint v @ r) = Some (v, r)"
    using parse_printed(1) [of v] by simp
  then show ?thesis using r by (auto simp: jparse_def)
qed

section \<open>The library\<close>

definition json_model :: "jvalue json_lib" where
  "json_model =
     \<lparr>json_parse = jparse,
      json_at = (\<lambda>v k. case v of JObject kvs \<Rightarrow> map_of kvs k | _ \<Rightarrow> None),
      json_contains = (\<lambda>v k. case v of JObject kvs \<Rightarrow> map_of kvs k \<noteq> None | _ \<Rightarrow> False),
      json_get_string = (\<lambda>v. case v of JString s \<Rightarrow> Some s | _ \<Rightarrow> None),
      json_get_u64 = (\<lambda>v. case v of JNumber n \<Rightarrow> Some n | _ \<Rightarrow> None),
      json_get_bool = (\<lambda>v. case v of JBool b \<Rightarrow> Some b | _ \<Rightarrow> None),
      json_eq_string = (\<lambda>v t. case v of JString s \<Rightarrow> s = t | _ \<Rightarrow> False),
      json_eq_int = (\<lambda>v i. case v of JNumber n \<Rightarrow> uint n = i | _ \<Rightarrow> False),
      json_is_array = (\<lambda>v. case v of JArray vs \<Rightarrow> True | _ \<Rightarrow> False),
      json_elements = (\<lambda>v. case v of JArray vs \<Rightarrow> vs | JObject kvs \<Rightarrow> map snd kvs | _ \<Rightarrow> [v]),
      json_string = JString, json_number = JNumber, json_bool = JBool, json_array = JArray,
      json_object = JObject,
      json_dump = (\<lambda>v. if list_all is_ascii (jprint v) then Some (jprint v) else None),
      json_dump_indented = (\<lambda>n v. if list_all is_ascii (jprint v) then Some (jprint v) else None)\<rparr>"

definition jencodable :: "jvalue \<Rightarrow> bool" where
  "jencodable v \<longleftrightarrow> list_all is_ascii (jprint v)"

lemma is_ascii_syntax [simp]:
  "is_ascii CHR ''[''" "is_ascii CHR '']''" "is_ascii CHR ''{''" "is_ascii CHR ''}''"
  "is_ascii CHR '',''" "is_ascii CHR '':''" "is_ascii CHR 0x22" "is_ascii CHR ''t''"
  "is_ascii CHR ''r''" "is_ascii CHR ''u''" "is_ascii CHR ''e''" "is_ascii CHR ''f''"
  "is_ascii CHR ''a''" "is_ascii CHR ''l''" "is_ascii CHR ''s''"
  by (simp_all add: is_ascii_def)

lemma is_ascii_digit: "is_digit c \<Longrightarrow> is_ascii c"
  by (simp add: is_digit_iff is_ascii_def)

lemma print_text_ascii: "list_all is_ascii (print_text s) \<longleftrightarrow> list_all is_ascii s"
  by (induction s) (auto simp: print_text_def escape_def is_ascii_def newline_def)

lemma print_text_line: "newline \<notin> set (print_text s)"
  by (induction s) (auto simp: print_text_def escape_def newline_def)

lemma to_string_line: "newline \<notin> set (to_string w)" and to_string_ascii: "list_all is_ascii (to_string w)"
proof -
  have d: "list_all is_digit (to_string w)" by (simp add: to_string_def)
  then show "list_all is_ascii (to_string w)" by (auto simp: list_all_iff is_ascii_digit)
  have "\<not> is_digit newline" by (simp add: newline_def is_digit_def)
  then show "newline \<notin> set (to_string w)" using d by (auto simp: list_all_iff)
qed

lemma list_all_tl: "list_all P xs \<Longrightarrow> list_all P (tl xs)"
  by (cases xs) auto

lemma jprint_line:
  "newline \<notin> set (jprint v)" "newline \<notin> set (jtail vs)" "newline \<notin> set (jmembers kvs)"
proof (induction v and vs and kvs rule: jprint_jtail_jmembers.induct)
  case (4 vs)
  then show ?case by (cases vs) (auto simp: newline_def)
next
  case (5 kvs)
  then show ?case by (cases kvs) (auto simp: newline_def)
qed (use to_string_line print_text_line in \<open>auto simp: newline_def\<close>)

lemma jtail_ascii: "list_all jencodable vs \<Longrightarrow> list_all is_ascii (jtail vs)"
  by (induction vs) (auto simp: jencodable_def)

lemma jmembers_ascii:
  "list_all (\<lambda>kv. list_all is_ascii (fst kv) \<and> jencodable (snd kv)) kvs \<Longrightarrow>
   list_all is_ascii (jmembers kvs)"
  by (induction kvs) (auto simp: jencodable_def print_text_ascii)

interpretation json_model: json_library json_model jencodable
proof
  fix kvs and k
  show "json_contains json_model (json_object json_model kvs) k \<longleftrightarrow> k \<in> fst ` set kvs"
    using map_of_eq_None_iff [of kvs k] by (auto simp: json_model_def)
next
  fix vs
  assume "list_all jencodable vs"
  from jtail_ascii [OF this] show "jencodable (json_array json_model vs)"
    by (auto simp: json_model_def jencodable_def intro: list_all_tl)
next
  fix kvs
  assume "list_all (\<lambda>kv. list_all is_ascii (fst kv) \<and> jencodable (snd kv)) kvs"
  from jmembers_ascii [OF this] show "jencodable (json_object json_model kvs)"
    by (auto simp: json_model_def jencodable_def intro: list_all_tl)
next
  fix v s
  assume "jencodable v" and "json_dump json_model v = Some s"
  then have s: "s = jprint v" by (simp add: json_model_def jencodable_def)
  obtain c cs where "jprint v = c # cs" by (rule jprint_starts)
  then show "s \<noteq> [] \<and> newline \<notin> set s" unfolding s using jprint_line(1) [of v] by simp
  show "json_parse json_model s = Some v" 
    unfolding s using jparse_jprint [of "[]" v] by (simp add: json_model_def)
  show "list_all is_ascii s" using \<open>jencodable v\<close> by (simp add: s jencodable_def)
next
  fix v k s
  assume "jencodable v" and "json_dump_indented json_model k v = Some s"
  then have "s = jprint v" by (simp add: json_model_def jencodable_def)
  then show "json_parse json_model (s @ [newline]) = Some v"
    using jparse_jprint [of "[newline]" v] by (simp add: json_model_def)
qed (auto simp: json_model_def jencodable_def print_text_ascii to_string_ascii)

end
