(* ===== verification/Capture.thy ===== *)
theory Capture
  imports Reader JsonModel
begin

text \<open>
  Facts and properties of the capture reader: which lines it processes, what every processed
  line preserves (the locale \<open>reader_invariant\<close>, interpreted for each invariant below), what a
  market-trades frame emits, and how sequence numbers are accounted for.
\<close>

section \<open>Lines\<close>

text \<open>The lines of a text as \<open>std::getline\<close> would deliver them: the last need not be ended.\<close>

function lines_of :: "string \<Rightarrow> string list" where
  "lines_of s =
     (if s = [] then []
      else let line = takeWhile (\<lambda>c. c \<noteq> newline) s
           in line # lines_of (drop (Suc (length line)) s))"
  by pat_completeness auto

termination
  by (relation "measure length") auto

declare lines_of.simps [simp del]

definition line_fits :: "string \<Rightarrow> bool" where
  "line_fits line \<longleftrightarrow> length line \<le> maximum_record_size"

lemma read_line_loop_spec:
  assumes "length line \<le> maximum_record_size" and "line \<noteq> [] \<or> cs \<noteq> []"
  shows "read_line_loop line cs =
    (let more = takeWhile (\<lambda>c. c \<noteq> newline) cs
     in if line_fits (line @ more) then Inr (Some (line @ more, drop (Suc (length more)) cs))
        else Inl Record_too_large)"
  using assms
  by (induction line cs rule: read_line_loop.induct) (auto simp: Let_def line_fits_def)

lemma read_bounded_line_spec:
  "stream \<noteq> [] \<Longrightarrow> read_bounded_line stream =
    (let line = takeWhile (\<lambda>c. c \<noteq> newline) stream
     in if line_fits line then Inr (Some (line, drop (Suc (length line)) stream))
        else Inl Record_too_large)"
  unfolding read_bounded_line_def by (subst read_line_loop_spec) (simp_all add: Let_def)

lemma read_loop_spec:
  "read_loop J stream r =
    (if list_all line_fits (lines_of stream) then None else Some Record_too_large,
     fold (process_line J) (takeWhile line_fits (lines_of stream)) r)"
proof (induction stream arbitrary: r rule: lines_of.induct)
  case (1 s)
  show ?case
  proof (cases "s = []")
    case True
    have "read_loop J [] r = (None, r)"
      by (subst read_loop.simps) (simp add: read_bounded_line_def)
    moreover have "lines_of [] = []" by (subst lines_of.simps) simp
    ultimately show ?thesis using True by simp
  next
    case False
    let ?line = "takeWhile (\<lambda>c. c \<noteq> newline) s"
    have lines: "lines_of s = ?line # lines_of (drop (Suc (length ?line)) s)"
      using False by (subst lines_of.simps) (simp add: Let_def)
    show ?thesis
      unfolding lines using read_bounded_line_spec [OF False] 1 [OF False refl]
      by (subst read_loop.simps) (simp add: Let_def)
  qed
qed

section \<open>Invariants of the reader\<close>

text \<open>
  A predicate kept by the five ways in which the reader changes its state is kept by the whole
  loop. Frames are counted, tracked and emitted only after the metadata record.
\<close>

locale reader_invariant =
  fixes J :: "'j json_lib" and I :: "reader \<Rightarrow> bool"
  assumes start: "I new_reader"
    and metadata: "I r \<Longrightarrow> I (r\<lparr>metadata_seen := True\<rparr>)"
    and error: "I r \<Longrightarrow> I (count_error r)"
    and frame: "metadata_seen r \<Longrightarrow> I r \<Longrightarrow> I (count_frame r)"
    and track: "metadata_seen r \<Longrightarrow> I r \<Longrightarrow> track_sequence c s r = Some r' \<Longrightarrow> I r'"
    and emit: "metadata_seen r \<Longrightarrow> I r \<Longrightarrow> parse_trade J t = Some v \<Longrightarrow>
      I (r\<lparr>emitted := emitted r @ [v]\<rparr>)"
begin

lemma emit_trades_keeps:
  "I r \<Longrightarrow> metadata_seen r \<Longrightarrow>
   I (snd (emit_trades J ts r)) \<and> metadata_seen (snd (emit_trades J ts r))"
proof (induction ts arbitrary: r)
  case (Cons t ts)
  show ?case
  proof (cases "parse_trade J t")
    case (Some v)
    then show ?thesis using Cons.prems emit [OF _ _ Some] by (simp add: Cons.IH)
  qed (simp add: Cons.prems)
qed simp

lemma emit_events_keeps:
  "I r \<Longrightarrow> metadata_seen r \<Longrightarrow> I (snd (emit_events J es r))"
proof (induction es arbitrary: r)
  case (Cons e es)
  show ?case
  proof (cases "json_at J e ''trades''")
    case (Some trades)
    obtain out r' where r': "emit_trades J (json_elements J trades) r = (out, r')" by fastforce
    then have "I r'" "metadata_seen r'"
      using emit_trades_keeps [OF Cons.prems, of "json_elements J trades"] by simp_all
    then show ?thesis by (cases out) (simp_all add: Some r' Cons.IH)
  qed (simp add: Cons.prems)
qed simp

lemma process_frame_keeps:
  assumes "I r" and seen: "metadata_seen r"
  shows "I (snd (process_frame J rec r))"
proof -
  have r: "I (count_frame r)" "metadata_seen (count_frame r)"
    using frame assms by (simp_all add: count_frame_def)
  have tracked: "metadata_seen r'" if "track_sequence c s (count_frame r) = Some r'" for c s r'
    using that r(2) by (auto simp: track_sequence_def Let_def split: option.splits if_splits)
  show ?thesis
    unfolding process_frame_def
    using r track [OF r(2,1)] tracked emit_events_keeps
    by (auto simp: Let_def split: option.split)
qed

lemma process_record_keeps: "I r \<Longrightarrow> I (snd (process_record J line r))"
  using process_frame_keeps metadata
  by (auto simp: process_record_def process_metadata_def split: option.split)

lemma process_line_keeps:
  assumes "I r"
  shows "I (process_line J line r)"
proof -
  obtain out r' where r': "process_record J line r = (out, r')" by fastforce
  then have "I r'" using process_record_keeps [OF assms, of line] by simp
  then show ?thesis using assms by (cases out) (simp_all add: process_line_def r' error)
qed

lemma fold_keeps: "I r \<Longrightarrow> I (fold (process_line J) ls r)"
  by (induction ls arbitrary: r) (simp_all add: process_line_keeps)

lemma read_loop_keeps: "I (snd (read_loop J stream new_reader))"
  by (simp add: read_loop_spec fold_keeps start)

end

text \<open>Every trade handed to the consumer is well formed.\<close>

lemma assign_field_ok: "assign_field s t = Some t' \<Longrightarrow> text_ok n t \<Longrightarrow> text_ok n t' \<and> view t' = s"
  unfolding assign_field_def
  by (cases "length s \<le> n")
    (auto simp: assign_too_long not_le split: prod.splits if_splits dest: assign_fits)

lemma parse_trade_ok: "parse_trade J t = Some v \<Longrightarrow> trade_ok v"
  unfolding parse_trade_def trade_ok_def
  by (auto simp: bind_eq_Some_conv new_trade_def dest: assign_field_ok [where n = 24]
      assign_field_ok [where n = 20] parse_decimal_in_i64)

interpretation trades_ok: reader_invariant J "\<lambda>r. list_all trade_ok (emitted r)" for J
  by unfold_locales
    (auto simp: new_reader_def count_error_def count_frame_def track_sequence_def Let_def
      dest: parse_trade_ok split: option.splits if_splits)

text \<open>The streams tracked have distinct connection identifiers and are at most the limit.\<close>

definition streams_ok :: "reader \<Rightarrow> bool" where
  "streams_ok r \<longleftrightarrow> distinct (map fst (last_sequences r)) \<and>
     length (last_sequences r) \<le> maximum_sequence_streams"

lemma length_update_known:
  "map_of m k = Some v \<Longrightarrow> length (AList.update k w m) = length m"
  by (induction m) (auto split: if_splits)

lemma streams_ok_track:
  assumes "streams_ok r" and "track_sequence c s r = Some r'"
  shows "streams_ok r'"
  using assms
  by (auto simp: streams_ok_def track_sequence_def Let_def AList.distinct_update
      length_update_known map_of_eq_None_iff split: option.splits if_splits)

interpretation streams: reader_invariant J streams_ok for J
  by unfold_locales
    (auto simp: streams_ok_def new_reader_def count_error_def count_frame_def
      intro: streams_ok_track [unfolded streams_ok_def, THEN conjunct1]
        streams_ok_track [unfolded streams_ok_def, THEN conjunct2])

text \<open>Before the metadata record only errors are counted.\<close>

definition untouched :: "reader \<Rightarrow> bool" where
  "untouched r \<longleftrightarrow> metadata_seen r \<or>
     emitted r = [] \<and> last_sequences r = [] \<and>
     frames (metrics r) = 0 \<and> sequence_gaps (metrics r) = 0 \<and> out_of_order (metrics r) = 0"

interpretation before_metadata: reader_invariant J untouched for J
  by unfold_locales
    (auto simp: untouched_def new_reader_def count_error_def count_frame_def no_metrics_def
      track_sequence_def Let_def split: option.splits if_splits)

section \<open>What a market-trades frame emits\<close>

text \<open>
  The parsed trades of the events in order; an event without \<open>trades\<close> stands for one entry that
  does not parse.
\<close>

definition event_entries :: "'j json_lib \<Rightarrow> 'j \<Rightarrow> trade option list" where
  "event_entries J e =
     (case json_at J e ''trades'' of
        None \<Rightarrow> [None]
      | Some trades \<Rightarrow> map (parse_trade J) (json_elements J trades))"

definition entries :: "'j json_lib \<Rightarrow> 'j list \<Rightarrow> trade option list" where
  "entries J es = concat (map (event_entries J) es)"

definition emit_entries :: "trade option list \<Rightarrow> reader \<Rightarrow> outcome \<times> reader" where
  "emit_entries os r = (if None \<in> set os then Thrown else Completed,
     r\<lparr>emitted := emitted r @ map the (takeWhile (\<lambda>x. x \<noteq> None) os)\<rparr>)"

lemma emit_entries_simps:
  "emit_entries [] r = (Completed, r)"
  "emit_entries (None # os) r = (Thrown, r)"
  "emit_entries (Some v # os) r = emit_entries os (r\<lparr>emitted := emitted r @ [v]\<rparr>)"
  by (simp_all add: emit_entries_def)

lemma emit_entries_append:
  "emit_entries (os @ os') r =
     (case emit_entries os r of (Completed, r') \<Rightarrow> emit_entries os' r' | (Thrown, r') \<Rightarrow> (Thrown, r'))"
proof (induction os arbitrary: r)
  case (Cons x os)
  then show ?case by (cases x) (simp_all add: emit_entries_simps)
qed (simp add: emit_entries_simps)

lemma emit_trades_entries: "emit_trades J ts r = emit_entries (map (parse_trade J) ts) r"
  by (induction ts arbitrary: r) (auto simp: emit_entries_simps split: option.split)

lemma emit_events_entries: "emit_events J es r = emit_entries (entries J es) r"
proof (induction es arbitrary: r)
  case (Cons e es)
  show ?case
    by (auto simp: entries_def event_entries_def emit_entries_append emit_entries_simps
        emit_trades_entries Cons.IH [unfolded entries_def] split: option.split prod.split outcome.split)
qed (simp add: entries_def emit_entries_simps)

section \<open>Sequence accounting\<close>

primrec track_all :: "(u64 \<times> u64) list \<Rightarrow> reader \<Rightarrow> reader option" where
  "track_all [] r = Some r"
| "track_all (ob # obs) r = track_sequence (fst ob) (snd ob) r \<bind> track_all obs"

definition sequences_of :: "u64 \<Rightarrow> (u64 \<times> u64) list \<Rightarrow> u64 list" where
  "sequences_of c obs = map snd (filter (\<lambda>ob. fst ob = c) obs)"

definition span :: "(u64 \<times> u64) list \<Rightarrow> u64 \<times> u64 \<Rightarrow> u64" where
  "span obs stream = snd stream - hd (sequences_of (fst stream) obs) + 1"

definition highest :: "u64 list \<Rightarrow> u64 option" where
  "highest ss = (if ss = [] then None else Some (Max (set ss)))"

definition accounted :: "(u64 \<times> u64) list \<Rightarrow> reader \<Rightarrow> bool" where
  "accounted obs r \<longleftrightarrow> distinct (map fst (last_sequences r)) \<and>
     (\<forall>c. map_of (last_sequences r) c = highest (sequences_of c obs)) \<and>
     sequence_gaps (metrics r) + of_nat (length obs) =
       out_of_order (metrics r) + sum_list (map (span obs) (last_sequences r))"

lemma sequences_of_snoc:
  "sequences_of c (obs @ [(c', s)]) = sequences_of c obs @ (if c = c' then [s] else [])"
  by (simp add: sequences_of_def)

lemma highest_snoc:
  "highest (ss @ [s]) = Some (case highest ss of None \<Rightarrow> s | Some m \<Rightarrow> max m s)"
  by (simp add: highest_def max.commute)

lemma span_snoc:
  "sequences_of (fst st) obs \<noteq> [] \<Longrightarrow> span (obs @ [ob]) st = span obs st"
  by (cases ob) (simp add: span_def sequences_of_snoc)

lemma sum_list_update:
  fixes f :: "'a \<times> 'b \<Rightarrow> 'c :: ab_group_add"
  shows "map_of m k = Some v \<Longrightarrow> distinct (map fst m) \<Longrightarrow>
   sum_list (map f (AList.update k w m)) = sum_list (map f m) + f (k, w) - f (k, v)"
proof (induction m)
  case (Cons x m)
  then show ?case by (cases x) (auto split: if_splits)
qed simp

lemma gap_step:
  assumes "(a :: u64) < b"
  shows "(if 1 < b - a then g + (b - a - 1) else g) = g + (b - a - 1)"
proof (cases "1 < b - a")
  case False
  then have "unat (b - a) \<le> 1" by (simp add: not_less word_nat)
  moreover have "unat (b - a) \<noteq> 0" using assms by (auto simp: unat_eq_zero)
  ultimately have "unat (b - a) = 1" by simp
  then have "b - a = 1" by (simp add: u64_eq_nat)
  then show ?thesis by simp
qed simp

lemma accounted_track:
  assumes acc: "accounted obs r" and t: "track_sequence c s r = Some r'"
  shows "accounted (obs @ [(c, s)]) r'"
proof -
  let ?m = "last_sequences r" and ?obs = "obs @ [(c, s)]"
  have d: "distinct (map fst ?m)" and high: "\<And>k. map_of ?m k = highest (sequences_of k obs)"
    and sum: "sequence_gaps (metrics r) + of_nat (length obs) =
      out_of_order (metrics r) + sum_list (map (span obs) ?m)"
    using acc by (auto simp: accounted_def)
  have known: "sequences_of (fst st) obs \<noteq> []" if "st \<in> set ?m" for st
  proof
    assume "sequences_of (fst st) obs = []"
    then have "map_of ?m (fst st) = None" by (simp add: high highest_def)
    then show False using that by (auto simp: map_of_eq_None_iff)
  qed
  have spans: "map (span ?obs) ?m = map (span obs) ?m"
    using known by (auto simp: span_snoc)
  show ?thesis
  proof (cases "map_of ?m c")
    case None
    then have new: "sequences_of c obs = []" using high [of c] by (simp add: highest_def split: if_splits)
    have r': "r' = r\<lparr>last_sequences := (c, s) # ?m\<rparr>"
      using t None by (simp add: track_sequence_def split: if_splits)
    have "span ?obs (c, s) = 1" by (simp add: span_def sequences_of_snoc new)
    moreover have "c \<notin> fst ` set ?m" using None by (simp add: map_of_eq_None_iff)
    ultimately show ?thesis
      using d high sum new
      by (simp add: accounted_def r' spans sequences_of_snoc highest_snoc highest_def algebra_simps)
  next
    case (Some previous)
    have new: "sequences_of c obs \<noteq> []" using high [of c] Some by (auto simp: highest_def)
    have after: "map_of (last_sequences r') k = highest (sequences_of k ?obs)" for k
      using t Some high [of k] high [of c]
      by (auto simp: track_sequence_def Let_def sequences_of_snoc highest_snoc AList.update_conv
          max_def split: if_splits)
    have "distinct (map fst (last_sequences r'))"
      using t Some d by (auto simp: track_sequence_def Let_def AList.distinct_update)
    moreover have "sequence_gaps (metrics r') + of_nat (length ?obs) =
        out_of_order (metrics r') + sum_list (map (span ?obs) (last_sequences r'))"
    proof (cases "previous < s")
      case True
      have gaps: "metrics r' = (metrics r)\<lparr>sequence_gaps := sequence_gaps (metrics r) + (s - previous - 1)\<rparr>"
        "last_sequences r' = AList.update c s ?m"
        using t Some True gap_step [OF True] by (auto simp: track_sequence_def Let_def split: if_splits)
      have "sum_list (map (span ?obs) (AList.update c s ?m)) =
          sum_list (map (span obs) ?m) + (s - previous)"
        unfolding sum_list_update [OF Some d] spans
        by (simp add: span_def)
      then show ?thesis using sum unfolding gaps by (simp add: algebra_simps)
    next
      case False
      then have "metrics r' = (metrics r)\<lparr>out_of_order := out_of_order (metrics r) + 1\<rparr>"
        "last_sequences r' = ?m"
        using t Some by (auto simp: track_sequence_def Let_def)
      then show ?thesis using sum by (simp add: spans algebra_simps)
    qed
    ultimately show ?thesis using after by (simp add: accounted_def)
  qed
qed

section \<open>Counting\<close>

lemma emit_events_counts:
  "metrics (snd (emit_events J es r)) = metrics r"
  "metadata_seen (snd (emit_events J es r)) = metadata_seen r"
  by (simp_all add: emit_events_entries emit_entries_def)

lemma track_counts:
  "track_sequence c s r = Some r' \<Longrightarrow> frames (metrics r') = frames (metrics r) \<and>
     parse_errors (metrics r') = parse_errors (metrics r) \<and> metadata_seen r' = metadata_seen r"
  by (auto simp: track_sequence_def Let_def split: option.splits if_splits)

lemma process_frame_counts:
  fixes J :: "'j json_lib" and r :: reader
  defines "n \<equiv> frames (metrics r) + 1"
  shows "frames (metrics (snd (process_frame J rec r))) = n \<and>
     parse_errors (metrics (snd (process_frame J rec r))) = parse_errors (metrics r) \<and>
     metadata_seen (snd (process_frame J rec r)) = metadata_seen r"
proof -
  have r: "frames (metrics (count_frame r)) = n"
    "parse_errors (metrics (count_frame r)) = parse_errors (metrics r)"
    "metadata_seen (count_frame r) = metadata_seen r"
    by (simp_all add: count_frame_def n_def)
  show ?thesis
    unfolding process_frame_def Let_def
    by (auto simp: r emit_events_counts split: option.split dest!: track_counts)
qed

text \<open>A non-empty line is the metadata record, or counts as a frame, as an error, or as both.\<close>

lemma process_line_counts:
  fixes J :: "'j json_lib" and r :: reader
  assumes "line \<noteq> []"
  defines "r' \<equiv> process_line J line r"
  shows "frames (metrics r') = frames (metrics r) \<and> parse_errors (metrics r') = parse_errors (metrics r) \<and>
       \<not> metadata_seen r \<and> metadata_seen r' \<or>
     metadata_seen r' = metadata_seen r \<and>
       (frames (metrics r') = frames (metrics r) + 1 \<and> parse_errors (metrics r') = parse_errors (metrics r) \<or>
        frames (metrics r') = frames (metrics r) + 1 \<and> parse_errors (metrics r') = parse_errors (metrics r) + 1 \<or>
        frames (metrics r') = frames (metrics r) \<and> parse_errors (metrics r') = parse_errors (metrics r) + 1)"
proof -
  have frame: "frames (metrics x) = frames (metrics r) + 1 \<and>
      parse_errors (metrics x) = parse_errors (metrics r) \<and> metadata_seen x = metadata_seen r"
    if "process_frame J rec r = (out, x)" for rec out x
    using process_frame_counts [of J rec r] that by simp
  show ?thesis
    unfolding r'_def process_line_def process_record_def process_metadata_def
    using assms(1)
    by (auto simp: count_error_def split: option.split prod.split outcome.split dest!: frame)
qed

definition nonempty_lines :: "string list \<Rightarrow> nat" where
  "nonempty_lines ls = length (filter (\<lambda>l. l \<noteq> []) ls)"

lemma fold_counts:
  assumes "nonempty_lines ls < 2 ^ 64"
  shows "let r = fold (process_line (J :: 'j json_lib)) ls new_reader; f = unat (frames (metrics r));
             e = unat (parse_errors (metrics r))
         in f \<le> nonempty_lines ls \<and> e \<le> nonempty_lines ls \<and>
            nonempty_lines ls \<le> f + e + (if metadata_seen r then 1 else 0)"
  using assms
proof (induction ls rule: rev_induct)
  case Nil
  show ?case by (simp add: nonempty_lines_def new_reader_def no_metrics_def)
next
  case (snoc line ls)
  let ?r = "fold (process_line J) ls new_reader"
  show ?case
  proof (cases "line = []")
    case True
    then show ?thesis using snoc by (simp add: nonempty_lines_def process_line_def)
  next
    case False
    have n: "nonempty_lines (ls @ [line]) = nonempty_lines ls + 1" using False by (simp add: nonempty_lines_def)
    have IH: "unat (frames (metrics ?r)) \<le> nonempty_lines ls" "unat (parse_errors (metrics ?r)) \<le> nonempty_lines ls"
      "nonempty_lines ls \<le> unat (frames (metrics ?r)) + unat (parse_errors (metrics ?r)) +
        (if metadata_seen ?r then 1 else 0)"
      using snoc n by (simp_all add: Let_def)
    then have succ: "unat (frames (metrics ?r) + 1) = unat (frames (metrics ?r)) + 1"
      "unat (parse_errors (metrics ?r) + 1) = unat (parse_errors (metrics ?r)) + 1"
      using snoc.prems n by (simp_all add: unat_succ_u64)
    show ?thesis
      using process_line_counts [OF False, of J ?r] IH
      unfolding n fold_append comp_def fold_simps Let_def
      by (elim disjE conjE) (auto simp: succ)
  qed
qed

section \<open>Properties\<close>

text \<open>
  C19. Refinement of the stream loop: reading a file processes its lines in order up to the first
  one longer than the record limit; the result is the size error, the missing-metadata error or
  the metrics after all lines, and the consumer has received the trades emitted until then.
\<close>

theorem read_capture_reads_lines:
  "read_capture J (Some stream) =
    (let ls = lines_of stream;
         r = fold (process_line J) (takeWhile line_fits ls) new_reader
     in (if \<not> list_all line_fits ls then Inl Record_too_large
         else if \<not> metadata_seen r then Inl No_metadata
         else Inr (metrics r), emitted r))"
  by (simp add: read_capture_def read_loop_spec Let_def)

text \<open>
  C21. Safety: whatever the file and the JSON library, every trade handed to the consumer is well
  formed (identifiers within their buffers, price and size in the signed 64-bit range), and at
  every end of the loop at most 4096 distinct streams are tracked.
\<close>

theorem read_capture_safe:
  "list_all trade_ok (snd (read_capture J file)) \<and>
   streams_ok (snd (read_loop J stream new_reader))"
proof (cases "file")
  case (Some content)
  obtain e r where "read_loop J content new_reader = (e, r)" by fastforce
  then show ?thesis
    using trades_ok.read_loop_keeps [of J content] streams.read_loop_keeps [of J stream]
    by (cases e) (simp_all add: read_capture_def Some)
qed (simp add: read_capture_def streams.read_loop_keeps)

text \<open>
  Metadata first: after any lines of which none was accepted as the metadata record, nothing
  has been handed to the consumer, no frame was counted and no stream is tracked; a capture that
  ends so is the missing-metadata error with no trades.
\<close>

theorem read_capture_metadata_first:
  assumes "\<not> metadata_seen (fold (process_line J) ls new_reader)"
  shows "let r = fold (process_line J) ls new_reader
         in emitted r = [] \<and> frames (metrics r) = 0 \<and> last_sequences r = []"
  using before_metadata.fold_keeps [OF before_metadata.start, of J ls] assms
  by (simp add: untouched_def Let_def)

theorem read_capture_metadata_first_witness:
  "emitted (fold (process_line json_model) [''x'', []] new_reader) = []"
proof -
  have "\<not> metadata_seen (fold (process_line json_model) [''x'', []] new_reader)" by code_simp
  from read_capture_metadata_first [OF this] show ?thesis by (simp add: Let_def)
qed

text \<open>
  C22. A market-trades frame emits exactly the trades before its first invalid one: the frame
  throws if and only if some entry of its events does not parse, and the trades ahead of that
  entry have been handed to the consumer in order.
\<close>

theorem emit_events_until_invalid:
  "emit_events J es r =
    (if None \<in> set (entries J es) then Thrown else Completed,
     r\<lparr>emitted := emitted r @ map the (takeWhile (\<lambda>x. x \<noteq> None) (entries J es))\<rparr>)"
  unfolding emit_events_entries emit_entries_def ..

text \<open>
  C20. Sequence accounting: after any observations (connection, sequence number) that were all
  tracked, each connection has its highest sequence number, and the gap and out-of-order counters
  account for every observation: gaps plus observations is the out-of-order count plus the sum
  over the connections of highest minus first plus one, in 64-bit arithmetic.
\<close>

theorem sequence_accounting:
  assumes "track_all obs new_reader = Some r"
  shows "accounted obs r"
proof -
  have "track_all obs r = Some r' \<Longrightarrow> accounted seen r \<Longrightarrow> accounted (seen @ obs) r'" for seen r r'
  proof (induction obs arbitrary: seen r)
    case (Cons ob obs)
    then obtain r1 where r1: "track_sequence (fst ob) (snd ob) r = Some r1" "track_all obs r1 = Some r'"
      by (auto simp: bind_eq_Some_conv)
    from accounted_track [OF Cons.prems(2) r1(1)] have "accounted (seen @ [ob]) r1" by simp
    from Cons.IH [OF r1(2) this] show ?case by simp
  qed simp
  moreover have "accounted [] new_reader"
    by (simp add: accounted_def new_reader_def no_metrics_def highest_def sequences_of_def)
  ultimately show ?thesis using assms by fastforce
qed

theorem sequence_accounting_witness:
  "\<exists>r. track_all [(1, 5), (2, 9), (1, 9), (1, 7), (2, 9)] new_reader = Some r \<and>
     map_of (last_sequences r) 1 = Some 9 \<and> sequence_gaps (metrics r) = 3 \<and>
     out_of_order (metrics r) = 2 \<and> accounted [(1, 5), (2, 9), (1, 9), (1, 7), (2, 9)] r"
proof -
  let ?obs = "[(1, 5), (2, 9), (1, 9), (1, 7), (2, 9)] :: (u64 \<times> u64) list"
  let ?r = "\<lparr>metrics = no_metrics\<lparr>sequence_gaps := 3, out_of_order := 2\<rparr>,
    last_sequences = [(2, 9), (1, 9)], metadata_seen = False, emitted = []\<rparr>"
  have run: "track_all ?obs new_reader = Some ?r"
    by (simp add: track_sequence_def new_reader_def maximum_sequence_streams_def Let_def no_metrics_def)
  then show ?thesis using sequence_accounting [OF run] by (simp add: no_metrics_def)
qed

text \<open>
  Counting: no line is ignored. Every non-empty line but the one metadata record counts as a
  frame or as a parse error (or both), and neither counter exceeds the number of such lines.
\<close>

theorem capture_counts_lines:
  assumes "nonempty_lines ls < 2 ^ 64"
  shows "let r = fold (process_line J) ls new_reader; n = nonempty_lines ls;
             f = unat (frames (metrics r)); e = unat (parse_errors (metrics r))
         in f \<le> n \<and> e \<le> n \<and> n \<le> f + e + (if metadata_seen r then 1 else 0)"
  using fold_counts [OF assms, of J] by (simp only: Let_def)

theorem capture_counts_lines_witness:
  "unat (parse_errors (metrics (fold (process_line json_model) [''x'', [], ''[]''] new_reader))) = 2"
proof -
  let ?r = "fold (process_line json_model) [''x'', [], ''[]''] new_reader"
  have "\<not> metadata_seen ?r" "frames (metrics ?r) = 0" by code_simp+
  with capture_counts_lines [of "[''x'', [], ''[]'']" json_model] show ?thesis
    by (simp add: Let_def nonempty_lines_def)
qed

end
