(* ===== verification/Replay.thy ===== *)
theory Replay
  imports Pipeline Capture
begin

text \<open>
  Replay and its report (\<open>src/core.cpp\<close>, \<open>model.hpp\<close>): \<open>replay_with\<close> couples the reader with a
  pipeline, \<open>replay\<close> chooses the engine, \<open>report_value\<close>, \<open>report_json\<close> and \<open>comparison_json\<close>
  print reports and \<open>reports_comparable\<close> is the gate between two of them. The interleaving of the
  two threads and the two clock readings are arguments; a run whose interleaving ends before the
  join has no result (\<open>None\<close>). The queue of the Bengal engine is third-party, so its operations
  are arguments with the laws of \<open>trade_queue\<close>.
\<close>

section \<open>replay\_with and replay\<close>

text \<open>
  If \<open>read_capture\<close> throws, the trades emitted before are in the pipeline and its destructor
  calls \<open>finish\<close>, so the join comes first in either case.
\<close>

definition replay_with :: "(trade \<Rightarrow> 'q \<Rightarrow> bool \<times> 'q) \<Rightarrow> ('q \<Rightarrow> trade option \<times> 'q) \<Rightarrow> 'q
    \<Rightarrow> string \<Rightarrow> 'j json_lib \<Rightarrow> string option \<Rightarrow> turn list \<Rightarrow> u64 \<Rightarrow> u64
    \<Rightarrow> (capture_error + replay_report) option" where
  "replay_with push pop q engine_name J file turns start stop =
     (case read_capture J file of
        (result, ts) \<Rightarrow>
          let p = run_turns push pop turns (new_pipeline q ts)
          in if producer p \<noteq> Joined then None
             else case result of
                    Inl e \<Rightarrow> Some (Inl e)
                  | Inr input_metrics \<Rightarrow>
                      Some (Inr (report engine_name input_metrics (stop - start) p)))"

datatype pipeline_engine = bengal | standard

definition replay :: "(trade \<Rightarrow> 'q \<Rightarrow> bool \<times> 'q) \<Rightarrow> ('q \<Rightarrow> trade option \<times> 'q) \<Rightarrow> 'q
    \<Rightarrow> 'j json_lib \<Rightarrow> string option \<Rightarrow> pipeline_engine \<Rightarrow> turn list \<Rightarrow> u64 \<Rightarrow> u64
    \<Rightarrow> (capture_error + replay_report) option" where
  "replay bengal_push bengal_pop bengal_empty J file which turns start stop =
     (case which of
        bengal \<Rightarrow>
          replay_with bengal_push bengal_pop bengal_empty ''bengal'' J file turns start stop
      | standard \<Rightarrow>
          replay_with try_push try_pop (empty_ring queue_capacity) ''standard'' J file turns start stop)"

section \<open>Reports\<close>

definition reports_comparable :: "replay_report \<Rightarrow> replay_report \<Rightarrow> bool" where
  "reports_comparable b s \<longleftrightarrow>
     frames (input b) = frames (input s) \<and> parse_errors (input b) = 0 \<and>
     parse_errors (input s) = 0 \<and> events b = events s \<and> checksum b = checksum s \<and>
     dropped b = 0 \<and> dropped s = 0 \<and>
     samples (stage_latency b) = events b \<and> samples (stage_latency s) = events s"

definition report_value :: "'j json_lib \<Rightarrow> string \<Rightarrow> replay_report \<Rightarrow> 'j" where
  "report_value J version r =
     json_object J
      [(''schema_version'', json_number J 1),
       (''bengal_version'', json_string J version),
       (''engine'', json_string J (engine r)),
       (''input'', json_object J
         [(''frames'', json_number J (frames (input r))),
          (''parse_errors'', json_number J (parse_errors (input r))),
          (''sequence_gaps'', json_number J (sequence_gaps (input r))),
          (''out_of_order'', json_number J (out_of_order (input r)))]),
       (''pipeline'', json_object J
         [(''events'', json_number J (events r)),
          (''dropped'', json_number J (dropped r)),
          (''backpressure'', json_number J (backpressure r)),
          (''checksum'', json_number J (checksum r)),
          (''elapsed_ns'', json_number J (elapsed_ns r)),
          (''latency_ns'', json_object J
            [(''samples'', json_number J (samples (stage_latency r))),
             (''min'', json_number J (minimum_ns (stage_latency r))),
             (''p50'', json_number J (p50_ns (stage_latency r))),
             (''p95'', json_number J (p95_ns (stage_latency r))),
             (''p99'', json_number J (p99_ns (stage_latency r))),
             (''max'', json_number J (maximum_ns (stage_latency r)))])])]"

definition report_json :: "'j json_lib \<Rightarrow> string \<Rightarrow> replay_report \<Rightarrow> string option" where
  "report_json J version r = json_dump_indented J 2 (report_value J version r)"

definition comparison_value :: "'j json_lib \<Rightarrow> string \<Rightarrow> replay_report \<Rightarrow> replay_report \<Rightarrow> 'j" where
  "comparison_value J version b s =
     json_object J
      [(''schema_version'', json_number J 1),
       (''comparable'', json_bool J (reports_comparable b s)),
       (''bengal'', report_value J version b),
       (''standard'', report_value J version s)]"

definition comparison_json :: "'j json_lib \<Rightarrow> string \<Rightarrow> replay_report \<Rightarrow> replay_report
    \<Rightarrow> string option" where
  "comparison_json J version b s = json_dump_indented J 2 (comparison_value J version b s)"

section \<open>Facts\<close>

lemma replay_with_report:
  assumes "trade_queue push pop contents invar capacity q"
    and "replay_with push pop q engine_name J file turns start stop = Some (Inr r)"
  shows "\<exists>left. left \<le> length (snd (read_capture J file)) \<and>
    fst (read_capture J file) = Inr (input r) \<and> dropped r = 0 \<and>
    samples (stage_latency r) = events r \<and>
    events r = of_nat (length (snd (read_capture J file)) - left) \<and>
    checksum r = stream_checksum (take (length (snd (read_capture J file)) - left)
      (snd (read_capture J file)))"
proof -
  obtain res ts where ts: "read_capture J file = (res, ts)" by fastforce
  let ?p = "run_turns push pop turns (new_pipeline q ts)"
  obtain m where m: "producer ?p = Joined" "res = Inr m"
    "r = report engine_name m (stop - start) ?p"
    using assms(2) by (auto simp: replay_with_def ts Let_def split: if_splits sum.splits)
  have "accounts contents ts (length ts - length (contents (handoff ?p))) ?p"
    "length (contents (handoff ?p)) \<le> length ts"
    using trade_queue.joined_accounts [OF assms(1) reachable_run_turns [OF reachable.start] m(1)]
    by simp_all
  then show ?thesis
    by (intro exI [of _ "length (contents (handoff ?p))"])
      (auto simp: ts m report_def accounts_def represents_def summary_def)
qed

lemma replay_with_late_exit:
  assumes q: "trade_queue push pop contents invar capacity q"
    and read: "read_capture J file = (Inr m, ts)" and fits: "length ts \<le> capacity"
  shows "\<exists>r. replay_with push pop q engine_name J file (late_exit ts) start stop = Some (Inr r) \<and>
    input r = m \<and> events r = 0 \<and> dropped r = 0 \<and> checksum r = initial_checksum \<and>
    samples (stage_latency r) = 0"
proof -
  let ?p = "run_turns push pop (late_exit ts) (new_pipeline q ts)"
  note late = trade_queue.late_exit_loses [OF q fits]
  have "accounts contents ts 0 ?p"
    using trade_queue.joined_accounts(1) [OF q reachable_run_turns [OF reachable.start] late(1)] late(3)
    by simp
  then show ?thesis
    using late by (auto simp: replay_with_def read Let_def report_def accounts_def stream_checksum_def
        represents_def summary_def)
qed

text \<open>The value at a path of keys.\<close>

definition json_path :: "'j json_lib \<Rightarrow> string list \<Rightarrow> 'j \<Rightarrow> 'j option" where
  "json_path J ks v = fold (\<lambda>k ov. ov \<bind> (\<lambda>v. json_at J v k)) ks (Some v)"

lemma json_path_None: "fold (\<lambda>k ov. ov \<bind> (\<lambda>v. json_at J v k)) ks None = None"
  by (induction ks) simp_all

lemma json_path_Nil: "json_path J [] v = Some v"
  by (simp add: json_path_def)

lemma json_path_Cons:
  "json_path J (k # ks) v = json_at J v k \<bind> json_path J ks"
  by (cases "json_at J v k") (simp_all add: json_path_def json_path_None)

context json_library
begin

lemma json_path_object:
  "distinct (map fst kvs) \<Longrightarrow>
   json_path J (k # ks) (json_object J kvs) = map_of kvs k \<bind> json_path J ks"
  by (simp add: json_path_Cons at_object)

lemmas path_simps = json_path_object json_path_Nil get_u64 get_string

end

section \<open>Properties\<close>

text \<open>
  The printed report holds every number: the value printed by \<open>report_json\<close> reads back, at
  the documented paths, as the fields of the report.
\<close>

theorem report_value_fields:
  assumes "json_library J encodable"
  shows "json_path J [''engine''] (report_value J version r) = Some (json_string J (engine r)) \<and>
    map (\<lambda>k. json_path J [''input'', k] (report_value J version r) \<bind> json_get_u64 J)
       [''frames'', ''parse_errors'', ''sequence_gaps'', ''out_of_order''] =
     map Some [frames (input r), parse_errors (input r), sequence_gaps (input r), out_of_order (input r)] \<and>
    map (\<lambda>k. json_path J [''pipeline'', k] (report_value J version r) \<bind> json_get_u64 J)
       [''events'', ''dropped'', ''backpressure'', ''checksum'', ''elapsed_ns''] =
     map Some [events r, dropped r, backpressure r, checksum r, elapsed_ns r] \<and>
    map (\<lambda>k. json_path J [''pipeline'', ''latency_ns'', k] (report_value J version r) \<bind> json_get_u64 J)
       [''samples'', ''min'', ''p50'', ''p95'', ''p99'', ''max''] =
     map Some [samples (stage_latency r), minimum_ns (stage_latency r), p50_ns (stage_latency r),
       p95_ns (stage_latency r), p99_ns (stage_latency r), maximum_ns (stage_latency r)]"
  by (simp add: report_value_def json_library.path_simps [OF assms])

theorem report_value_fields_witness:
  "json_path json_model [''pipeline'', ''events'']
     (report_value json_model ''1.0'' (report ''standard'' no_metrics 0
       (new_pipeline (empty_ring queue_capacity) []))) \<bind> json_get_u64 json_model = Some 0"
  using report_value_fields [OF json_model.json_library_axioms, of "''1.0''"
      "report ''standard'' no_metrics 0 (new_pipeline (empty_ring queue_capacity) [])"]
  by (simp add: report_def new_pipeline_def)

end
