(* ===== verification/Fixture.thy ===== *)
theory Fixture
  imports Replay
begin

text \<open>
  The deterministic capture writer \<open>generate_fixture\<close> (\<open>src/core.cpp\<close>), and the round trip: the
  reader accepts every fixture without an error and emits the trades it was generated from, so
  that a replay of a fixture has a known report. What becomes of the written file is an argument;
  the text that it then holds is the result.
\<close>

section \<open>generate\_fixture\<close>

datatype fixture_error =
  Count_not_positive | Bad_product_id | Cannot_create | Not_encodable | Write_failed

definition fixture_time :: string where
  "fixture_time = ''2026-01-01T00:00:00.000000000Z''"

definition fixture_price :: "u64 \<Rightarrow> int" where
  "fixture_price index = 3000000000000 + sint ((index mod 10000) * 10000)"

definition fixture_amount :: "u64 \<Rightarrow> int" where
  "fixture_amount index = 100000 + sint ((index mod 100) * 1000)"

definition fixture_input_trade :: "'j json_lib \<Rightarrow> string \<Rightarrow> u64 \<Rightarrow> 'j" where
  "fixture_input_trade J product index =
     json_object J
      [(''trade_id'', json_string J (to_string (index + 1))),
       (''product_id'', json_string J product),
       (''price'', json_string J (format_decimal (fixture_price index))),
       (''size'', json_string J (format_decimal (fixture_amount index))),
       (''side'', json_string J (if index mod 2 = 0 then ''BUY'' else ''SELL'')),
       (''time'', json_string J fixture_time)]"

definition fixture_payload :: "'j json_lib \<Rightarrow> string \<Rightarrow> u64 \<Rightarrow> 'j" where
  "fixture_payload J product index =
     (let event = json_object J
           [(''type'', json_string J ''update''),
            (''trades'', json_array J [fixture_input_trade J product index])]
      in json_object J
          [(''channel'', json_string J ''market_trades''),
           (''timestamp'', json_string J fixture_time),
           (''sequence_num'', json_number J (index + 1)),
           (''events'', json_array J [event])])"

definition fixture_record :: "'j json_lib \<Rightarrow> u64 \<Rightarrow> string \<Rightarrow> 'j" where
  "fixture_record J index payload_text =
     json_object J
      [(''type'', json_string J ''frame''),
       (''received_ns'', json_number J (index * 1000)),
       (''connection_id'', json_number J 1),
       (''payload'', json_string J payload_text)]"

definition fixture_line :: "'j json_lib \<Rightarrow> string \<Rightarrow> u64 \<Rightarrow> string option" where
  "fixture_line J product index =
     json_dump J (fixture_payload J product index) \<bind>
     (\<lambda>payload_text. json_dump J (fixture_record J index payload_text))"

definition fixture_metadata :: "'j json_lib \<Rightarrow> string \<Rightarrow> 'j" where
  "fixture_metadata J product =
     json_object J
      [(''type'', json_string J ''metadata''),
       (''format'', json_string J ''bengal-market-capture''),
       (''version'', json_number J 1),
       (''source'', json_string J ''deterministic-generator''),
       (''product_ids'', json_array J [json_string J product])]"

text \<open>The loop: \<open>n\<close> iterations remain and \<open>index\<close> is the next one.\<close>

primrec fixture_loop :: "'j json_lib \<Rightarrow> string \<Rightarrow> nat \<Rightarrow> u64 \<Rightarrow> string option" where
  "fixture_loop J product 0 index = Some []"
| "fixture_loop J product (Suc n) index =
     (case fixture_line J product index of
        None \<Rightarrow> None
      | Some line \<Rightarrow>
          map_option (\<lambda>more. line @ [newline] @ more) (fixture_loop J product n (index + 1)))"

text \<open>
  The stream is opened before anything is printed and checked after the last record; its destructor
  closes the file without a check. The result is the text that the file then holds.
\<close>

definition generate_fixture :: "'j json_lib \<Rightarrow> text_outcome \<Rightarrow> u64 \<Rightarrow> string \<Rightarrow> fixture_error + string" where
  "generate_fixture J written event_count product =
     (if event_count = 0 then Inl Count_not_positive
      else if product = [] \<or> length product > 20 then Inl Bad_product_id
      else if written = Not_created then Inl Cannot_create
      else case json_dump J (fixture_metadata J product) of
             None \<Rightarrow> Inl Not_encodable
           | Some head \<Rightarrow>
               (case fixture_loop J product (unat event_count) 0 of
                  None \<Rightarrow> Inl Not_encodable
                | Some body \<Rightarrow>
                    (case written of
                       Text_stopped n \<Rightarrow> Inl Write_failed
                     | _ \<Rightarrow> Inr (stored_text written (head @ [newline] @ body)))))"

section \<open>The trades of a fixture\<close>

definition fixture_trade :: "string \<Rightarrow> u64 \<Rightarrow> trade" where
  "fixture_trade product index = new_trade
     \<lparr>trade_id := snd (assign (to_string (index + 1)) (empty_text 24)),
      product_id := snd (assign product (empty_text 20)),
      price := fixture_price index, trade_size := fixture_amount index,
      side := (if index mod 2 = 0 then buy else sell),
      source_time_ns := 1767225600000000000\<rparr>"

definition fixture_trades :: "string \<Rightarrow> nat \<Rightarrow> trade list" where
  "fixture_trades product n = map (\<lambda>i. fixture_trade product (of_nat i)) [0..<n]"

lemma fixture_time_parses: "parse_timestamp_ns fixture_time = Some 1767225600000000000"
  unfolding fixture_time_def by code_simp

lemma sint_small: "unat w < 2 ^ 63 \<Longrightarrow> sint (w :: u64) = int (unat w)"
proof -
  assume lt: "unat w < 2 ^ 63"
  have u: "uint w = int (unat w)" by (rule uint_nat)
  have "int (unat w) < int (2 ^ 63)" using lt by (simp only: of_nat_less_iff)
  then have "uint w < 2 ^ 63" unfolding u by (simp only: of_nat_power of_nat_numeral)
  from sint_eq_uint_u64 [OF this] show ?thesis unfolding u .
qed

lemma fixture_price_value:
  "fixture_price index = 3000000000000 + int (unat index mod 10000 * 10000)"
proof -
  have lt: "unat index mod 10000 < 10000" by simp
  have "unat ((index mod 10000) * 10000) = unat index mod 10000 * 10000"
    using lt by (subst unat_mult_u64) (simp_all add: unat_mod)
  then show ?thesis using lt sint_small [of "(index mod 10000) * 10000"]
    by (simp add: fixture_price_def)
qed

lemma fixture_amount_value:
  "fixture_amount index = 100000 + int (unat index mod 100 * 1000)"
proof -
  have lt: "unat index mod 100 < 100" by simp
  have "unat ((index mod 100) * 1000) = unat index mod 100 * 1000"
    using lt by (subst unat_mult_u64) (simp_all add: unat_mod)
  then show ?thesis using lt sint_small [of "(index mod 100) * 1000"]
    by (simp add: fixture_amount_def)
qed

lemma fixture_numbers_in_i64: "in_i64 (fixture_price index)" "in_i64 (fixture_amount index)"
proof -
  have "unat index mod 10000 < 10000" "unat index mod 100 < 100" by simp_all
  then have "int (unat index mod 10000 * 10000) < 100000000" "int (unat index mod 100 * 1000) < 100000"
    by linarith+
  then show "in_i64 (fixture_price index)" "in_i64 (fixture_amount index)"
    unfolding fixture_price_value fixture_amount_value in_i64_def by simp_all
qed

lemma to_string_short: "length (to_string w) \<le> 24"
proof -
  have "unat w < 10 ^ Suc 19" using unat_lt_u64 [of w] by simp
  from length_show_nat_le [OF this] show ?thesis by (simp add: to_string_def)
qed

lemma format_decimal_ascii:
  assumes "in_i64 v"
  shows "list_all is_ascii (format_decimal v)"
proof -
  obtain w f where "decimal_literal (format_decimal v) (v < 0) w f"
    using format_decimal_literal [OF assms] by blast
  then show ?thesis
    by cases (auto simp: list_all_iff is_ascii_digit is_ascii_def [of "CHR ''+''"]
        is_ascii_def [of "CHR ''-''"] is_ascii_def [of "CHR ''.''"])
qed

lemma side_of_fixture: "side_of (if b then ''BUY'' else ''SELL'') = Some (if b then buy else sell)"
  by (simp add: side_of_def)

lemma assign_field_fits:
  "length s \<le> n \<Longrightarrow> assign_field s (empty_text n) = Some (snd (assign s (empty_text n)))"
  using assign_fits(1) [of n "empty_text n" s] by (cases "assign s (empty_text n)") (simp add: assign_field_def)

section \<open>Reading a fixture\<close>

text \<open>The state of the reader after the metadata record and the first \<open>n\<close> frames.\<close>

definition fixture_reader :: "string \<Rightarrow> nat \<Rightarrow> reader" where
  "fixture_reader product n = \<lparr>metrics = no_metrics\<lparr>frames := of_nat n\<rparr>,
     last_sequences = (if n = 0 then [] else [(1, of_nat n)]), metadata_seen = True,
     emitted = fixture_trades product n\<rparr>"

lemma fixture_track:
  assumes "n + 1 < 2 ^ 64"
  shows "track_sequence 1 (of_nat n + 1) (count_frame (fixture_reader product n)) =
    Some ((fixture_reader product (n + 1))\<lparr>emitted := fixture_trades product n\<rparr>)"
proof (cases "n = 0")
  case True
  then show ?thesis
    by (simp add: track_sequence_def fixture_reader_def count_frame_def no_metrics_def
        maximum_sequence_streams_def)
next
  case False
  have u: "unat (of_nat n :: u64) = n" "unat (of_nat n + 1 :: u64) = n + 1"
    using assms by (simp_all add: unat_of_nat_u64 unat_succ_u64)
  then have less: "(of_nat n :: u64) < of_nat n + 1" unfolding word_nat by linarith
  then have "\<not> (of_nat n + 1 :: u64) \<le> of_nat n" by simp
  with less False show ?thesis
    by (simp add: track_sequence_def fixture_reader_def count_frame_def no_metrics_def Let_def add.commute)
qed

context json_library
begin

lemma fixture_parse_trade:
  assumes "length product \<le> 20"
  shows "parse_trade J (fixture_input_trade J product index) = Some (fixture_trade product index)"
  using assms unfolding parse_trade_def fixture_input_trade_def
  by (simp add: at_object get_string parse_format_decimal fixture_numbers_in_i64
      fixture_time_parses side_of_fixture assign_field_fits to_string_short fixture_trade_def
      new_trade_def)

lemma fixture_trade_encodable:
  "list_all is_ascii product \<Longrightarrow> encodable (fixture_input_trade J product index)"
  unfolding fixture_input_trade_def
  by (intro object_encodable)
    (auto intro!: string_encodable simp: format_decimal_ascii fixture_numbers_in_i64
      to_string_ascii fixture_time_def is_ascii_def)

lemma fixture_payload_encodable:
  "list_all is_ascii product \<Longrightarrow> encodable (fixture_payload J product index)"
  unfolding fixture_payload_def Let_def
  by (intro object_encodable)
    (auto intro!: string_encodable number_encodable array_encodable object_encodable
      fixture_trade_encodable simp: fixture_time_def is_ascii_def)

lemma fixture_record_encodable:
  "list_all is_ascii payload_text \<Longrightarrow> encodable (fixture_record J index payload_text)"
  unfolding fixture_record_def
  by (intro object_encodable) (auto intro!: string_encodable number_encodable simp: is_ascii_def)

lemma fixture_metadata_encodable:
  "list_all is_ascii product \<Longrightarrow> encodable (fixture_metadata J product)"
  unfolding fixture_metadata_def
  by (intro object_encodable)
    (auto intro!: string_encodable number_encodable array_encodable simp: is_ascii_def)

lemma fixture_line_dumps:
  assumes "list_all is_ascii product"
  obtains payload_text line where "json_parse J payload_text = Some (fixture_payload J product index)"
    and "fixture_line J product index = Some line"
    and "json_parse J line = Some (fixture_record J index payload_text)"
    and "line \<noteq> []" and "newline \<notin> set line"
proof -
  note enc = fixture_payload_encodable [OF assms, of index]
  obtain payload_text where t: "json_dump J (fixture_payload J product index) = Some payload_text"
    using dump_encodable [OF enc] ..
  note enc' = fixture_record_encodable [OF dump_ascii [OF enc t], of index]
  obtain line where l: "json_dump J (fixture_record J index payload_text) = Some line"
    using dump_encodable [OF enc'] ..
  have "fixture_line J product index = Some line" by (simp add: fixture_line_def t l)
  then show ?thesis
    using that parse_dump [OF enc t] parse_dump [OF enc' l] dump_line [OF enc' l] by blast
qed

lemma process_fixture_frame:
  assumes product: "length product \<le> 20"
    and parsed: "json_parse J payload_text = Some (fixture_payload J product (of_nat n))"
    and n: "n + 1 < 2 ^ 64"
  shows "process_frame J (fixture_record J (of_nat n) payload_text) (fixture_reader product n) =
    (Completed, fixture_reader product (n + 1))"
proof -
  have payload: "frame_payload J (fixture_record J (of_nat n) payload_text) =
      Some (1, fixture_payload J product (of_nat n), ''market_trades'')"
    by (simp add: frame_payload_def fixture_record_def at_object get_string get_u64 parsed
        fixture_payload_def Let_def)
  have seq: "json_contains J (fixture_payload J product (of_nat n)) ''sequence_num''"
    "json_at J (fixture_payload J product (of_nat n)) ''sequence_num'' \<bind> json_get_u64 J =
      Some (of_nat n + 1)"
    by (simp_all add: fixture_payload_def Let_def contains_object at_object get_u64)
  have events: "json_at J (fixture_payload J product (of_nat n)) ''events'' =
      Some (json_array J [json_object J [(''type'', json_string J ''update''),
        (''trades'', json_array J [fixture_input_trade J product (of_nat n)])]])"
    by (simp add: fixture_payload_def Let_def at_object)
  have "fixture_trades product (n + 1) = fixture_trades product n @ [fixture_trade product (of_nat n)]"
    by (simp add: fixture_trades_def)
  then show ?thesis
    unfolding process_frame_def Let_def payload
    by (simp add: seq fixture_track [OF n] events elements_array at_object
        fixture_parse_trade [OF product]) (simp add: fixture_reader_def)
qed

lemma process_fixture_line:
  assumes "list_all is_ascii product" and "length product \<le> 20" and "n + 1 < 2 ^ 64"
  obtains line where "fixture_line J product (of_nat n) = Some line" and "line \<noteq> []"
    and "newline \<notin> set line"
    and "process_line J line (fixture_reader product n) = fixture_reader product (n + 1)"
proof -
  obtain payload_text line where *: "json_parse J payload_text = Some (fixture_payload J product (of_nat n))"
    "fixture_line J product (of_nat n) = Some line"
    "json_parse J line = Some (fixture_record J (of_nat n) payload_text)" "line \<noteq> []" "newline \<notin> set line"
    by (rule fixture_line_dumps [OF assms(1)])
  have ty: "json_at J (fixture_record J (of_nat n) payload_text) ''type'' \<bind> json_get_string J = Some ''frame''"
    by (simp add: fixture_record_def at_object get_string)
  have "process_line J line (fixture_reader product n) = fixture_reader product (n + 1)"
    using process_fixture_frame [OF assms(2) *(1) assms(3)]
    by (simp add: process_line_def process_record_def * ty) (simp add: fixture_reader_def)
  then show ?thesis using that * by blast
qed

lemma process_fixture_metadata:
  assumes "list_all is_ascii product" and "product \<noteq> []" and "length product \<le> 20"
  obtains line where "json_dump J (fixture_metadata J product) = Some line" and "line \<noteq> []"
    and "newline \<notin> set line" and "process_line J line new_reader = fixture_reader product 0"
proof -
  note enc = fixture_metadata_encodable [OF assms(1)]
  obtain line where l: "json_dump J (fixture_metadata J product) = Some line"
    using dump_encodable [OF enc] ..
  note facts = dump_line [OF enc l] parse_dump [OF enc l]
  have "metadata_ok J (fixture_metadata J product)"
    using assms(2,3) by (simp add: metadata_ok_def fixture_metadata_def at_object eq_string eq_int
        get_string is_array elements_array product_id_ok_def)
  moreover have "json_at J (fixture_metadata J product) ''type'' \<bind> json_get_string J = Some ''metadata''"
    by (simp add: fixture_metadata_def at_object get_string)
  ultimately have "process_line J line new_reader = fixture_reader product 0"
    using facts by (simp add: process_line_def process_record_def process_metadata_def
        new_reader_def fixture_reader_def fixture_trades_def no_metrics_def)
  then show ?thesis using that l facts by blast
qed

end

lemma lines_of_line: "newline \<notin> set line \<Longrightarrow> lines_of (line @ newline # rest) = line # lines_of rest"
proof -
  assume "newline \<notin> set line"
  then have "takeWhile (\<lambda>c. c \<noteq> newline) (line @ newline # rest) = line"
    by (induction line) auto
  then show ?thesis by (subst lines_of.simps) (simp add: Let_def)
qed

lemma lines_of_Nil [simp]: "lines_of [] = []"
  by (subst lines_of.simps) simp

context json_library
begin

lemma process_fixture_loop:
  assumes "list_all is_ascii product" and "length product \<le> 20"
  shows "i + n < 2 ^ 64 \<Longrightarrow> \<exists>body. fixture_loop J product n (of_nat i) = Some body \<and>
    fold (process_line J) (lines_of body) (fixture_reader product i) = fixture_reader product (i + n)"
proof (induction n arbitrary: i)
  case (Suc n)
  have "i + 1 < 2 ^ 64" using Suc.prems by simp
  then obtain line where line: "fixture_line J product (of_nat i) = Some line" "line \<noteq> []"
    "newline \<notin> set line"
    "process_line J line (fixture_reader product i) = fixture_reader product (i + 1)"
    by (rule process_fixture_line [OF assms])
  obtain body where "fixture_loop J product n (of_nat (i + 1)) = Some body"
    "fold (process_line J) (lines_of body) (fixture_reader product (i + 1)) =
      fixture_reader product (i + 1 + n)"
    using Suc.IH [of "i + 1"] Suc.prems by fastforce
  then show ?case using line by (simp add: lines_of_line add.commute)
qed simp

lemma generate_fixture_reads:
  assumes "list_all is_ascii product" and "product \<noteq> []" and "length product \<le> 20"
    and "event_count \<noteq> 0"
  shows "\<exists>stream. generate_fixture J Text_stored event_count product = Inr stream \<and>
    fold (process_line J) (lines_of stream) new_reader = fixture_reader product (unat event_count)"
proof -
  obtain head where head: "json_dump J (fixture_metadata J product) = Some head"
    "head \<noteq> []" "newline \<notin> set head" "process_line J head new_reader = fixture_reader product 0"
    by (rule process_fixture_metadata [OF assms(1-3)])
  obtain body where "fixture_loop J product (unat event_count) 0 = Some body"
    "fold (process_line J) (lines_of body) (fixture_reader product 0) =
      fixture_reader product (unat event_count)"
    using process_fixture_loop [OF assms(1,3), of 0 "unat event_count"] unat_lt_u64 [of event_count]
    by auto
  then show ?thesis using assms head by (simp add: generate_fixture_def stored_text_def lines_of_line)
qed

end

context json_library
begin

lemma read_fixture:
  assumes "list_all is_ascii product" and "product \<noteq> []" and "length product \<le> 20"
    and "event_count \<noteq> 0"
    and "generate_fixture J Text_stored event_count product = Inr stream"
    and "list_all line_fits (lines_of stream)"
  shows "read_capture J (Some stream) =
    (Inr (no_metrics\<lparr>frames := event_count\<rparr>), fixture_trades product (unat event_count))"
proof -
  have all: "takeWhile line_fits (lines_of stream) = lines_of stream"
    by (rule takeWhile_all [OF assms(6)])
  have "fold (process_line J) (lines_of stream) new_reader = fixture_reader product (unat event_count)"
    using generate_fixture_reads [OF assms(1-4)] assms(5) by auto
  then show ?thesis
    using assms(6) by (simp add: read_capture_def read_loop_spec all fixture_reader_def)
qed

end

section \<open>Fixtures of the executable JSON library fit the record limit\<close>

lemma escape_length: "length (concat (map escape s)) \<le> 2 * length s"
  by (induction s) (auto simp: escape_def)

lemma format_decimal_length:
  assumes "in_i64 v"
  shows "length (format_decimal v) \<le> 30"
proof -
  obtain n where n: "n = nat \<bar>v\<bar>" by blast
  have "n div 10 ^ 8 < 10 ^ Suc 19" using assms by (auto simp: n in_i64_def)
  from length_show_nat_le [OF this] canonical_fraction_props(2) [of "n mod 10 ^ 8"]
  show ?thesis unfolding format_decimal_eq [OF assms] n [symmetric] by (cases "v < 0") auto
qed

lemma fixture_payload_length:
  assumes "length product \<le> 20"
  shows "length (jprint (fixture_payload json_model product index)) \<le> 1000"
  using escape_length [of product] escape_length [of "to_string (index + 1)"]
    escape_length [of "format_decimal (fixture_price index)"]
    escape_length [of "format_decimal (fixture_amount index)"]
    format_decimal_length [OF fixture_numbers_in_i64(1), of index]
    format_decimal_length [OF fixture_numbers_in_i64(2), of index]
    to_string_short [of "index + 1"] assms
  unfolding fixture_payload_def fixture_input_trade_def fixture_time_def Let_def
  by (simp add: json_model_def print_text_def escape_def newline_def)

lemma fixture_line_length:
  assumes "length product \<le> 20" and "fixture_line json_model product index = Some line"
  shows "line_fits line"
proof -
  let ?text = "jprint (fixture_payload json_model product index)"
  have line: "line = jprint (fixture_record json_model index ?text)"
    using assms(2) by (auto simp: fixture_line_def bind_eq_Some_conv json_model_def split: if_splits)
  have "length line \<le> 4000"
    using escape_length [of ?text] fixture_payload_length [OF assms(1), of index]
      to_string_short [of "index * 1000"] to_string_short [of 1]
    unfolding line fixture_record_def
    by (simp add: json_model_def print_text_def escape_def newline_def)
  then show ?thesis by (simp add: line_fits_def maximum_record_size_def)
qed

lemma fixture_metadata_length:
  assumes "length product \<le> 20"
  shows "line_fits (jprint (fixture_metadata json_model product))"
  using assms escape_length [of product] to_string_short [of 1]
  unfolding fixture_metadata_def line_fits_def maximum_record_size_def
  by (simp add: json_model_def print_text_def escape_def newline_def)

lemma model_fixture_fits:
  assumes "list_all is_ascii product" and "length product \<le> 20"
    and "generate_fixture json_model Text_stored event_count product = Inr stream"
  shows "list_all line_fits (lines_of stream)"
proof -
  have loop: "fixture_loop json_model product n index = Some body \<Longrightarrow> list_all line_fits (lines_of body)"
    for n index body
  proof (induction n arbitrary: index body)
    case (Suc n)
    then obtain line more where l: "fixture_line json_model product index = Some line"
      "fixture_loop json_model product n (index + 1) = Some more" "body = line @ newline # more"
      by (auto split: option.splits)
    moreover have "newline \<notin> set line"
      using json_model.fixture_line_dumps [OF assms(1), of index] l(1) by (metis option.inject)
    ultimately show ?case
      using Suc.IH fixture_line_length [OF assms(2) l(1)] by (simp add: lines_of_line)
  qed simp
  obtain head body where *: "json_dump json_model (fixture_metadata json_model product) = Some head"
    "fixture_loop json_model product (unat event_count) 0 = Some body" "stream = head @ newline # body"
    using assms(3) by (auto simp: generate_fixture_def stored_text_def split: if_splits option.splits)
  have head: "head = jprint (fixture_metadata json_model product)"
    using *(1) by (simp add: json_model_def split: if_splits)
  show ?thesis
    unfolding *(3) head using loop [OF *(2)] fixture_metadata_length [OF assms(2)] jprint_line(1)
    by (simp add: lines_of_line)
qed

text \<open>An example for the theorems on replay: a generated fixture and what is read from it.\<close>

lemma model_fixture_read:
  assumes "event_count \<noteq> 0"
  obtains stream where "generate_fixture json_model Text_stored event_count ''BTC-USD'' = Inr stream"
    and "read_capture json_model (Some stream) =
      (Inr (no_metrics\<lparr>frames := event_count\<rparr>), fixture_trades ''BTC-USD'' (unat event_count))"
proof -
  have ok: "list_all is_ascii ''BTC-USD''" "''BTC-USD'' \<noteq> []" "length ''BTC-USD'' \<le> 20"
    by (simp_all add: is_ascii_def)
  obtain stream where "generate_fixture json_model Text_stored event_count ''BTC-USD'' = Inr stream"
    using json_model.generate_fixture_reads [OF ok assms] by blast
  then show ?thesis
    using that json_model.read_fixture [OF ok assms] model_fixture_fits [OF ok(1,3)] by blast
qed

section \<open>Properties\<close>

text \<open>
  C16. Round trip: for an ASCII product identifier of 1 to 20 characters and a positive count, with a
  JSON library that has the documented laws, a fixture is generated, and if it is stored, reading
  it (its lines being within the record limit) counts exactly \<open>event_count\<close> frames, no parse error, no gap and
  nothing out of order, and hands over the trades it was generated from in order.
\<close>

theorem fixture_roundtrip:
  assumes "json_library J encodable" and "list_all is_ascii product" and "product \<noteq> []"
    and "length product \<le> 20" and "event_count \<noteq> 0"
  shows "\<exists>stream. generate_fixture J Text_stored event_count product = Inr stream \<and>
    (list_all line_fits (lines_of stream) \<longrightarrow>
     read_capture J (Some stream) =
       (Inr (no_metrics\<lparr>frames := event_count\<rparr>), fixture_trades product (unat event_count)))"
  using json_library.generate_fixture_reads [OF assms] json_library.read_fixture [OF assms] by blast

theorem fixture_roundtrip_witness:
  "\<exists>stream. generate_fixture json_model Text_stored 3 ''BTC-USD'' = Inr stream \<and>
    read_capture json_model (Some stream) =
      (Inr (no_metrics\<lparr>frames := 3\<rparr>), fixture_trades ''BTC-USD'' 3)"
proof -
  have ascii: "list_all is_ascii ''BTC-USD''" by (simp add: is_ascii_def)
  show ?thesis
    using fixture_roundtrip [OF json_model.json_library_axioms ascii, of 3]
      model_fixture_fits [OF ascii, of 3]
    by auto
qed

end
