(* ===== verification/AtomicOutput.thy ===== *)
theory AtomicOutput
  imports Base
begin

text \<open>
  The all-or-nothing output file of \<open>src/atomic_output.hpp\<close>. The file system is a map from paths
  to contents. What a system call does beyond its effect on the two files is an argument: the
  results of the successive \<open>write\<close> calls are a list, and the other calls succeed or fail by a
  flag. A call that fails leaves the files as a crash just before it does, so the statements on
  every choice of the flags cover every crash point. An exception is an error value.
\<close>

section \<open>Opening\<close>

type_synonym files = "string \<rightharpoonup> string"

datatype output_error =
    No_file_name | Output_exists | Create_failed | Write_error
  | Already_committed | Sync_failed | Close_failed | Publish_failed | Unlink_failed
  | Directory_open_failed | Directory_sync_failed | Directory_close_failed

record atomic_output =
  destination :: string
  temporary :: string
  fd_open :: bool
  committed :: bool

definition filename :: "string \<Rightarrow> string" where
  "filename p = rev (takeWhile (\<lambda>c. c \<noteq> CHR ''/'') (rev p))"

definition new_output :: "string \<Rightarrow> bool \<Rightarrow> files \<Rightarrow> (output_error + atomic_output) \<times> files" where
  "new_output dest creates fs =
     (let temp = dest @ ''.part''
      in if dest = [] \<or> filename dest = [] then (Inl No_file_name, fs)
         else if fs dest \<noteq> None then (Inl Output_exists, fs)
         else if fs temp \<noteq> None \<or> \<not> creates then (Inl Create_failed, fs)
         else (Inr \<lparr>destination = dest, temporary = temp, fd_open = True, committed = False\<rparr>,
               fs(temp \<mapsto> [])))"

section \<open>Writing\<close>

text \<open>
  \<open>Wrote n\<close>: the call returned \<open>n\<close>; \<open>Interrupted\<close>: it failed with \<open>EINTR\<close>; \<open>Refused\<close>: with any
  other error. The loop takes one result per call; \<open>None\<close> means the list ended first.
\<close>

datatype write_result = Wrote nat | Interrupted | Refused

definition append_file :: "string \<Rightarrow> string \<Rightarrow> files \<Rightarrow> files" where
  "append_file p data fs = fs(p := map_option (\<lambda>content. content @ data) (fs p))"

fun write_loop :: "atomic_output \<Rightarrow> write_result list \<Rightarrow> string \<Rightarrow> files
    \<Rightarrow> (output_error option \<times> write_result list \<times> files) option" where
  "write_loop w rs [] fs = Some (None, rs, fs)"
| "write_loop w [] (c # cs) fs = None"
| "write_loop w (Interrupted # rs) (c # cs) fs = write_loop w rs (c # cs) fs"
| "write_loop w (Refused # rs) (c # cs) fs = Some (Some Write_error, rs, fs)"
| "write_loop w (Wrote n # rs) (c # cs) fs =
     (if n = 0 \<or> \<not> fd_open w then Some (Some Write_error, rs, fs)
      else write_loop w rs (drop n (c # cs)) (append_file (temporary w) (take n (c # cs)) fs))"

definition output_line :: "atomic_output \<Rightarrow> write_result list \<Rightarrow> string \<Rightarrow> files
    \<Rightarrow> (output_error option \<times> write_result list \<times> files) option" where
  "output_line w rs line fs =
     (case write_loop w rs line fs of
        None \<Rightarrow> None
      | Some (Some e, rs', fs') \<Rightarrow> Some (Some e, rs', fs')
      | Some (None, rs', fs') \<Rightarrow> write_loop w rs' [newline] fs')"

section \<open>Committing\<close>

text \<open>
  \<open>sync_parent\<close> opens, syncs and closes the directory of the destination; when the sync fails it closes
  the directory as well and reports the failure of the sync.
\<close>

record parent_env =
  opens_directory :: bool
  syncs_directory :: bool
  closes_directory :: bool

definition sync_parent :: "parent_env \<Rightarrow> output_error option" where
  "sync_parent env =
     (if \<not> opens_directory env then Some Directory_open_failed
      else if \<not> syncs_directory env then Some Directory_sync_failed
      else if \<not> closes_directory env then Some Directory_close_failed
      else None)"

record commit_env =
  syncs :: bool
  closes :: bool
  links :: bool
  unlinks :: bool
  parent :: parent_env

definition commit :: "commit_env \<Rightarrow> atomic_output \<Rightarrow> files
    \<Rightarrow> output_error option \<times> atomic_output \<times> files" where
  "commit env w fs =
     (if committed w then (Some Already_committed, w, fs)
      else if \<not> fd_open w \<or> \<not> syncs env then (Some Sync_failed, w, fs)
      else
        let w = w\<lparr>fd_open := False\<rparr> in
        if \<not> closes env then (Some Close_failed, w, fs)
        else if fs (destination w) \<noteq> None \<or> fs (temporary w) = None \<or> \<not> links env
        then (Some Publish_failed, w, fs)
        else
          let fs = fs(destination w := fs (temporary w)) in
          if \<not> unlinks env then (Some Unlink_failed, w, fs)
          else
            let fs = fs(temporary w := None) in
            case sync_parent (parent env) of
              Some e \<Rightarrow> (Some e, w, fs)
            | None \<Rightarrow> (None, w\<lparr>committed := True\<rparr>, fs))"

section \<open>Facts\<close>

lemma append_file_append:
  "append_file p ys (append_file p xs fs) = append_file p (xs @ ys) fs"
  by (cases "fs p") (simp_all add: append_file_def)

lemma append_file_Nil [simp]: "append_file p [] fs = fs"
  by (cases "fs p") (auto simp: append_file_def)

lemma append_file_other: "q \<noteq> p \<Longrightarrow> append_file p xs fs q = fs q"
  by (simp add: append_file_def)

text \<open>Whatever the results, a prefix of the data has been appended, and all of it on success.\<close>

lemma write_loop_appends:
  "write_loop w rs data fs = Some (e, rs', fs') \<Longrightarrow>
   \<exists>n. fs' = append_file (temporary w) (take n data) fs \<and> (e = None \<longrightarrow> length data \<le> n)"
proof (induction w rs data fs rule: write_loop.induct)
  case (5 w n rs c cs fs)
  show ?case
  proof (cases "n = 0 \<or> \<not> fd_open w")
    case True
    then show ?thesis using 5(2) by (auto intro: exI [of _ 0])
  next
    case False
    then obtain m where m: "fs' = append_file (temporary w) (take m (drop n (c # cs)))
        (append_file (temporary w) (take n (c # cs)) fs)" "e = None \<longrightarrow> length (drop n (c # cs)) \<le> m"
      using 5 by auto
    have "take (n + m) (c # cs) = take n (c # cs) @ take m (drop n (c # cs))" by (rule take_add)
    then have "fs' = append_file (temporary w) (take (n + m) (c # cs)) fs"
      using m(1) by (simp only: append_file_append)
    then show ?thesis using m(2) by (intro exI [of _ "n + m"]) auto
  qed
qed (auto intro: exI [of _ 0])

text \<open>Enough results that are not errors finish the loop: each moves at least one byte.\<close>

definition calls_made :: "write_result list \<Rightarrow> nat" where
  "calls_made rs = length (filter (\<lambda>r. r \<noteq> Interrupted) rs)"

definition progresses :: "write_result \<Rightarrow> bool" where
  "progresses r = (case r of Wrote n \<Rightarrow> 0 < n | Interrupted \<Rightarrow> True | Refused \<Rightarrow> False)"

lemma write_loop_finishes:
  "fd_open w \<Longrightarrow> length data \<le> calls_made rs \<Longrightarrow> list_all progresses rs \<Longrightarrow>
   \<exists>rs'. write_loop w rs data fs = Some (None, rs', append_file (temporary w) data fs)"
proof (induction w rs data fs rule: write_loop.induct)
  case (5 w n rs c cs fs)
  have n: "0 < n" using 5(4) by (simp add: progresses_def)
  have "length (drop n (c # cs)) \<le> calls_made rs"
    using 5(3) n by (simp add: calls_made_def)
  then obtain rs' where "write_loop w rs (drop n (c # cs)) (append_file (temporary w) (take n (c # cs)) fs) =
      Some (None, rs', append_file (temporary w) (drop n (c # cs))
        (append_file (temporary w) (take n (c # cs)) fs))"
    using 5(1,2,4) n by auto
  then show ?case using n 5(2) by (simp only: append_file_append append_take_drop_id) simp
qed (auto simp: calls_made_def progresses_def)

lemma output_line_appends:
  assumes "output_line w rs line fs = Some (e, rs', fs')"
  shows "\<exists>n. fs' = append_file (temporary w) (take n (line @ [newline])) fs \<and>
    (e = None \<longrightarrow> length line < n)"
proof -
  obtain e1 rs1 fs1 where 1: "write_loop w rs line fs = Some (e1, rs1, fs1)"
    using assms by (auto simp: output_line_def split: option.splits)
  obtain n where n: "fs1 = append_file (temporary w) (take n line) fs" "e1 = None \<longrightarrow> length line \<le> n"
    using write_loop_appends [OF 1] by blast
  show ?thesis
  proof (cases e1)
    case None
    then have "write_loop w rs1 [newline] fs1 = Some (e, rs', fs')"
      using assms 1 by (simp add: output_line_def)
    then obtain m where m: "fs' = append_file (temporary w) (take m [newline]) fs1"
      "e = None \<longrightarrow> 1 \<le> m"
      using write_loop_appends by force
    have "fs' = append_file (temporary w) (line @ take m [newline]) fs"
      using n None m(1) by (simp add: append_file_append)
    then show ?thesis using m(2) by (intro exI [of _ "length line + m"]) auto
  next
    case (Some x)
    then have "fs' = fs1" "e \<noteq> None" using assms 1 by (auto simp: output_line_def)
    then show ?thesis using n(1) by (intro exI [of _ "min n (length line)"]) (auto simp: min_def)
  qed
qed

text \<open>What \<open>commit\<close> leaves, for every combination of failing calls.\<close>

definition fresh :: "atomic_output \<Rightarrow> bool" where
  "fresh w \<longleftrightarrow> fd_open w \<and> \<not> committed w \<and> temporary w = destination w @ ''.part''"

lemma fresh_paths: "fresh w \<Longrightarrow> temporary w \<noteq> destination w"
  by (simp add: fresh_def)

lemma new_output_fresh:
  "new_output dest creates fs = (Inr w, fs') \<Longrightarrow>
   fresh w \<and> destination w = dest \<and> fs dest = None \<and> fs (temporary w) = None \<and>
   fs' = fs(temporary w \<mapsto> [])"
  by (auto simp: new_output_def Let_def fresh_def split: if_splits)

lemma new_output_error: "new_output dest creates fs = (Inl e, fs') \<Longrightarrow> fs' = fs"
  by (auto simp: new_output_def Let_def split: if_splits)

lemma commit_cases:
  assumes "fresh w" and "fs (temporary w) = Some content"
  obtains (published) e w' fs' where "commit env w fs = (e, w', fs')" and "fs (destination w) = None"
      and "fs' (destination w) = Some content" and "fs' (temporary w) \<in> {None, Some content}"
      and "\<And>p. p \<noteq> destination w \<Longrightarrow> p \<noteq> temporary w \<Longrightarrow> fs' p = fs p"
      and "e = None \<longleftrightarrow> committed w'" and "e = None \<Longrightarrow> fs' (temporary w) = None"
    | (refused) e w' where "commit env w fs = (Some e, w', fs)" and "\<not> committed w'"
  using assms fresh_paths [OF assms(1)]
  by (cases "syncs env"; cases "closes env"; cases "links env"; cases "unlinks env";
      cases "sync_parent (parent env)"; cases "fs (destination w)")
    (simp_all add: commit_def fresh_def Let_def)

definition nothing_fails :: commit_env where
  "nothing_fails = \<lparr>syncs = True, closes = True, links = True, unlinks = True,
     parent = \<lparr>opens_directory = True, syncs_directory = True, closes_directory = True\<rparr>\<rparr>"

lemma nothing_fails [simp]:
  "syncs nothing_fails" "closes nothing_fails" "links nothing_fails" "unlinks nothing_fails"
  "sync_parent (parent nothing_fails) = None"
  by (simp_all add: nothing_fails_def sync_parent_def)

section \<open>Properties\<close>



text \<open>
  C11. All or nothing: a fresh output is committed with every choice of failing calls. Either the
  destination did not exist and now holds exactly the content of the partial file, or no file
  changed and the commit is an error; success means published, partial name removed and no other
  path touched. An existing destination is never replaced.
\<close>

theorem atomic_commit_all_or_nothing:
  assumes "fresh w" and "fs (temporary w) = Some content"
  shows "case commit env w fs of (e, w', fs') \<Rightarrow>
    (if fs' = fs then e \<noteq> None
     else fs (destination w) = None \<and> fs' (destination w) = Some content \<and>
       (\<forall>p. p \<noteq> destination w \<and> p \<noteq> temporary w \<longrightarrow> fs' p = fs p)) \<and>
    (e = None \<longrightarrow> fs' (destination w) = Some content \<and> fs' (temporary w) = None) \<and>
    (e = None \<longleftrightarrow> committed w')"
  using assms by (cases rule: commit_cases [where env = env]) auto

theorem atomic_commit_all_or_nothing_witness:
  "\<exists>w fs. new_output ''out.jsonl'' True (Map.empty) = (Inr w, fs) \<and>
     snd (snd (commit nothing_fails
       w (append_file (temporary w) ''x'' fs))) ''out.jsonl'' = Some ''x''"
proof -
  let ?w = "\<lparr>destination = ''out.jsonl'', temporary = ''out.jsonl.part'', fd_open = True,
    committed = False\<rparr>"
  let ?env = "nothing_fails"
  let ?fs = "[''out.jsonl.part'' \<mapsto> ''x'']"
  have new: "new_output ''out.jsonl'' True Map.empty = (Inr ?w, [''out.jsonl.part'' \<mapsto> []])"
    by (simp add: new_output_def filename_def Let_def)
  have "fresh ?w" by (simp add: fresh_def)
  moreover have "?fs (temporary ?w) = Some ''x''" by simp
  ultimately have "case commit ?env ?w ?fs of (e, w', fs') \<Rightarrow>
      e = None \<longrightarrow> fs' ''out.jsonl'' = Some ''x''"
    using atomic_commit_all_or_nothing [of ?w ?fs "''x''" ?env] by (auto split: prod.splits)
  then show ?thesis
    using new by (auto simp: append_file_def commit_def Let_def)
qed

end
