(* ===== verification/Live.thy ===== *)
theory Live
  imports AtomicOutput JsonApi
begin

text \<open>
  Live capture (\<open>src/live.cpp\<close>, \<open>live.hpp\<close>): sending a subscription over a WebSocket, connecting,
  and the capture loop with its reconnects, message assembly and recording. libcurl, the
  sockets, the clock and the stop request are outside: what they answer is an argument, one record
  \<open>world\<close> per iteration of a loop, so that a run is a list of worlds. The state of
  \<open>capture_live\<close> is the record \<open>capture\<close>; a thrown exception is a value.
\<close>

section \<open>Stop requests and sockets\<close>

datatype stop_answer = No_callback | Answered bool | Callback_threw

definition stopped :: "stop_answer \<Rightarrow> bool" where
  "stopped a = (case a of No_callback \<Rightarrow> False | Answered b \<Rightarrow> b | Callback_threw \<Rightarrow> True)"

datatype verdict = Continue | Failure | Stop

record wait_env =
  stop_before :: stop_answer
  socket_known :: bool
  poll_ok :: bool
  stop_after :: stop_answer

definition wait_socket :: "wait_env \<Rightarrow> verdict" where
  "wait_socket e =
     (if stopped (stop_before e) then Stop
      else if \<not> socket_known e then Failure
      else if \<not> poll_ok e then Failure
      else if stopped (stop_after e) then Stop
      else Continue)"

section \<open>send\_all\<close>

text \<open>
  One attempt: the stop request is asked, then \<open>curl_ws_send\<close>, given the payload from
  \<open>offset\<close> on, reports how many bytes of it it took. The result has the verdict and the bytes
  taken from \<open>offset\<close> on; \<open>None\<close> means the attempts ended first.
\<close>

datatype send_result = Send_again nat wait_env | Sent nat | Send_failed

fun send_all :: "(stop_answer \<times> send_result) list \<Rightarrow> string \<Rightarrow> nat \<Rightarrow> (verdict \<times> string) option" where
  "send_all attempts payload offset =
     (if \<not> offset < length payload then Some (Continue, [])
      else case attempts of
             [] \<Rightarrow> None
           | (stop, result) # rest \<Rightarrow>
               if stopped stop then Some (Stop, [])
               else case result of
                      Send_again sent wait \<Rightarrow>
                        if offset + sent < length payload \<and> wait_socket wait \<noteq> Continue
                        then Some (wait_socket wait, take sent (drop offset payload))
                        else map_option (\<lambda>(v, wire). (v, take sent (drop offset payload) @ wire))
                               (send_all rest payload (offset + sent))
                    | Send_failed \<Rightarrow> Some (Failure, [])
                    | Sent sent \<Rightarrow>
                        if sent = 0 then Some (Failure, [])
                        else map_option (\<lambda>(v, wire). (v, take sent (drop offset payload) @ wire))
                               (send_all rest payload (offset + sent)))"

declare send_all.simps [simp del]

lemma take_drop_prefix:
  "take m (drop n xs) @ take k (drop (n + m) xs) = take (m + k) (drop n xs)"
  unfolding take_add drop_drop by (simp only: add.commute)

text \<open>The bytes taken continue the payload, without a gap or a repetition.\<close>

lemma send_all_wire:
  "send_all attempts payload offset = Some (v, wire) \<Longrightarrow>
   \<exists>n. wire = take n (drop offset payload) \<and> (v = Continue \<longrightarrow> length payload \<le> offset + n)"
proof (induction attempts arbitrary: offset wire)
  case Nil
  then show ?case by (subst (asm) send_all.simps) (auto split: if_splits)
next
  case (Cons a attempts)
  obtain stop result where a: "a = (stop, result)" by fastforce
  have more: "\<exists>n. take sent (drop offset payload) @ wire' = take n (drop offset payload) \<and>
      (v = Continue \<longrightarrow> length payload \<le> offset + n)"
    if sends: "send_all attempts payload (offset + sent) = Some (v, wire')" for sent wire'
  proof -
    obtain n where "wire' = take n (drop (offset + sent) payload)"
      "v = Continue \<longrightarrow> length payload \<le> offset + sent + n"
      using Cons.IH [OF sends] by blast
    then show ?thesis by (intro exI [of _ "sent + n"]) (auto simp: take_drop_prefix)
  qed
  show ?case
    using Cons.prems unfolding a
    by (subst (asm) send_all.simps)
      (auto split: if_splits send_result.splits intro: more exI [of _ 0])
qed

section \<open>connect\<close>

datatype perform_result = Performed | Aborted_by_callback | Perform_failed

record connect_env =
  handle_ready :: bool
  perform :: perform_result
  stop_aborted :: stop_answer
  subscribe_sends :: "(stop_answer \<times> send_result) list"
  heartbeat_sends :: "(stop_answer \<times> send_result) list"

definition subscription :: "'j json_lib \<Rightarrow> string list \<Rightarrow> string \<Rightarrow> string option" where
  "subscription J product_ids channel =
     json_dump J (json_object J
       [(''type'', json_string J ''subscribe''),
        (''product_ids'', json_array J (map (json_string J) product_ids)),
        (''channel'', json_string J channel)])"

text \<open>The result has the verdict and the texts sent on the connection.\<close>

definition connect :: "'j json_lib \<Rightarrow> string list \<Rightarrow> connect_env \<Rightarrow> (verdict \<times> string list) option" where
  "connect J product_ids e =
     (if \<not> handle_ready e then Some (Failure, [])
      else case perform e of
             Perform_failed \<Rightarrow> Some (Failure, [])
           | Aborted_by_callback \<Rightarrow>
               Some (if stopped (stop_aborted e) then Stop else Failure, [])
           | Performed \<Rightarrow>
               (case subscription J product_ids ''market_trades'' of
                  None \<Rightarrow> Some (Failure, [])
                | Some subscribe \<Rightarrow>
                    (case send_all (subscribe_sends e) subscribe 0 of
                       None \<Rightarrow> None
                     | Some (v, text1) \<Rightarrow>
                         if v \<noteq> Continue then Some (v, [text1])
                         else case subscription J product_ids ''heartbeats'' of
                                None \<Rightarrow> Some (Failure, [text1])
                              | Some heartbeat \<Rightarrow>
                                  map_option (\<lambda>(v, text2). (v, [text1, text2]))
                                    (send_all (heartbeat_sends e) heartbeat 0))))"

section \<open>The capture loop\<close>

definition maximum_message_size :: nat where
  "maximum_message_size = 4 * 1024 * 1024"

definition maximum_consecutive_failures :: u64 where
  "maximum_consecutive_failures = 5"

record capture_options =
  output_path :: string
  product_ids :: "string list"
  duration :: int
  endpoint :: string

record ws_frame =
  is_text :: bool
  is_binary :: bool
  is_cont :: bool
  is_close :: bool
  is_ping_or_pong :: bool
  frame_data :: string
  bytes_left :: nat

datatype receive_result = Again wait_env | Receive_failed | No_frame_metadata | Received ws_frame

record world =
  in_time :: bool
  stop :: stop_answer
  connection :: connect_env
  received :: receive_result
  wall_time_ns :: u64
  writes :: "write_result list"
  late :: bool
  stop_late :: stop_answer
  commits :: commit_env

datatype phase = Outer | Inner | Finishing | Returned | Aborted

record capture =
  phase :: phase
  connection_id :: u64
  consecutive_failures :: u64
  reconnects :: u64
  recorded :: u64
  interrupted :: bool
  message :: string
  output_file :: atomic_output
  disk :: files

definition frame_record :: "'j json_lib \<Rightarrow> u64 \<Rightarrow> u64 \<Rightarrow> string \<Rightarrow> 'j" where
  "frame_record J time conn msg =
     json_object J
      [(''type'', json_string J ''frame''),
       (''received_ns'', json_number J time),
       (''connection_id'', json_number J conn),
       (''payload'', json_string J msg)]"

text \<open>A complete message is written as one line; a failed write is a failure of the connection.\<close>

definition record_message :: "'j json_lib \<Rightarrow> world \<Rightarrow> capture \<Rightarrow> (verdict \<times> capture) option" where
  "record_message J w c =
     (case json_dump J (frame_record J (wall_time_ns w) (connection_id c) (message c)) of
        None \<Rightarrow> Some (Failure, c)
      | Some line \<Rightarrow>
          (case output_line (output_file c) (writes w) line (disk c) of
             None \<Rightarrow> None
           | Some (Some e, rs, fs) \<Rightarrow> Some (Failure, c\<lparr>disk := fs\<rparr>)
           | Some (None, rs, fs) \<Rightarrow>
               Some (Continue, c\<lparr>disk := fs, recorded := recorded c + 1, consecutive_failures := 0,
                                 message := []\<rparr>)))"

definition handle_frame :: "'j json_lib \<Rightarrow> world \<Rightarrow> ws_frame \<Rightarrow> capture
    \<Rightarrow> (verdict \<times> capture) option" where
  "handle_frame J w f c =
     (if is_close f then Some (Failure, c)
      else if is_ping_or_pong f then Some (Continue, c)
      else if is_binary f then Some (Continue, c\<lparr>message := []\<rparr>)
      else if \<not> is_text f then Some (Continue, c)
      else if length (frame_data f) > maximum_message_size - length (message c)
      then Some (Failure, c)
      else
        let c = c\<lparr>message := message c @ frame_data f\<rparr> in
        if bytes_left f \<noteq> 0 then Some (Continue, c)
        else if is_cont f then Some (Continue, c)
        else record_message J w c)"

definition receive :: "'j json_lib \<Rightarrow> world \<Rightarrow> capture \<Rightarrow> (verdict \<times> capture) option" where
  "receive J w c =
     (case received w of
        Again wait \<Rightarrow> Some (wait_socket wait, c)
      | Receive_failed \<Rightarrow> Some (Failure, c)
      | No_frame_metadata \<Rightarrow> Some (Failure, c)
      | Received f \<Rightarrow> handle_frame J w f c)"

text \<open>
  The handlers: a stop ends the loop, a failure reconnects unless time is up, a stop is requested or
  it is the fifth in a row. The pause before the next attempt changes nothing.
\<close>

definition handle_failure :: "world \<Rightarrow> capture \<Rightarrow> capture" where
  "handle_failure w c =
     (if late w \<or> stopped (stop_late w) then c\<lparr>phase := Finishing\<rparr>
      else
        let c = c\<lparr>reconnects := reconnects c + 1, consecutive_failures := consecutive_failures c + 1\<rparr>
        in if consecutive_failures c \<ge> maximum_consecutive_failures then c\<lparr>phase := Aborted\<rparr>
           else c\<lparr>phase := Outer\<rparr>)"

definition follow :: "phase \<Rightarrow> world \<Rightarrow> verdict \<times> capture \<Rightarrow> capture" where
  "follow next w vc =
     (case vc of (v, c) \<Rightarrow>
        (case v of
           Continue \<Rightarrow> c\<lparr>phase := next\<rparr>
         | Stop \<Rightarrow> c\<lparr>phase := Finishing\<rparr>
         | Failure \<Rightarrow> handle_failure w c))"

definition outer_step :: "'j json_lib \<Rightarrow> capture_options \<Rightarrow> world \<Rightarrow> capture \<Rightarrow> capture option" where
  "outer_step J options w c =
     (if \<not> in_time w \<or> stopped (stop w) then Some (c\<lparr>phase := Finishing\<rparr>)
      else
        let c = c\<lparr>connection_id := connection_id c + 1, message := []\<rparr>
        in map_option (\<lambda>(v, sent). follow Inner w (v, c))
             (connect J (product_ids options) (connection w)))"

definition inner_step :: "'j json_lib \<Rightarrow> world \<Rightarrow> capture \<Rightarrow> capture option" where
  "inner_step J w c =
     (if \<not> in_time w \<or> stopped (stop w) then Some (c\<lparr>phase := Outer\<rparr>)
      else map_option (follow Inner w) (receive J w c))"

definition finish_step :: "world \<Rightarrow> capture \<Rightarrow> capture" where
  "finish_step w c =
     (let c = c\<lparr>interrupted := stopped (stop w)\<rparr> in
      if recorded c = 0 \<and> \<not> interrupted c then c\<lparr>phase := Aborted\<rparr>
      else case commit (commits w) (output_file c) (disk c) of
             (e, out, fs) \<Rightarrow>
               c\<lparr>phase := (if e = None then Returned else Aborted), output_file := out, disk := fs\<rparr>)"

definition capture_step :: "'j json_lib \<Rightarrow> capture_options \<Rightarrow> world \<Rightarrow> capture \<Rightarrow> capture option" where
  "capture_step J options w c =
     (case phase c of
        Outer \<Rightarrow> outer_step J options w c
      | Inner \<Rightarrow> inner_step J w c
      | Finishing \<Rightarrow> Some (finish_step w c)
      | Returned \<Rightarrow> Some c
      | Aborted \<Rightarrow> Some c)"

primrec run_capture :: "'j json_lib \<Rightarrow> capture_options \<Rightarrow> world list \<Rightarrow> capture \<Rightarrow> capture option" where
  "run_capture J options [] c = Some c"
| "run_capture J options (w # ws) c = Option.bind (capture_step J options w c) (run_capture J options ws)"

section \<open>The start of capture\_live\<close>

datatype live_error =
  Bad_options | Bad_product | Curl_failed | Output_failed output_error | Unencodable

definition capture_metadata :: "'j json_lib \<Rightarrow> capture_options \<Rightarrow> 'j" where
  "capture_metadata J options =
     json_object J
      [(''type'', json_string J ''metadata''),
       (''format'', json_string J ''bengal-market-capture''),
       (''version'', json_number J 1),
       (''source'', json_string J ''coinbase-advanced-trade''),
       (''endpoint'', json_string J (endpoint options)),
       (''product_ids'', json_array J (map (json_string J) (product_ids options)))]"

definition start_capture :: "'j json_lib \<Rightarrow> capture_options \<Rightarrow> bool \<Rightarrow> bool \<Rightarrow> write_result list \<Rightarrow> files
    \<Rightarrow> ((live_error + capture) \<times> files) option" where
  "start_capture J options curl_ready creates rs fs =
     (if output_path options = [] \<or> product_ids options = [] \<or> duration options \<le> 0
      then Some (Inl Bad_options, fs)
      else if \<exists>p \<in> set (product_ids options). p = [] \<or> length p > 20
      then Some (Inl Bad_product, fs)
      else if \<not> curl_ready then Some (Inl Curl_failed, fs)
      else case new_output (output_path options) creates fs of
             (Inl e, fs) \<Rightarrow> Some (Inl (Output_failed e), fs)
           | (Inr out, fs) \<Rightarrow>
               (case json_dump J (capture_metadata J options) of
                  None \<Rightarrow> Some (Inl Unencodable, fs)
                | Some line \<Rightarrow>
                    (case output_line out rs line fs of
                       None \<Rightarrow> None
                     | Some (Some e, rs', fs) \<Rightarrow> Some (Inl (Output_failed e), fs)
                     | Some (None, rs', fs) \<Rightarrow>
                         Some (Inr \<lparr>phase = Outer, connection_id = 0, consecutive_failures = 0,
                                    reconnects = 0, recorded = 0, interrupted = False, message = [],
                                    output_file = out, disk = fs\<rparr>, fs))))"

end
