(* ===== verification/Trace.thy ===== *)
theory Trace
  imports Live
begin

text \<open>
  What happened in a run of a capture, told without its buffers and counters: the log of the
  connection attempts and of the frames that \<open>curl_ws_recv\<close> returned, the messages that a log
  contains, and the outcome of every iteration. The theorems of Recorder compare the state of
  \<open>capture_live\<close> with them.
\<close>

section \<open>Frames\<close>

text \<open>
  The kinds of a frame, in the order of precedence of the flags. A text frame is final if libcurl has
  delivered all of its bytes and it is not marked as continued.
\<close>

datatype frame_kind = Closing | Control | Binary_frame | Ignored | Fragment | Final

definition frame_kind :: "ws_frame \<Rightarrow> frame_kind" where
  "frame_kind f =
     (if is_close f then Closing
      else if is_ping_or_pong f then Control
      else if is_binary f then Binary_frame
      else if \<not> is_text f then Ignored
      else if bytes_left f = 0 \<and> \<not> is_cont f then Final
      else Fragment)"

section \<open>The log\<close>

datatype event = Connecting | Got u64 ws_frame

definition step_events :: "world \<Rightarrow> capture \<Rightarrow> event list" where
  "step_events w c =
     (if \<not> in_time w \<or> stopped (stop w) then []
      else case phase c of
             Outer \<Rightarrow> [Connecting]
           | Inner \<Rightarrow> (case received w of Received f \<Rightarrow> [Got (wall_time_ns w) f] | _ \<Rightarrow> [])
           | _ \<Rightarrow> [])"

primrec capture_log :: "'j json_lib \<Rightarrow> capture_options \<Rightarrow> world list \<Rightarrow> capture \<Rightarrow> event list" where
  "capture_log J options [] c = []"
| "capture_log J options (w # ws) c =
     step_events w c @
     (case capture_step J options w c of None \<Rightarrow> [] | Some c' \<Rightarrow> capture_log J options ws c')"

text \<open>
  Position \<open>j\<close> of a log completes a message if it is a final text frame. The message is the data of
  the fragments after the last boundary before \<open>j\<close>, and then its own; a boundary is a connection
  attempt, a binary frame or a final frame. Its connection is the number of attempts before \<open>j\<close>.
\<close>

definition boundary :: "event \<Rightarrow> bool" where
  "boundary e = (case e of Connecting \<Rightarrow> True | Got t f \<Rightarrow> frame_kind f = Binary_frame \<or> frame_kind f = Final)"

definition fragment :: "event \<Rightarrow> bool" where
  "fragment e = (case e of Connecting \<Rightarrow> False | Got t f \<Rightarrow> frame_kind f = Fragment)"

definition data_of :: "event \<Rightarrow> string" where
  "data_of e = (case e of Connecting \<Rightarrow> [] | Got t f \<Rightarrow> frame_data f)"

definition pending :: "event list \<Rightarrow> string" where
  "pending evs = concat (map data_of (filter fragment (rev (takeWhile (\<lambda>e. \<not> boundary e) (rev evs)))))"

definition connects :: "event list \<Rightarrow> nat" where
  "connects evs = length (filter (\<lambda>e. e = Connecting) evs)"

type_synonym message_record = "u64 \<times> u64 \<times> string"

definition completed :: "event list \<Rightarrow> nat \<Rightarrow> message_record list" where
  "completed evs j =
     (case evs ! j of
        Connecting \<Rightarrow> []
      | Got t f \<Rightarrow>
          if frame_kind f = Final
          then [(t, of_nat (connects (take j evs)), pending (take j evs) @ frame_data f)]
          else [])"

text \<open>
  The messages to record: those within the limit whose record the JSON library prints (text that is
  not UTF-8 makes it throw, which ends the connection).
\<close>

definition messages :: "'j json_lib \<Rightarrow> event list \<Rightarrow> message_record list" where
  "messages J evs =
     filter (\<lambda>(t, k, m). length m \<le> maximum_message_size \<and> json_dump J (frame_record J t k m) \<noteq> None)
       (concat (map (completed evs) [0..<length evs]))"

lemma pending_Nil [simp]: "pending [] = []"
  by (simp add: pending_def)

lemma pending_snoc:
  "pending (evs @ [e]) =
     (if boundary e then [] else pending evs @ (if fragment e then data_of e else []))"
  by (simp add: pending_def)

lemma connects_Nil [simp]: "connects [] = 0"
  by (simp add: connects_def)

lemma connects_snoc [simp]: "connects (evs @ [e]) = connects evs + (if e = Connecting then 1 else 0)"
  by (simp add: connects_def)

lemma messages_Nil [simp]: "messages J [] = []"
  by (simp add: messages_def)

lemma messages_snoc:
  "messages J (evs @ [e]) = messages J evs @
     (case e of
        Connecting \<Rightarrow> []
      | Got t f \<Rightarrow>
          let k = of_nat (connects evs); m = pending evs @ frame_data f
          in if frame_kind f = Final \<and> length m \<le> maximum_message_size \<and>
                json_dump J (frame_record J t k m) \<noteq> None
             then [(t, k, m)] else [])"
proof -
  have old: "map (completed (evs @ [e])) [0..<length evs] = map (completed evs) [0..<length evs]"
    by (rule map_cong) (auto simp: completed_def nth_append split: event.split)
  have new: "completed (evs @ [e]) (length evs) =
    (case e of Connecting \<Rightarrow> []
     | Got t f \<Rightarrow> if frame_kind f = Final then [(t, of_nat (connects evs), pending evs @ frame_data f)] else [])"
    by (simp add: completed_def split: event.split)
  show ?thesis
    by (simp add: messages_def old new Let_def split: event.split)
qed

section \<open>Outcomes\<close>

text \<open>
  The outcome of an iteration: it failed with the capture to go on, in time and not stopped; it
  recorded a message; or neither.
\<close>

datatype iteration = Failed | Recorded | Uneventful

definition step_verdict :: "'j json_lib \<Rightarrow> capture_options \<Rightarrow> world \<Rightarrow> capture \<Rightarrow> verdict option" where
  "step_verdict J options w c =
     (if \<not> in_time w \<or> stopped (stop w) then None
      else case phase c of
             Outer \<Rightarrow> map_option fst (connect J (product_ids options) (connection w))
           | Inner \<Rightarrow> map_option fst (receive J w c)
           | _ \<Rightarrow> None)"

definition completes :: "world \<Rightarrow> capture \<Rightarrow> bool" where
  "completes w c \<longleftrightarrow> phase c = Inner \<and>
     (case received w of Received f \<Rightarrow> frame_kind f = Final | _ \<Rightarrow> False)"

definition step_outcome :: "'j json_lib \<Rightarrow> capture_options \<Rightarrow> world \<Rightarrow> capture \<Rightarrow> iteration" where
  "step_outcome J options w c =
     (case step_verdict J options w c of
        Some Failure \<Rightarrow> if late w \<or> stopped (stop_late w) then Uneventful else Failed
      | Some Continue \<Rightarrow> if completes w c then Recorded else Uneventful
      | _ \<Rightarrow> Uneventful)"

primrec outcomes :: "'j json_lib \<Rightarrow> capture_options \<Rightarrow> world list \<Rightarrow> capture \<Rightarrow> iteration list" where
  "outcomes J options [] c = []"
| "outcomes J options (w # ws) c =
     step_outcome J options w c #
     (case capture_step J options w c of None \<Rightarrow> [] | Some c' \<Rightarrow> outcomes J options ws c')"

definition failures :: "iteration list \<Rightarrow> nat" where
  "failures os = length (filter (\<lambda>x. x = Failed) os)"

text \<open>The failures after the last recorded message.\<close>

definition failures_in_a_row :: "iteration list \<Rightarrow> nat" where
  "failures_in_a_row os = failures (takeWhile (\<lambda>x. x \<noteq> Recorded) (rev os))"

lemma failures_snoc [simp]: "failures (os @ [x]) = failures os + (if x = Failed then 1 else 0)"
  by (simp add: failures_def)

lemma failures_in_a_row_snoc:
  "failures_in_a_row (os @ [x]) =
     (if x = Recorded then 0 else failures_in_a_row os + (if x = Failed then 1 else 0))"
  by (cases x) (simp_all add: failures_in_a_row_def failures_def)

lemma failures_Nil [simp]: "failures [] = 0" "failures_in_a_row [] = 0"
  by (simp_all add: failures_in_a_row_def failures_def)

end
