(* ===== verification/Recorder.thy ===== *)
theory Recorder
  imports Trace Capture
begin

text \<open>
  Facts and properties of live capture: the bounds its loop keeps, its failure counters against the
  outcomes of Trace, what the recording holds after any run against the messages of Trace, when the
  loop gives up, and that the reader of \<open>Reader\<close> accepts a committed recording.
\<close>

section \<open>Bounds\<close>

definition capture_bounded :: "capture \<Rightarrow> bool" where
  "capture_bounded c \<longleftrightarrow> length (message c) \<le> maximum_message_size \<and>
     unat (consecutive_failures c) \<le> 5 \<and>
     (unat (consecutive_failures c) = 5 \<longrightarrow> phase c = Aborted) \<and>
     (phase c = Returned \<longrightarrow> recorded c \<noteq> 0 \<or> interrupted c)"

lemma handle_failure_bounded:
  assumes "length (message c) \<le> maximum_message_size" and "unat (consecutive_failures c) < 5"
  shows "capture_bounded (handle_failure w c)"
proof -
  have "unat (consecutive_failures c + 1) = unat (consecutive_failures c) + 1"
    using assms(2) by (intro unat_succ_u64) simp
  then show ?thesis
    using assms
    by (auto simp: handle_failure_def capture_bounded_def Let_def maximum_consecutive_failures_def
        word_nat)
qed

lemma follow_bounded:
  assumes "next \<noteq> Returned" and "length (message c) \<le> maximum_message_size" and "unat (consecutive_failures c) < 5"
  shows "capture_bounded (follow next w (v, c))"
  using assms handle_failure_bounded [OF assms(2,3)] by (cases v) (simp_all add: follow_def capture_bounded_def)

lemma receive_bounded:
  assumes "length (message c) \<le> maximum_message_size" and "unat (consecutive_failures c) < 5"
    and "receive J w c = Some (v, c')"
  shows "length (message c') \<le> maximum_message_size \<and> unat (consecutive_failures c') < 5"
proof -
  have recorded: "length (message d') \<le> maximum_message_size \<and> unat (consecutive_failures d') < 5"
    if "record_message J w d = Some (v, d')" "length (message d) \<le> maximum_message_size"
      "unat (consecutive_failures d) < 5" for d d'
    using that by (auto simp: record_message_def maximum_message_size_def split: option.splits)
  show ?thesis
    using assms unfolding receive_def handle_frame_def
    by (auto simp: Let_def split: receive_result.splits if_splits dest!: recorded)
qed

lemma capture_step_bounded:
  assumes "capture_bounded c" and "capture_step J options w c = Some c'"
  shows "capture_bounded c'"
proof (cases "phase c")
  case Outer
  then have b: "unat (consecutive_failures c) < 5"
    using assms(1) by (auto simp: capture_bounded_def le_less)
  let ?c = "c\<lparr>connection_id := connection_id c + 1, message := []\<rparr>"
  have "capture_bounded (follow Inner w (v, ?c))" for v
    using b by (intro follow_bounded) simp_all
  moreover have "capture_bounded (c\<lparr>phase := Finishing\<rparr>)"
    using assms(1) b by (simp add: capture_bounded_def)
  ultimately show ?thesis
    using assms(2) Outer by (auto simp: capture_step_def outer_step_def Let_def split: if_splits)
next
  case Inner
  then have b: "unat (consecutive_failures c) < 5" "length (message c) \<le> maximum_message_size"
    using assms(1) by (auto simp: capture_bounded_def le_less)
  show ?thesis
  proof (cases "\<not> in_time w \<or> stopped (stop w)")
    case True
    then show ?thesis using assms Inner b by (auto simp: capture_step_def inner_step_def capture_bounded_def)
  next
    case False
    then obtain v d where d: "receive J w c = Some (v, d)" "c' = follow Inner w (v, d)"
      using assms Inner by (auto simp: capture_step_def inner_step_def)
    then show ?thesis using receive_bounded [OF b(2,1) d(1)] follow_bounded [of Inner] by simp
  qed
next
  case Finishing
  then show ?thesis
    using assms by (auto simp: capture_step_def finish_step_def Let_def capture_bounded_def
        split: if_splits prod.splits)
qed (use assms in \<open>simp_all add: capture_step_def\<close>)

lemma run_capture_bounded:
  "capture_bounded c \<Longrightarrow> run_capture J options ws c = Some c' \<Longrightarrow> capture_bounded c'"
proof (induction ws arbitrary: c)
  case (Cons w ws)
  then obtain d where "capture_step J options w c = Some d" "run_capture J options ws d = Some c'"
    by (auto simp: bind_eq_Some_conv)
  then show ?case using Cons.IH capture_step_bounded [OF Cons.prems(1)] by blast
qed simp

section \<open>Counting failures\<close>

definition counted :: "iteration list \<Rightarrow> capture \<Rightarrow> bool" where
  "counted os c \<longleftrightarrow> unat (consecutive_failures c) = failures_in_a_row os \<and> reconnects c = of_nat (failures os)"

lemma follow_counted:
  assumes "counted os c" and "unat (consecutive_failures c) < 5"
  shows "counted (os @ [if v = Failure \<and> \<not> (late w \<or> stopped (stop_late w)) then Failed else Uneventful])
    (follow next w (v, c))"
proof -
  have "unat (consecutive_failures c + 1) = unat (consecutive_failures c) + 1"
    using assms(2) by (intro unat_succ_u64) simp
  then show ?thesis
    using assms by (cases v) (auto simp: counted_def follow_def handle_failure_def Let_def failures_in_a_row_snoc)
qed

lemma record_message_counters:
  "record_message J w c = Some (v, d) \<Longrightarrow> reconnects d = reconnects c \<and> phase d = phase c \<and>
   consecutive_failures d = (if v = Continue then 0 else consecutive_failures c)"
  by (auto simp: record_message_def split: option.splits)

text \<open>A frame by its kind.\<close>

lemma handle_frame_kind:
  "handle_frame J w f c =
     (let c' = c\<lparr>message := message c @ frame_data f\<rparr>;
          long = (length (frame_data f) > maximum_message_size - length (message c))
      in case frame_kind f of
           Closing \<Rightarrow> Some (Failure, c)
         | Control \<Rightarrow> Some (Continue, c)
         | Binary_frame \<Rightarrow> Some (Continue, c\<lparr>message := []\<rparr>)
         | Ignored \<Rightarrow> Some (Continue, c)
         | Fragment \<Rightarrow> if long then Some (Failure, c) else Some (Continue, c')
         | Final \<Rightarrow> if long then Some (Failure, c) else record_message J w c')"
  by (simp add: handle_frame_def frame_kind_def Let_def)

lemma receive_counters:
  assumes "receive J w c = Some (v, d)" and "phase c = Inner"
  shows "reconnects d = reconnects c \<and>
    consecutive_failures d = (if v = Continue \<and> completes w c then 0 else consecutive_failures c)"
  using assms
  by (auto simp: receive_def handle_frame_kind completes_def Let_def dest!: record_message_counters
      split: receive_result.splits frame_kind.splits if_splits)

lemma capture_step_counted:
  assumes os: "counted os c" and b: "capture_bounded c" and step: "capture_step J options w c = Some c'"
  shows "counted (os @ [step_outcome J options w c]) c'"
proof (cases "(phase c = Outer \<or> phase c = Inner) \<and> in_time w \<and> \<not> stopped (stop w)")
  case False
  then have "step_outcome J options w c = Uneventful" "reconnects c' = reconnects c"
    "consecutive_failures c' = consecutive_failures c"
    using step by (cases "phase c"; auto simp: step_outcome_def step_verdict_def capture_step_def outer_step_def
        inner_step_def finish_step_def Let_def split: prod.splits if_splits)+
  then show ?thesis using os by (simp add: counted_def failures_in_a_row_snoc)
next
  case True
  then have few: "unat (consecutive_failures c) < 5" using b by (auto simp: capture_bounded_def le_less)
  show ?thesis
  proof (cases "phase c = Outer")
    case True
    let ?c = "c\<lparr>connection_id := connection_id c + 1, message := []\<rparr>"
    obtain v sent where v: "connect J (product_ids options) (connection w) = Some (v, sent)"
      "c' = follow Inner w (v, ?c)"
      using step True \<open>_ \<and> in_time w \<and> _\<close> by (auto simp: capture_step_def outer_step_def Let_def)
    have "step_outcome J options w c =
        (if v = Failure \<and> \<not> (late w \<or> stopped (stop_late w)) then Failed else Uneventful)"
      using True \<open>_ \<and> in_time w \<and> _\<close> v(1)
      by (cases v) (auto simp: step_outcome_def step_verdict_def completes_def)
    moreover have "counted os ?c" using os by (simp add: counted_def)
    ultimately show ?thesis using follow_counted [of os ?c] few by (simp add: v(2))
  next
    case False
    then have inner: "phase c = Inner" using \<open>_ \<and> in_time w \<and> _\<close> by simp
    obtain v d where v: "receive J w c = Some (v, d)" "c' = follow Inner w (v, d)"
      using step inner \<open>_ \<and> in_time w \<and> _\<close> by (auto simp: capture_step_def inner_step_def)
    note d = receive_counters [OF v(1) inner]
    show ?thesis
    proof (cases "v = Continue \<and> completes w c")
      case True
      then have "step_outcome J options w c = Recorded"
        using inner \<open>_ \<and> in_time w \<and> _\<close> v(1) by (simp add: step_outcome_def step_verdict_def)
      then show ?thesis using True d os by (simp add: v(2) follow_def counted_def failures_in_a_row_snoc)
    next
      case False
      then have "step_outcome J options w c =
          (if v = Failure \<and> \<not> (late w \<or> stopped (stop_late w)) then Failed else Uneventful)"
        using inner \<open>_ \<and> in_time w \<and> _\<close> v(1)
        by (cases v) (auto simp: step_outcome_def step_verdict_def)
      moreover have "counted os d" "unat (consecutive_failures d) < 5"
        using os d few False by (auto simp: counted_def)
      ultimately show ?thesis using follow_counted by (simp add: v(2))
    qed
  qed
qed

lemma run_capture_counted:
  "counted os c \<Longrightarrow> capture_bounded c \<Longrightarrow> run_capture J options ws c = Some c' \<Longrightarrow>
   counted (os @ outcomes J options ws c) c'"
proof (induction ws arbitrary: c os)
  case (Cons w ws)
  then obtain d where d: "capture_step J options w c = Some d" "run_capture J options ws d = Some c'"
    by (auto simp: bind_eq_Some_conv)
  have "counted ((os @ [step_outcome J options w c]) @ outcomes J options ws d) c'"
    using Cons.prems d by (intro Cons.IH capture_step_counted capture_step_bounded [OF Cons.prems(2) d(1)])
  then show ?case by (simp add: d(1))
qed simp

section \<open>The recording\<close>

definition unlines_of :: "string list \<Rightarrow> string" where
  "unlines_of ls = concat (map (\<lambda>l. l @ [newline]) ls)"

definition record_lines :: "'j json_lib \<Rightarrow> message_record list \<Rightarrow> string list option" where
  "record_lines J recs = those (map (\<lambda>(t, k, m). json_dump J (frame_record J t k m)) recs)"

text \<open>What may be received: frames whose characters satisfy \<open>K\<close>.\<close>

definition receives :: "(char \<Rightarrow> bool) \<Rightarrow> world \<Rightarrow> bool" where
  "receives K w = (case received w of Received f \<Rightarrow> list_all K (frame_data f) | _ \<Rightarrow> True)"

text \<open>
  The partial file, and after the return the published one, is the header line followed by one
  line per recorded message.
\<close>

definition recording_is :: "string \<Rightarrow> string \<Rightarrow> string list \<Rightarrow> capture \<Rightarrow> bool" where
  "recording_is path header lines c \<longleftrightarrow>
     (case phase c of
        Aborted \<Rightarrow> True
      | Returned \<Rightarrow> disk c path = Some (unlines_of (header # lines))
      | _ \<Rightarrow> fresh (output_file c) \<and> destination (output_file c) = path \<and>
             disk c (temporary (output_file c)) = Some (unlines_of (header # lines)))"

text \<open>
  A state agrees with the log so far: the file has one line for each message of the log, they are
  counted, the connections are numbered, and within a connection the buffer is what is pending.
\<close>

definition agrees_with :: "'j json_lib \<Rightarrow> string \<Rightarrow> string \<Rightarrow> event list \<Rightarrow> capture \<Rightarrow> bool" where
  "agrees_with J path header evs c \<longleftrightarrow>
     (\<exists>lines. record_lines J (messages J evs) = Some lines \<and> recorded c = of_nat (length lines) \<and>
        recording_is path header lines c) \<and>
     connection_id c = of_nat (connects evs)"

definition buffers :: "event list \<Rightarrow> capture \<Rightarrow> bool" where
  "buffers evs c \<longleftrightarrow> (if phase c = Inner then message c = pending evs else True)"

lemma record_lines_snoc:
  "record_lines J recs = Some lines \<Longrightarrow> json_dump J (frame_record J t k m) = Some line \<Longrightarrow>
   record_lines J (recs @ [(t, k, m)]) = Some (lines @ [line])"
  unfolding record_lines_def
  by (induction recs arbitrary: lines) (auto split: option.splits)

lemma unlines_snoc: "unlines_of (ls @ [l]) = unlines_of ls @ l @ [newline]"
  by (simp add: unlines_of_def)

lemma write_loop_progress:
  "fd_open w \<Longrightarrow> list_all progresses rs \<Longrightarrow> write_loop w rs data fs = Some (e, rs', fs') \<Longrightarrow>
   e = None \<and> list_all progresses rs' \<and> fs' = append_file (temporary w) data fs"
proof (induction w rs data fs rule: write_loop.induct)
  case (5 w n rs c cs fs)
  then have n: "0 < n" by (simp add: progresses_def)
  then have "e = None \<and> list_all progresses rs' \<and>
      fs' = append_file (temporary w) (drop n (c # cs))
        (append_file (temporary w) (take n (c # cs)) fs)"
    using 5 by simp
  then show ?case by (simp only: append_file_append append_take_drop_id simp_thms)
qed (auto simp: progresses_def)

lemma output_line_progress:
  assumes "fd_open w" and "list_all progresses rs" and "output_line w rs line fs = Some (e, rs', fs')"
  shows "e = None \<and> fs' = append_file (temporary w) (line @ [newline]) fs"
proof -
  obtain e1 rs1 fs1 where 1: "write_loop w rs line fs = Some (e1, rs1, fs1)"
    using assms(3) by (auto simp: output_line_def split: option.splits)
  note p = write_loop_progress [OF assms(1,2) 1]
  then have "write_loop w rs1 [newline] fs1 = Some (e, rs', fs')"
    using assms(3) 1 by (simp add: output_line_def)
  from write_loop_progress [OF assms(1) _ this] p show ?thesis
    by (simp add: append_file_append)
qed

definition live_phase :: "phase \<Rightarrow> bool" where
  "live_phase p \<longleftrightarrow> p = Outer \<or> p = Inner \<or> p = Finishing"

lemma recording_is_live:
  "live_phase (phase c) \<Longrightarrow> recording_is path header lines c \<longleftrightarrow>
     fresh (output_file c) \<and> destination (output_file c) = path \<and>
     disk c (temporary (output_file c)) = Some (unlines_of (header # lines))"
  by (auto simp: live_phase_def recording_is_def)

text \<open>A step that writes nothing and completes no message.\<close>

lemma agrees_with_same:
  assumes ok: "agrees_with J path header evs c" and live: "live_phase (phase c)"
    and "recorded c' = recorded c" and "output_file c' = output_file c" and "disk c' = disk c"
    and "phase c' \<noteq> Returned" and "messages J evs' = messages J evs"
    and "connection_id c' = of_nat (connects evs')"
  shows "agrees_with J path header evs' c'"
proof -
  have "recording_is path header lines c'" if "recording_is path header lines c" for lines
    using that assms(3-6) unfolding recording_is_live [OF live]
    by (cases "phase c'") (simp_all add: recording_is_def)
  then show ?thesis using ok assms(3,7,8) by (auto simp: agrees_with_def)
qed

lemma handle_failure_keeps:
  "recorded (handle_failure w c) = recorded c" "output_file (handle_failure w c) = output_file c"
  "disk (handle_failure w c) = disk c" "connection_id (handle_failure w c) = connection_id c"
  "phase (handle_failure w c) \<noteq> Returned" "phase (handle_failure w c) \<noteq> Inner"
  by (simp_all add: handle_failure_def Let_def)

lemma follow_keeps:
  "recorded (follow next w (v, c)) = recorded c" "output_file (follow next w (v, c)) = output_file c"
  "disk (follow next w (v, c)) = disk c" "connection_id (follow next w (v, c)) = connection_id c"
  "next \<noteq> Returned \<Longrightarrow> phase (follow next w (v, c)) \<noteq> Returned"
  by (cases v; simp add: follow_def handle_failure_keeps)+

lemma follow_agrees:
  assumes "agrees_with J path header evs c" and "live_phase (phase c)"
  shows "agrees_with J path header evs (follow Inner w (v, c))"
  using assms(1) by (intro agrees_with_same [OF assms]) (simp_all add: follow_keeps agrees_with_def)

lemma follow_buffers: "(v = Continue \<Longrightarrow> message c = pending evs) \<Longrightarrow> buffers evs (follow Inner w (v, c))"
  by (cases v) (simp_all add: buffers_def follow_def handle_failure_keeps)

text \<open>A final frame within the limit: its message is one more line, if no write fails.\<close>

lemma record_message_agrees:
  assumes ok: "agrees_with J path header evs c" and live: "live_phase (phase c)"
    and writes: "list_all progresses (writes w)" and size: "length (message c) \<le> maximum_message_size"
    and final: "frame_kind f = Final" and msg: "message c = pending evs @ frame_data f"
    and res: "record_message J w c = Some (v, c')"
  shows "agrees_with J path header (evs @ [Got (wall_time_ns w) f]) c' \<and> live_phase (phase c') \<and>
    (if v = Continue then message c' = [] else True)"
proof -
  let ?m = "(wall_time_ns w, connection_id c, message c)"
  have conn: "connection_id c = of_nat (connects evs)" using ok by (simp add: agrees_with_def)
  have snoc: "messages J (evs @ [Got (wall_time_ns w) f]) = messages J evs @
      (if json_dump J (frame_record J (wall_time_ns w) (connection_id c) (message c)) \<noteq> None then [?m] else [])"
    using size by (simp add: messages_snoc final msg conn Let_def)
  show ?thesis
  proof (cases "json_dump J (frame_record J (wall_time_ns w) (connection_id c) (message c))")
    case None
    then have "c' = c" "v = Failure" using res by (simp_all add: record_message_def)
    moreover have "agrees_with J path header (evs @ [Got (wall_time_ns w) f]) c"
      using ok None snoc by (simp add: agrees_with_def)
    ultimately show ?thesis using live by simp
  next
    case (Some line)
    let ?out = "output_file c"
    obtain lines where lines: "record_lines J (messages J evs) = Some lines" "fresh ?out" "destination ?out = path"
      "disk c (temporary ?out) = Some (unlines_of (header # lines))" "recorded c = of_nat (length lines)"
      using ok by (auto simp: agrees_with_def recording_is_live [OF live])
    obtain e rs fs where out: "output_line ?out (writes w) line (disk c) = Some (e, rs, fs)"
      using res Some by (auto simp: record_message_def split: option.splits)
    have fs: "e = None" "fs = append_file (temporary ?out) (line @ [newline]) (disk c)"
      using output_line_progress [OF _ writes out] lines(2) by (simp_all add: fresh_def)
    have c': "c' = c\<lparr>disk := fs, recorded := recorded c + 1, consecutive_failures := 0, message := []\<rparr>"
      using res Some out fs(1) by (simp add: record_message_def)
    have "disk c' (temporary ?out) = Some (unlines_of (header # lines @ [line]))"
      using lines(4) unlines_snoc [of "header # lines" line] by (simp add: c' fs(2) append_file_def)
    then have "recording_is path header (lines @ [line]) c'" "live_phase (phase c')"
      using lines live by (simp_all add: c' recording_is_live)
    moreover have "record_lines J (messages J (evs @ [Got (wall_time_ns w) f])) = Some (lines @ [line])"
      using record_lines_snoc [OF lines(1) Some] Some by (simp add: snoc)
    ultimately show ?thesis using lines(5) conn by (auto simp: agrees_with_def c')
  qed
qed

lemma handle_frame_agrees:
  assumes ok: "agrees_with J path header evs c" and phase: "phase c = Inner"
    and msg: "message c = pending evs" and size: "length (message c) \<le> maximum_message_size"
    and writes: "list_all progresses (writes w)"
    and res: "handle_frame J w f c = Some (v, c')"
  shows "agrees_with J path header (evs @ [Got (wall_time_ns w) f]) c' \<and> live_phase (phase c') \<and>
    (if v = Continue then message c' = pending (evs @ [Got (wall_time_ns w) f]) else True)"
proof -
  let ?evs = "evs @ [Got (wall_time_ns w) f]"
  have live: "live_phase (phase c)" by (simp add: phase live_phase_def)
  have same: "agrees_with J path header ?evs (c\<lparr>message := m\<rparr>)"
    if "messages J ?evs = messages J evs" for m
    using ok that by (intro agrees_with_same [OF ok live]) (simp_all add: phase agrees_with_def)
  have keep: "c\<lparr>message := message c\<rparr> = c" by simp
  let ?long = "length (frame_data f) > maximum_message_size - length (message c)"
  have long: "?long \<longleftrightarrow> length (pending evs @ frame_data f) > maximum_message_size"
    using size by (auto simp: msg)
  note facts = messages_snoc pending_snoc boundary_def fragment_def data_of_def Let_def
  show ?thesis
  proof (cases "frame_kind f = Final \<and> \<not> ?long")
    case True
    let ?c = "c\<lparr>message := message c @ frame_data f\<rparr>"
    have "record_message J w ?c = Some (v, c')"
      using True res by (simp add: handle_frame_kind Let_def)
    moreover have "agrees_with J path header evs ?c"
      using ok by (intro agrees_with_same [OF ok live]) (simp_all add: phase agrees_with_def)
    moreover have "live_phase (phase ?c)" "message ?c = pending evs @ frame_data f"
      using live msg by simp_all
    moreover have "length (message ?c) \<le> maximum_message_size" using True long msg by simp
    moreover have "frame_kind f = Final" using True by simp
    ultimately have "agrees_with J path header ?evs c' \<and> live_phase (phase c') \<and>
        (if v = Continue then message c' = [] else True)"
      using record_message_agrees [of J path header evs ?c w f v c'] writes by blast
    then show ?thesis using True by (simp add: facts)
  next
    case False
    then have msgs: "messages J ?evs = messages J evs" using long by (auto simp: facts)
    have "v = Failure \<and> c' = c \<or>
        v = Continue \<and> c' = c\<lparr>message := pending ?evs\<rparr>"
      using res False msg keep
      by (cases "frame_kind f") (auto simp: handle_frame_kind facts split: if_splits)
    then show ?thesis using same [OF msgs] same [OF msgs, of "message c"] live by auto
  qed
qed

lemma receive_agrees:
  assumes ok: "agrees_with J path header evs c" and phase: "phase c = Inner"
    and msg: "message c = pending evs" and size: "length (message c) \<le> maximum_message_size"
    and writes: "list_all progresses (writes w)" and time: "in_time w" "\<not> stopped (stop w)"
    and res: "receive J w c = Some (v, c')"
  shows "agrees_with J path header (evs @ step_events w c) c' \<and> live_phase (phase c') \<and>
    (if v = Continue then message c' = pending (evs @ step_events w c) else True)"
proof (cases "\<exists>f. received w = Received f")
  case True
  then obtain f where f: "received w = Received f" ..
  then have "handle_frame J w f c = Some (v, c')" "step_events w c = [Got (wall_time_ns w) f]"
    using res time by (simp_all add: receive_def step_events_def phase)
  then show ?thesis using handle_frame_agrees [OF ok phase msg size writes] by simp
next
  case False
  then have "c' = c" "step_events w c = []"
    using res time by (auto simp: receive_def step_events_def phase split: receive_result.splits)
  then show ?thesis using ok msg phase by (simp add: live_phase_def)
qed

lemma finish_agrees:
  assumes ok: "agrees_with J path header evs c" and "phase c = Finishing"
  shows "agrees_with J path header evs (finish_step w c)"
proof -
  let ?out = "output_file c"
  have live: "live_phase (phase c)" by (simp add: live_phase_def assms(2))
  obtain lines where lines: "record_lines J (messages J evs) = Some lines" "fresh ?out" "destination ?out = path"
    "disk c (temporary ?out) = Some (unlines_of (header # lines))" "recorded c = of_nat (length lines)"
    using ok by (auto simp: agrees_with_def recording_is_live [OF live])
  obtain e out fs where com: "commit (commits w) ?out (disk c) = (e, out, fs)" by (metis prod.exhaust)
  have "e = None \<Longrightarrow> fs path = Some (unlines_of (header # lines))"
    using lines(2,4) com by (cases rule: commit_cases [where env = "commits w"]) (auto simp: lines(3))
  then have "recording_is path header lines (finish_step w c)"
    by (auto simp: finish_step_def Let_def com recording_is_def)
  moreover have "recorded (finish_step w c) = recorded c" "connection_id (finish_step w c) = connection_id c"
    by (simp_all add: finish_step_def Let_def split: prod.split)
  ultimately show ?thesis using ok lines(1,5) by (auto simp: agrees_with_def)
qed

lemma capture_step_agrees:
  assumes ok: "agrees_with J path header evs c" and buf: "buffers evs c" and b: "capture_bounded c"
    and writes: "list_all progresses (writes w)"
    and step: "capture_step J options w c = Some c'"
  shows "agrees_with J path header (evs @ step_events w c) c' \<and> buffers (evs @ step_events w c) c'"
proof (cases "phase c = Outer \<or> phase c = Inner")
  case False
  then have none: "step_events w c = []" by (cases "phase c") (simp_all add: step_events_def)
  show ?thesis
  proof (cases "phase c = Finishing")
    case True
    then have c': "c' = finish_step w c" using step by (simp add: capture_step_def)
    have "phase c' \<noteq> Inner" by (simp add: c' finish_step_def Let_def split: prod.split)
    then show ?thesis using finish_agrees [OF ok True] by (simp add: c' none buffers_def)
  next
    case other: False
    then have "c' = c" using step False by (cases "phase c") (simp_all add: capture_step_def)
    then show ?thesis using ok buf by (simp add: none)
  qed
next
  case True
  then have live: "live_phase (phase c)" by (auto simp: live_phase_def)
  show ?thesis
  proof (cases "\<not> in_time w \<or> stopped (stop w)")
    case late: True
    then have "c' = c\<lparr>phase := Finishing\<rparr> \<or> c' = c\<lparr>phase := Outer\<rparr>"
      using step True by (auto simp: capture_step_def outer_step_def inner_step_def)
    moreover have "agrees_with J path header evs (c\<lparr>phase := p\<rparr>)" if "p \<noteq> Returned" for p
      using ok that by (intro agrees_with_same [OF ok live]) (simp_all add: agrees_with_def)
    ultimately have "agrees_with J path header evs c' \<and> phase c' \<noteq> Inner" by auto
    then show ?thesis using late by (simp add: step_events_def buffers_def)
  next
    case time: False
    show ?thesis
    proof (cases "phase c = Outer")
      case outer: True
      let ?c = "c\<lparr>connection_id := connection_id c + 1, message := []\<rparr>"
      have evs: "step_events w c = [Connecting]" using time outer by (simp add: step_events_def)
      obtain v where c': "c' = follow Inner w (v, ?c)"
        using step outer time by (auto simp: capture_step_def outer_step_def Let_def)
      have "agrees_with J path header (evs @ [Connecting]) ?c"
        using ok outer by (intro agrees_with_same [OF ok live]) (simp_all add: messages_snoc agrees_with_def)
      moreover have "live_phase (phase ?c)" using live by simp
      moreover have "pending (evs @ [Connecting]) = []" by (simp add: pending_snoc boundary_def)
      ultimately show ?thesis
        unfolding evs c' by (intro conjI follow_agrees follow_buffers) simp_all
    next
      case False
      then have inner: "phase c = Inner" using True by simp
      then obtain v d where d: "receive J w c = Some (v, d)" "c' = follow Inner w (v, d)"
        using step time by (auto simp: capture_step_def inner_step_def)
      have "message c = pending evs" using buf inner by (simp add: buffers_def)
      then have "agrees_with J path header (evs @ step_events w c) d \<and> live_phase (phase d) \<and>
          (if v = Continue then message d = pending (evs @ step_events w c) else True)"
        using b time by (intro receive_agrees [OF ok inner _ _ writes _ _ d(1)]) (simp_all add: capture_bounded_def)
      then show ?thesis
        unfolding d(2) by (intro conjI follow_agrees follow_buffers) simp_all
    qed
  qed
qed

lemma run_capture_agrees:
  "agrees_with J path header evs c \<Longrightarrow> buffers evs c \<Longrightarrow> capture_bounded c \<Longrightarrow>
   list_all (\<lambda>w. list_all progresses (writes w)) ws \<Longrightarrow> run_capture J options ws c = Some c' \<Longrightarrow>
   agrees_with J path header (evs @ capture_log J options ws c) c'"
proof (induction ws arbitrary: c evs)
  case (Cons w ws)
  then obtain d where d: "capture_step J options w c = Some d" "run_capture J options ws d = Some c'"
    by (auto simp: bind_eq_Some_conv)
  have "agrees_with J path header (evs @ step_events w c) d \<and> buffers (evs @ step_events w c) d"
    using Cons.prems(4) by (intro capture_step_agrees [OF Cons.prems(1-3) _ d(1)]) simp
  then have "agrees_with J path header ((evs @ step_events w c) @ capture_log J options ws d) c'"
    using Cons.prems(4) by (intro Cons.IH capture_step_bounded [OF Cons.prems(3) d(1)] d(2)) simp_all
  then show ?case by (simp add: d(1))
qed simp

text \<open>The characters of the messages are characters that were received.\<close>

definition logged :: "(char \<Rightarrow> bool) \<Rightarrow> event list \<Rightarrow> bool" where
  "logged K evs \<longleftrightarrow> list_all (\<lambda>e. list_all K (data_of e)) evs"

lemma logged_messages: "logged K evs \<Longrightarrow> list_all (\<lambda>(t, k, m). list_all K m) (messages J evs)"
proof -
  have "logged K evs \<Longrightarrow> list_all K (pending evs) \<and> list_all (\<lambda>(t, k, m). list_all K m) (messages J evs)"
  proof (induction evs rule: rev_induct)
    case (snoc e evs)
    then show ?case
      by (cases e) (auto simp: logged_def pending_snoc messages_snoc data_of_def Let_def)
  qed simp
  then show "logged K evs \<Longrightarrow> list_all (\<lambda>(t, k, m). list_all K m) (messages J evs)" by blast
qed

lemma capture_log_logged: "list_all (receives K) ws \<Longrightarrow> logged K (capture_log J options ws c)"
proof (induction ws arbitrary: c)
  case (Cons w ws)
  have "logged K (step_events w c)"
    using Cons.prems by (auto simp: step_events_def logged_def data_of_def receives_def
        split: phase.split receive_result.split)
  then show ?case using Cons by (auto simp: logged_def split: option.split)
qed (simp add: logged_def)

lemma start_capture_agrees:
  assumes "start_capture J options curl_ready creates rs fs = Some (Inr c, fs')"
    and "list_all progresses rs"
  shows "\<exists>header. json_dump J (capture_metadata J options) = Some header \<and>
    agrees_with J (output_path options) header [] c \<and> buffers [] c \<and> counted [] c \<and> capture_bounded c \<and> phase c = Outer \<and>
    destination (output_file c) = output_path options"
proof -
  obtain out fs1 where new: "new_output (output_path options) creates fs = (Inr out, fs1)"
    using assms(1) by (auto simp: start_capture_def split: if_splits sum.splits prod.splits)
  obtain header where header: "json_dump J (capture_metadata J options) = Some header"
    using assms(1) new by (auto simp: start_capture_def split: if_splits option.splits)
  obtain e rs' fs2 where out: "output_line out rs header fs1 = Some (e, rs', fs2)"
    using assms(1) new header by (auto simp: start_capture_def split: if_splits option.splits)
  note fresh = new_output_fresh [OF new]
  have fs2: "e = None" "fs2 = append_file (temporary out) (header @ [newline]) fs1"
    using output_line_progress [OF _ assms(2) out] fresh by (simp_all add: fresh_def)
  have "c = \<lparr>phase = Outer, connection_id = 0, consecutive_failures = 0, reconnects = 0, recorded = 0,
      interrupted = False, message = [], output_file = out, disk = fs2\<rparr>"
    using assms(1) new header out fs2(1) by (auto simp: start_capture_def split: if_splits)
  then show ?thesis
    using fresh header by (simp add: fs2(2) agrees_with_def buffers_def counted_def recording_is_def record_lines_def
        unlines_of_def append_file_def capture_bounded_def)
qed

section \<open>Giving up\<close>

definition failing :: "'j json_lib \<Rightarrow> capture_options \<Rightarrow> world \<Rightarrow> bool" where
  "failing J options w \<longleftrightarrow> in_time w \<and> \<not> stopped (stop w) \<and> \<not> late w \<and> \<not> stopped (stop_late w) \<and>
     map_option fst (connect J (product_ids options) (connection w)) = Some Failure"

lemma failing_step:
  assumes "failing J options w" and "phase c = Outer" and "unat (consecutive_failures c) < 5"
  shows "\<exists>c'. capture_step J options w c = Some c' \<and> reconnects c' = reconnects c + 1 \<and>
    disk c' = disk c \<and> recorded c' = recorded c \<and>
    unat (consecutive_failures c') = unat (consecutive_failures c) + 1 \<and>
    phase c' = (if unat (consecutive_failures c) = 4 then Aborted else Outer)"
proof -
  obtain sent where conn: "connect J (product_ids options) (connection w) = Some (Failure, sent)"
    using assms(1) by (auto simp: failing_def)
  have u: "unat (consecutive_failures c + 1) = unat (consecutive_failures c) + 1"
    using assms(3) by (intro unat_succ_u64) simp
  then have "maximum_consecutive_failures \<le> consecutive_failures c + 1 \<longleftrightarrow> unat (consecutive_failures c) = 4"
    using assms(3) by (auto simp: maximum_consecutive_failures_def word_nat)
  then show ?thesis
    using assms(1,2) conn u
    by (simp add: capture_step_def outer_step_def failing_def follow_def handle_failure_def Let_def)
qed

lemma failing_run:
  "list_all (failing J options) ws \<Longrightarrow> phase c = Outer \<Longrightarrow>
   unat (consecutive_failures c) + length ws = 5 \<Longrightarrow> ws \<noteq> [] \<Longrightarrow>
   \<exists>c'. run_capture J options ws c = Some c' \<and> phase c' = Aborted \<and>
     reconnects c' = reconnects c + of_nat (length ws) \<and> disk c' = disk c \<and> recorded c' = recorded c"
proof (induction ws arbitrary: c)
  case (Cons w ws)
  then obtain d where d: "capture_step J options w c = Some d" "reconnects d = reconnects c + 1"
    "disk d = disk c" "recorded d = recorded c"
    "unat (consecutive_failures d) = unat (consecutive_failures c) + 1"
    "phase d = (if unat (consecutive_failures c) = 4 then Aborted else Outer)"
    using failing_step [of J options w c] by auto
  show ?case
  proof (cases ws)
    case Nil
    then show ?thesis using Cons.prems(3) d by simp
  next
    case (Cons w' ws')
    then have "unat (consecutive_failures c) \<noteq> 4" using Cons.prems(3) by simp
    then obtain c' where "run_capture J options ws d = Some c'" "phase c' = Aborted"
      "reconnects c' = reconnects d + of_nat (length ws)" "disk c' = disk d" "recorded c' = recorded d"
      using Cons.IH [of d] Cons.prems d Cons by auto
    then show ?thesis using d by simp
  qed
qed simp

section \<open>Reading a recording\<close>

lemma lines_of_unlines: "list_all (\<lambda>l. newline \<notin> set l) ls \<Longrightarrow> lines_of (unlines_of ls) = ls"
proof (induction ls)
  case Nil
  show ?case by (subst lines_of.simps) (simp add: unlines_of_def)
next
  case (Cons l ls)
  have u: "unlines_of (l # ls) = l @ newline # unlines_of ls" by (simp add: unlines_of_def)
  have "takeWhile (\<lambda>c. c \<noteq> newline) (l @ newline # unlines_of ls) = l"
    using Cons.prems by (subst takeWhile_append2) auto
  then show ?case
    using Cons unfolding u by (subst lines_of.simps) (simp add: Let_def)
qed

context json_library
begin

lemma frame_record_encodable: "list_all is_ascii m \<Longrightarrow> encodable (frame_record J t k m)"
  unfolding frame_record_def
  by (intro object_encodable) (auto intro!: string_encodable number_encodable simp: is_ascii_def)

lemma capture_metadata_encodable:
  "list_all is_ascii (endpoint options) \<Longrightarrow> list_all (list_all is_ascii) (product_ids options) \<Longrightarrow>
   encodable (capture_metadata J options)"
  unfolding capture_metadata_def
  by (intro object_encodable)
    (auto intro!: string_encodable number_encodable array_encodable simp: is_ascii_def list_all_iff)

lemma process_recorded_line:
  assumes "list_all is_ascii m" and "json_dump J (frame_record J t k m) = Some line"
    and seen: "metadata_seen r"
  shows "frames (metrics (process_line J line r)) = frames (metrics r) + 1 \<and>
    metadata_seen (process_line J line r) \<and> newline \<notin> set line"
proof -
  note enc = frame_record_encodable [OF assms(1), of t k]
  note facts = dump_line [OF enc assms(2)] parse_dump [OF enc assms(2)]
  have "json_at J (frame_record J t k m) ''type'' \<bind> json_get_string J = Some ''frame''"
    by (simp add: frame_record_def at_object get_string)
  then have rec: "process_record J line r = process_frame J (frame_record J t k m) r"
    using facts seen by (simp add: process_record_def)
  obtain out r' where r': "process_frame J (frame_record J t k m) r = (out, r')" by fastforce
  have "frames (metrics r') = frames (metrics r) + 1" "metadata_seen r'"
    using process_frame_counts [of J "frame_record J t k m" r] seen by (simp_all add: r')
  then show ?thesis
    using facts by (cases out) (simp_all add: process_line_def rec r' count_error_def)
qed

lemma process_recorded_lines:
  "record_lines J recs = Some lines \<Longrightarrow> list_all (\<lambda>(t, k, m). list_all is_ascii m) recs \<Longrightarrow>
   metadata_seen r \<Longrightarrow>
   frames (metrics (fold (process_line J) lines r)) = frames (metrics r) + of_nat (length recs) \<and>
   metadata_seen (fold (process_line J) lines r) \<and> list_all (\<lambda>l. newline \<notin> set l) lines"
proof (induction recs arbitrary: lines r)
  case (Cons rec recs)
  obtain t k m where rec: "rec = (t, k, m)" by (metis prod.exhaust)
  obtain line lines' where l: "json_dump J (frame_record J t k m) = Some line"
    "record_lines J recs = Some lines'" "lines = line # lines'"
    using Cons.prems(1) by (auto simp: record_lines_def rec split: option.splits)
  have "list_all is_ascii m" using Cons.prems(2) by (simp add: rec)
  note one = process_recorded_line [OF this l(1) Cons.prems(3)]
  have "frames (metrics (fold (process_line J) lines' (process_line J line r))) =
      frames (metrics (process_line J line r)) + of_nat (length recs) \<and>
    metadata_seen (fold (process_line J) lines' (process_line J line r)) \<and>
    list_all (\<lambda>l. newline \<notin> set l) lines'"
    using Cons.prems(2) one by (intro Cons.IH l(2)) (simp_all add: rec)
  then show ?case using one by (simp add: l(3) algebra_simps)
qed (simp add: record_lines_def)

lemma process_capture_metadata:
  assumes "list_all is_ascii (endpoint options)" and "list_all (list_all is_ascii) (product_ids options)"
    and "product_ids options \<noteq> []" and "\<forall>p \<in> set (product_ids options). p \<noteq> [] \<and> length p \<le> 20"
    and "json_dump J (capture_metadata J options) = Some header"
  shows "process_line J header new_reader = new_reader\<lparr>metadata_seen := True\<rparr> \<and> newline \<notin> set header"
proof -
  note enc = capture_metadata_encodable [OF assms(1,2)]
  note facts = dump_line [OF enc assms(5)] parse_dump [OF enc assms(5)]
  have "metadata_ok J (capture_metadata J options)"
    using assms(3,4) by (auto simp: metadata_ok_def capture_metadata_def at_object eq_string eq_int
        get_string is_array elements_array product_id_ok_def list_all_iff)
  moreover have "json_at J (capture_metadata J options) ''type'' \<bind> json_get_string J = Some ''metadata''"
    by (simp add: capture_metadata_def at_object get_string)
  ultimately show ?thesis
    using facts by (simp add: process_line_def process_record_def process_metadata_def new_reader_def)
qed

lemma parse_recorded_lines:
  "record_lines J recs = Some lines \<Longrightarrow> list_all (\<lambda>(t, k, m). list_all is_ascii m) recs \<Longrightarrow>
   map (json_parse J) lines = map (\<lambda>(t, k, m). Some (frame_record J t k m)) recs"
proof (induction recs arbitrary: lines)
  case (Cons rec recs)
  obtain t k m where rec: "rec = (t, k, m)" by (metis prod.exhaust)
  then have "list_all is_ascii m" using Cons.prems(2) by simp
  then show ?case
    using Cons parse_dump [OF frame_record_encodable]
    by (auto simp: rec record_lines_def split: option.splits)
qed (simp add: record_lines_def)

lemma read_recording:
  assumes ascii: "list_all is_ascii (endpoint options)" "list_all (list_all is_ascii) (product_ids options)"
    and products: "product_ids options \<noteq> []" "\<forall>p \<in> set (product_ids options). p \<noteq> [] \<and> length p \<le> 20"
    and header: "json_dump J (capture_metadata J options) = Some header"
    and ok: "agrees_with J path header evs c" and "phase c = Returned" and chars: "logged is_ascii evs"
  shows "\<exists>stream. disk c path = Some stream \<and>
    map (json_parse J) (lines_of stream) =
      Some (capture_metadata J options) # map (\<lambda>(t, k, m). Some (frame_record J t k m)) (messages J evs) \<and>
    (list_all line_fits (lines_of stream) \<longrightarrow>
     (\<exists>m ts. read_capture J (Some stream) = (Inr m, ts) \<and> frames m = of_nat (length (messages J evs))))"
proof -
  obtain lines where lines: "record_lines J (messages J evs) = Some lines"
    "disk c path = Some (unlines_of (header # lines))"
    using ok assms(7) by (auto simp: agrees_with_def recording_is_def)
  note all = logged_messages [OF chars, of J]
  note meta = process_capture_metadata [OF ascii products header]
  let ?r = "fold (process_line J) lines (new_reader\<lparr>metadata_seen := True\<rparr>)"
  have r: "frames (metrics ?r) = of_nat (length (messages J evs))" "metadata_seen ?r"
    "list_all (\<lambda>l. newline \<notin> set l) lines"
    using process_recorded_lines [OF lines(1) all, of "new_reader\<lparr>metadata_seen := True\<rparr>"]
    by (simp_all add: new_reader_def no_metrics_def)
  have parts: "lines_of (unlines_of (header # lines)) = header # lines"
    using meta r(3) by (intro lines_of_unlines) simp
  have "read_capture J (Some (unlines_of (header # lines))) = (Inr (metrics ?r), emitted ?r)"
    if "list_all line_fits (header # lines)"
    using that takeWhile_all [of line_fits lines] meta r(2)
    by (simp add: read_capture_def read_loop_spec parts del: takeWhile_eq_all_conv)
  moreover have "json_parse J header = Some (capture_metadata J options)"
    by (rule parse_dump [OF capture_metadata_encodable [OF ascii] header])
  ultimately show ?thesis using lines(2) r(1) parts parse_recorded_lines [OF lines(1) all] by auto
qed

end

section \<open>A write that fails\<close>

text \<open>
  Worlds of an example: a receive on a working connection, with the given results of the writes.
\<close>

definition calm :: "receive_result \<Rightarrow> write_result list \<Rightarrow> world" where
  "calm r rs = \<lparr>in_time = True, stop = No_callback,
     connection = \<lparr>handle_ready = True, perform = Performed, stop_aborted = No_callback,
       subscribe_sends = [], heartbeat_sends = []\<rparr>,
     received = r, wall_time_ns = 0, writes = rs, late = False, stop_late = No_callback,
     commits = nothing_fails\<rparr>"

lemma calm_fields [simp]:
  "in_time (calm r rs)" "stop (calm r rs) = No_callback" "received (calm r rs) = r"
  "wall_time_ns (calm r rs) = 0" "writes (calm r rs) = rs" "\<not> late (calm r rs)"
  "stop_late (calm r rs) = No_callback"
  by (simp_all add: calm_def)

definition calm_connect :: "nat \<Rightarrow> nat \<Rightarrow> world" where
  "calm_connect a b = (calm Receive_failed [])\<lparr>connection :=
     \<lparr>handle_ready = True, perform = Performed, stop_aborted = No_callback,
      subscribe_sends = [(No_callback, Sent a)], heartbeat_sends = [(No_callback, Sent b)]\<rparr>\<rparr>"

definition time_up :: world where
  "time_up = (calm Receive_failed [])\<lparr>in_time := False\<rparr>"

definition whole_message :: "string \<Rightarrow> receive_result" where
  "whole_message m = Received \<lparr>is_text = True, is_binary = False, is_cont = False, is_close = False,
     is_ping_or_pong = False, frame_data = m, bytes_left = 0\<rparr>"

text \<open>The kernel takes \<open>n\<close> bytes of the first line, then refuses; the second line is written.\<close>

definition torn_run :: "nat \<Rightarrow> nat \<Rightarrow> nat \<Rightarrow> nat \<Rightarrow> string \<Rightarrow> string \<Rightarrow> world list" where
  "torn_run n a b k m1 m2 =
     [calm (whole_message m1) [Wrote n, Refused], calm_connect a b,
      calm (whole_message m2) [Wrote k, Wrote 1], time_up, time_up, time_up]"

lemma output_line_torn:
  assumes "fd_open w" and "0 < n" and "n < length line"
  shows "output_line w [Wrote n, Refused] line fs =
    Some (Some Write_error, [], append_file (temporary w) (take n line) fs)"
proof -
  obtain c cs where line: "line = c # cs" using assms(3) by (cases line) auto
  obtain d ds where rest: "drop n line = d # ds" using assms(3) by (cases "drop n line") auto
  show ?thesis using assms rest unfolding line by (simp add: output_line_def)
qed

lemma output_line_whole:
  assumes "fd_open w" and "line \<noteq> []"
  shows "output_line w [Wrote (length line), Wrote 1] line fs =
    Some (None, [], append_file (temporary w) (line @ [newline]) fs)"
proof -
  obtain c cs where line: "line = c # cs" using assms(2) by (cases line) auto
  show ?thesis using assms unfolding line by (simp add: output_line_def append_file_append)
qed

lemma send_all_whole:
  assumes "payload \<noteq> []"
  shows "send_all [(No_callback, Sent (length payload))] payload 0 = Some (Continue, payload)"
  using assms by (simp add: send_all.simps stopped_def)

lemma calm_frame_step:
  assumes "phase c = Inner" and "message c = []" and "length m \<le> maximum_message_size"
  shows "capture_step J options (calm (whole_message m) rs) c =
    map_option (follow Inner (calm (whole_message m) rs))
      (record_message J (calm (whole_message m) rs) (c\<lparr>message := m\<rparr>))"
  using assms by (simp add: capture_step_def inner_step_def receive_def handle_frame_def calm_def
      whole_message_def stopped_def)

lemma calm_connect_step:
  assumes "phase c = Outer" and "subscription J (product_ids options) ''market_trades'' = Some sub"
    and "subscription J (product_ids options) ''heartbeats'' = Some hb" and "sub \<noteq> []" and "hb \<noteq> []"
  shows "capture_step J options (calm_connect (length sub) (length hb)) c =
    Some (c\<lparr>connection_id := connection_id c + 1, message := [], phase := Inner\<rparr>)"
  using assms by (simp add: capture_step_def outer_step_def calm_connect_def calm_def connect_def
      send_all_whole stopped_def follow_def Let_def)

lemma time_up_steps:
  assumes "phase c = Inner" and "recorded c \<noteq> 0" and "fresh (output_file c)"
    and "disk c (temporary (output_file c)) = Some content"
    and "disk c (destination (output_file c)) = None"
  shows "\<exists>c'. run_capture J options [time_up, time_up, time_up] c = Some c' \<and> phase c' = Returned \<and>
    disk c' (destination (output_file c)) = Some content"
proof -
  let ?env = "commits time_up"
  have ok: "syncs ?env" "closes ?env" "links ?env" "unlinks ?env" "sync_parent (parent ?env) = None"
    by (simp_all add: time_up_def calm_def)
  obtain w' fs where com: "commit ?env (output_file c) (disk c) = (None, w', fs)"
    "fs (destination (output_file c)) = Some content"
    using assms(3-5) ok fresh_paths [OF assms(3)] by (simp add: commit_def fresh_def Let_def)
  have late: "\<not> in_time time_up" "\<not> stopped (stop time_up)"
    by (simp_all add: time_up_def calm_def stopped_def)
  show ?thesis
    using assms(1,2) com late
    by (simp add: capture_step_def inner_step_def outer_step_def finish_step_def Let_def)
qed

lemma torn_run_commits:
  assumes c: "phase c = Inner" "message c = []" "consecutive_failures c = 0" "recorded c + 1 \<noteq> 0"
    and files: "fresh (output_file c)" "disk c (temporary (output_file c)) = Some old"
      "disk c (destination (output_file c)) = None"
    and lines: "json_dump J (frame_record J 0 (connection_id c) m1) = Some line1"
      "json_dump J (frame_record J 0 (connection_id c + 1) m2) = Some line2" "line2 \<noteq> []"
    and subs: "subscription J (product_ids options) ''market_trades'' = Some sub"
      "subscription J (product_ids options) ''heartbeats'' = Some hb" "sub \<noteq> []" "hb \<noteq> []"
    and sizes: "0 < n" "n < length line1" "length m1 \<le> maximum_message_size"
      "length m2 \<le> maximum_message_size"
  shows "\<exists>c'. run_capture J options (torn_run n (length sub) (length hb) (length line2) m1 m2) c = Some c' \<and>
    phase c' = Returned \<and>
    disk c' (destination (output_file c)) = Some (old @ take n line1 @ line2 @ [newline])"
proof -
  let ?w1 = "calm (whole_message m1) [Wrote n, Refused]"
  let ?w2 = "calm (whole_message m2) [Wrote (length line2), Wrote 1]"
  let ?temp = "temporary (output_file c)" and ?out = "output_file c"
  have fd: "fd_open ?out" using files(1) by (simp add: fresh_def)
  let ?d1 = "append_file ?temp (take n line1) (disk c)"
  let ?c1 = "c\<lparr>message := m1, disk := ?d1, reconnects := reconnects c + 1,
    consecutive_failures := 1, phase := Outer\<rparr>"
  have "record_message J ?w1 (c\<lparr>message := m1\<rparr>) = Some (Failure, c\<lparr>message := m1, disk := ?d1\<rparr>)"
    using lines(1) output_line_torn [OF fd sizes(1,2)] by (simp add: record_message_def)
  moreover have "\<not> (5 :: u64) \<le> 1" by (simp add: word_nat)
  ultimately have s1: "capture_step J options ?w1 c = Some ?c1"
    using calm_frame_step [OF c(1,2) sizes(3), of J options "[Wrote n, Refused]"] c(3)
    by (simp add: follow_def handle_failure_def stopped_def Let_def
        maximum_consecutive_failures_def)
  let ?c2 = "?c1\<lparr>connection_id := connection_id c + 1, message := [], phase := Inner\<rparr>"
  have s2: "capture_step J options (calm_connect (length sub) (length hb)) ?c1 = Some ?c2"
    using calm_connect_step [OF _ subs, of ?c1] by simp
  let ?d2 = "append_file ?temp (line2 @ [newline]) ?d1"
  let ?c3 = "?c2\<lparr>disk := ?d2, recorded := recorded c + 1, consecutive_failures := 0\<rparr>"
  have "record_message J ?w2 (?c2\<lparr>message := m2\<rparr>) =
      Some (Continue, ?c3)"
    using lines(2) output_line_whole [OF fd lines(3), of ?d1] by (simp add: record_message_def)
  then have s3: "capture_step J options ?w2 ?c2 = Some ?c3"
    using calm_frame_step [OF _ _ sizes(4), of ?c2 J options "[Wrote (length line2), Wrote 1]"] by (simp add: follow_def)
  have "?d2 ?temp = Some (old @ take n line1 @ line2 @ [newline])"
    using files(2) by (simp add: append_file_def)
  moreover have "?d2 (destination ?out) = None"
    using files(3) fresh_paths [OF files(1)] by (simp add: append_file_other)
  ultimately have "\<exists>c'. run_capture J options [time_up, time_up, time_up] ?c3 = Some c' \<and>
      phase c' = Returned \<and>
      disk c' (destination (output_file ?c3)) = Some (old @ take n line1 @ line2 @ [newline])"
    using c(4) files(1) by (intro time_up_steps) simp_all
  moreover have "run_capture J options (torn_run n (length sub) (length hb) (length line2) m1 m2) c =
      run_capture J options [time_up, time_up, time_up] ?c3"
    unfolding torn_run_def by (simp only: run_capture.simps s1 s2 s3 bind.bind_lunit)
  ultimately show ?thesis by simp
qed

section \<open>Examples\<close>

text \<open>
  A library whose every dump is the same two bytes, the options of a capture and its start, and a
  run that records one message.
\<close>

definition short_json :: "jvalue json_lib" where
  "short_json = json_model\<lparr>json_dump := (\<lambda>v. Some ''xy'')\<rparr>"

definition example_options :: capture_options where
  "example_options = \<lparr>output_path = ''out'', product_ids = [''BTC-USD''], duration = 30, endpoint = ''wss''\<rparr>"

definition example_start :: "string \<Rightarrow> capture" where
  "example_start header = \<lparr>phase = Outer, connection_id = 0, consecutive_failures = 0, reconnects = 0,
     recorded = 0, interrupted = False, message = [],
     output_file = \<lparr>destination = ''out'', temporary = ''out.part'', fd_open = True, committed = False\<rparr>,
     disk = [''out.part'' \<mapsto> header @ [newline]]\<rparr>"

definition example_run :: "nat \<Rightarrow> nat \<Rightarrow> nat \<Rightarrow> string \<Rightarrow> world list" where
  "example_run a b n m = [calm_connect a b, calm (whole_message m) [Wrote n, Wrote 1], time_up, time_up, time_up]"

lemma example_starts:
  assumes "json_dump J (capture_metadata J example_options) = Some header" and "header \<noteq> []"
  shows "start_capture J example_options True True [Wrote (length header), Wrote 1] Map.empty =
    Some (Inr (example_start header), disk (example_start header))"
  using assms
  by (simp add: start_capture_def example_options_def new_output_def filename_def Let_def
      output_line_whole [unfolded One_nat_def] example_start_def append_file_def)

lemma late_log: "list_all (\<lambda>w. \<not> in_time w \<or> stopped (stop w)) ws \<Longrightarrow> capture_log J options ws c = []"
  by (induction ws arbitrary: c) (auto simp: step_events_def split: option.split)

lemma example_run_returns:
  assumes subs: "subscription J (product_ids example_options) ''market_trades'' = Some sub"
      "subscription J (product_ids example_options) ''heartbeats'' = Some hb" "sub \<noteq> []" "hb \<noteq> []"
    and line: "json_dump J (frame_record J 0 1 m) = Some line" "line \<noteq> []" "length m \<le> maximum_message_size"
  shows "\<exists>c. run_capture J example_options (example_run (length sub) (length hb) (length line) m)
        (example_start header) = Some c \<and> phase c = Returned \<and>
      disk c ''out'' = Some (header @ [newline] @ line @ [newline])"
    and "messages J (capture_log J example_options (example_run (length sub) (length hb) (length line) m)
      (example_start header)) = [(0, 1, m)]"
proof -
  let ?s = "example_start header" and ?out = "output_file (example_start header)"
  let ?c1 = "?s\<lparr>connection_id := 1, message := [], phase := Inner\<rparr>"
  have s1: "capture_step J example_options (calm_connect (length sub) (length hb)) ?s = Some ?c1"
    using calm_connect_step [of ?s, OF _ subs] by (simp add: example_start_def)
  let ?w = "calm (whole_message m) [Wrote (length line), Wrote 1]"
  let ?c2 = "?c1\<lparr>disk := append_file (temporary ?out) (line @ [newline]) (disk ?s), recorded := 1\<rparr>"
  have "record_message J ?w (?c1\<lparr>message := m\<rparr>) = Some (Continue, ?c2)"
    using output_line_whole [of ?out line "disk ?s"] line(1,2)
    by (simp add: record_message_def example_start_def)
  then have s2: "capture_step J example_options ?w ?c1 = Some ?c2"
    using calm_frame_step [of ?c1 m J example_options "[Wrote (length line), Wrote 1]"] line(3)
    by (simp add: follow_def)
  have "\<exists>c'. run_capture J example_options [time_up, time_up, time_up] ?c2 = Some c' \<and> phase c' = Returned \<and>
      disk c' (destination (output_file ?c2)) = Some (header @ [newline] @ line @ [newline])"
    by (intro time_up_steps) (simp_all add: example_start_def fresh_def append_file_def)
  then show "\<exists>c. run_capture J example_options (example_run (length sub) (length hb) (length line) m)
        (example_start header) = Some c \<and> phase c = Returned \<and>
      disk c ''out'' = Some (header @ [newline] @ line @ [newline])"
    unfolding example_run_def by (simp only: run_capture.simps s1 s2 bind.bind_lunit) (simp add: example_start_def)
  have "capture_log J example_options [time_up, time_up, time_up] ?c2 = []"
    by (rule late_log) (simp add: time_up_def)
  moreover have "step_events (calm_connect (length sub) (length hb)) ?s = [Connecting]"
    by (simp add: step_events_def calm_connect_def calm_def stopped_def example_start_def)
  moreover obtain f where "step_events ?w ?c1 = [Got 0 f]" "frame_kind f = Final" "frame_data f = m"
    by (simp add: step_events_def stopped_def whole_message_def frame_kind_def)
  ultimately have log: "capture_log J example_options (example_run (length sub) (length hb) (length line) m) ?s =
      [Connecting] @ [Got 0 f]" and f: "frame_kind f = Final" "frame_data f = m"
    unfolding example_run_def by (simp_all only: capture_log.simps s1 s2 option.case append.simps append_Nil2)
  have "connects [Connecting] = 1" "pending [Connecting] = []"
    using connects_snoc [of "[]" Connecting] pending_snoc [of "[]" Connecting] by (simp_all add: boundary_def)
  then show "messages J (capture_log J example_options (example_run (length sub) (length hb) (length line) m) ?s) = [(0, 1, m)]"
    unfolding log messages_snoc using messages_snoc [of J "[]" Connecting] line(1,3)
    by (simp add: f Let_def)
qed

lemma short_json_dumps:
  "subscription short_json ps channel = Some ''xy''" "json_dump short_json v = Some ''xy''"
  by (simp_all add: subscription_def short_json_def)

lemma short_json_run:
  "\<exists>c. run_capture short_json example_options (example_run 2 2 2 ''{}'') (example_start header) = Some c \<and>
     phase c = Returned \<and> disk c ''out'' = Some (header @ [newline] @ ''xy'' @ [newline])"
  "messages short_json (capture_log short_json example_options (example_run 2 2 2 ''{}'') (example_start header)) =
     [(0, 1, ''{}'')]"
  using example_run_returns [where J = short_json and m = "''{}''" and header = header,
      OF short_json_dumps(1) short_json_dumps(1) _ _ short_json_dumps(2)]
  by (simp_all add: maximum_message_size_def numeral_2_eq_2)

lemma example_run_writes:
  "0 < n \<Longrightarrow> list_all (\<lambda>w. list_all progresses (writes w)) (example_run a b n m)"
  by (simp add: example_run_def calm_connect_def time_up_def progresses_def)

text \<open>Connection attempts that fail.\<close>

definition failing_world :: world where
  "failing_world = (calm Receive_failed [])\<lparr>connection :=
     \<lparr>handle_ready = True, perform = Perform_failed, stop_aborted = No_callback,
      subscribe_sends = [], heartbeat_sends = []\<rparr>\<rparr>"

lemma failing_world: "failing J options failing_world"
  by (simp add: failing_world_def failing_def stopped_def connect_def)

lemma failing_outcomes:
  "list_all (failing J options) ws \<Longrightarrow> phase c = Outer \<Longrightarrow> unat (consecutive_failures c) + length ws \<le> 5 \<Longrightarrow>
   outcomes J options ws c = replicate (length ws) Failed"
proof (induction ws arbitrary: c)
  case (Cons w ws)
  then have "failing J options w" "unat (consecutive_failures c) < 5" by simp_all
  from failing_step [OF this(1) Cons.prems(2) this(2)] obtain d where d: "capture_step J options w c = Some d"
    "unat (consecutive_failures d) = unat (consecutive_failures c) + 1"
    "phase d = (if unat (consecutive_failures c) = 4 then Aborted else Outer)" by blast
  have "step_outcome J options w c = Failed"
    using Cons.prems by (auto simp: step_outcome_def step_verdict_def failing_def)
  moreover have "outcomes J options ws d = replicate (length ws) Failed"
    using Cons.IH [of d] Cons.prems d by (cases ws) (auto split: if_splits)
  ultimately show ?case by (simp add: d(1))
qed simp

lemma failing_world_run:
  "\<exists>c. run_capture J options (replicate 5 failing_world) (example_start header) = Some c"
  "failures_in_a_row (outcomes J options (replicate 5 failing_world) (example_start header)) = 5"
proof -
  have all: "list_all (failing J options) (replicate 5 failing_world)"
    by (intro list_all_replicate failing_world)
  show "\<exists>c. run_capture J options (replicate 5 failing_world) (example_start header) = Some c"
    using failing_run [OF all, of "example_start header"] by (auto simp: example_start_def)
  show "failures_in_a_row (outcomes J options (replicate 5 failing_world) (example_start header)) = 5"
    using failing_outcomes [OF all, of "example_start header"]
    by (simp add: example_start_def failures_in_a_row_def failures_def)
qed

text \<open>The texts of the example with the library of JsonModel.\<close>

lemma example_texts:
  obtains header sub hb line
  where "json_dump json_model (capture_metadata json_model example_options) = Some header"
    and "subscription json_model (product_ids example_options) ''market_trades'' = Some sub"
    and "subscription json_model (product_ids example_options) ''heartbeats'' = Some hb"
    and "json_dump json_model (frame_record json_model 0 1 ''{}'') = Some line"
    and "header \<noteq> []" and "sub \<noteq> []" and "hb \<noteq> []" and "line \<noteq> []"
    and "line_fits header" and "line_fits line" and "newline \<notin> set header" and "newline \<notin> set line"
proof -
  have ascii: "list_all is_ascii (endpoint example_options)"
    "list_all (list_all is_ascii) (product_ids example_options)" "list_all is_ascii ''{}''"
    by (simp_all add: example_options_def is_ascii_def)
  note enc = json_model.capture_metadata_encodable [OF ascii(1,2)]
    json_model.frame_record_encodable [OF ascii(3), of 0 1]
  have sub_enc: "jencodable (json_object json_model
      [(''type'', json_string json_model ''subscribe''),
       (''product_ids'', json_array json_model (map (json_string json_model) (product_ids example_options))),
       (''channel'', json_string json_model channel)])" if "list_all is_ascii channel" for channel
    using that by (intro json_model.object_encodable)
      (auto intro!: json_model.string_encodable json_model.array_encodable simp: example_options_def is_ascii_def)
  have sub: "\<exists>s. subscription json_model (product_ids example_options) channel = Some s \<and> s \<noteq> []"
    if "list_all is_ascii channel" for channel
    using json_model.dump_encodable [OF sub_enc [OF that]] json_model.dump_line [OF sub_enc [OF that]]
    unfolding subscription_def by blast
  obtain header line where texts: "json_dump json_model (capture_metadata json_model example_options) = Some header"
    "json_dump json_model (frame_record json_model 0 1 ''{}'') = Some line"
    using json_model.dump_encodable [OF enc(1)] json_model.dump_encodable [OF enc(2)] by blast
  have one: "length (to_string 0) \<le> 1" "length (to_string 1) \<le> 1"
    using length_show_nat_le [of 0 0] length_show_nat_le [of 1 0] by (simp_all add: to_string_def)
  have "header = jprint (capture_metadata json_model example_options)"
    "line = jprint (frame_record json_model 0 1 ''{}'')"
    using texts by (simp_all add: json_model_def split: if_splits)
  then have fits: "line_fits header" "line_fits line"
    using one unfolding capture_metadata_def frame_record_def example_options_def line_fits_def maximum_record_size_def
    by (simp_all add: json_model_def print_text_def escape_def newline_def)
  obtain sub1 hb1 where
    "subscription json_model (product_ids example_options) ''market_trades'' = Some sub1" "sub1 \<noteq> []"
    "subscription json_model (product_ids example_options) ''heartbeats'' = Some hb1" "hb1 \<noteq> []"
    using sub [of "''market_trades''"] sub [of "''heartbeats''"] by (auto simp: is_ascii_def)
  then show ?thesis
    using that texts fits json_model.dump_line [OF enc(1) texts(1)] json_model.dump_line [OF enc(2) texts(2)]
    by blast
qed

section \<open>The end of the loop\<close>

fun steps_left :: "phase \<Rightarrow> nat" where
  "steps_left Inner = 3"
| "steps_left Outer = 2"
| "steps_left Finishing = 1"
| "steps_left Returned = 0"
| "steps_left Aborted = 0"

lemma steps_left_le: "steps_left p \<le> 3"
  by (cases p) simp_all

lemma steps_left_0: "steps_left p = 0 \<longleftrightarrow> p = Returned \<or> p = Aborted"
  by (cases p) simp_all

lemma late_step:
  assumes "\<not> in_time w \<or> stopped (stop w)"
  shows "\<exists>c'. capture_step J options w c = Some c' \<and> steps_left (phase c') \<le> steps_left (phase c) - 1"
  using assms
  by (cases "phase c") (auto simp: capture_step_def inner_step_def outer_step_def finish_step_def Let_def
      split: prod.split)

lemma late_run_ends:
  "list_all (\<lambda>w. \<not> in_time w \<or> stopped (stop w)) ws \<Longrightarrow> steps_left (phase c) \<le> length ws \<Longrightarrow>
   \<exists>c'. run_capture J options ws c = Some c' \<and> steps_left (phase c') = 0"
proof (induction ws arbitrary: c)
  case (Cons w ws)
  then obtain c' where c': "capture_step J options w c = Some c'"
    "steps_left (phase c') \<le> steps_left (phase c) - 1"
    using late_step [of w J options c] by auto
  then have "steps_left (phase c') \<le> length ws" using Cons.prems by simp
  with Cons c' show ?case by simp
qed simp

section \<open>Properties\<close>

text \<open>
  C7. The recording is exact: if no write of the run fails, then at every moment until an exception
  the partial file, and after the return the published file, is the metadata line followed by one
  line for each message of the log, in order, with its time and connection. The messages are those
  that the frames received add up to: fragments are joined, pings, binary and incomplete messages
  leave no line, and a new connection starts afresh. The frame count is their number.
\<close>

theorem capture_recording_exact:
  assumes "start_capture J options curl_ready creates rs fs = Some (Inr c0, fs')"
    and "list_all progresses rs" and "list_all (\<lambda>w. list_all progresses (writes w)) ws"
    and "run_capture J options ws c0 = Some c"
  shows "\<exists>header lines. json_dump J (capture_metadata J options) = Some header \<and>
    record_lines J (messages J (capture_log J options ws c0)) = Some lines \<and>
    recorded c = of_nat (length lines) \<and> recording_is (output_path options) header lines c"
proof -
  obtain header where header: "json_dump J (capture_metadata J options) = Some header"
    and start: "agrees_with J (output_path options) header [] c0" "buffers [] c0" "capture_bounded c0"
    using start_capture_agrees [OF assms(1,2)] by blast
  show ?thesis
    using header run_capture_agrees [OF start assms(3,4)] by (auto simp: agrees_with_def)
qed

theorem capture_recording_exact_witness:
  "\<exists>c header lines. run_capture short_json example_options (example_run 2 2 2 ''{}'') (example_start ''xy'') = Some c \<and>
     phase c = Returned \<and> messages short_json (capture_log short_json example_options (example_run 2 2 2 ''{}'') (example_start ''xy''))
       = [(0, 1, ''{}'')] \<and>
     record_lines short_json [(0, 1, ''{}'')] = Some lines \<and> recording_is ''out'' header lines c"
proof -
  obtain c where c: "run_capture short_json example_options (example_run 2 2 2 ''{}'') (example_start ''xy'') = Some c"
    "phase c = Returned"
    "messages short_json (capture_log short_json example_options (example_run 2 2 2 ''{}'') (example_start ''xy'')) = [(0, 1, ''{}'')]"
    using short_json_run [of "''xy''"] by blast
  have start: "start_capture short_json example_options True True [Wrote (length ''xy''), Wrote 1] Map.empty =
      Some (Inr (example_start ''xy''), disk (example_start ''xy''))"
    by (rule example_starts) (simp_all add: short_json_def)
  have rs: "list_all progresses [Wrote (length ''xy''), Wrote 1]" by (simp add: progresses_def)
  from capture_recording_exact [OF start rs example_run_writes [of 2] c(1)] c show ?thesis
    by (auto simp: example_options_def)
qed

text \<open>
  C12. Bounds of the loop, in every state after any run, failing writes included: the message buffer
  holds at most 4 MiB; the outcomes of the iterations since the last recorded message contain at
  most five failures, and at most four unless the capture has thrown, so a fifth failure in a row is
  not survived; every failure counts as one reconnect; and a capture that returned recorded a frame
  or was interrupted.
\<close>

theorem capture_loop_bounded:
  assumes "start_capture J options curl_ready creates rs fs = Some (Inr c0, fs')"
    and "run_capture J options ws c0 = Some c"
  shows "length (message c) \<le> maximum_message_size \<and>
    failures_in_a_row (outcomes J options ws c0) \<le> 5 \<and>
    (failures_in_a_row (outcomes J options ws c0) \<le> 4 \<or> phase c = Aborted) \<and>
    reconnects c = of_nat (failures (outcomes J options ws c0)) \<and>
    (phase c = Returned \<longrightarrow> recorded c \<noteq> 0 \<or> interrupted c)"
proof -
  have start: "capture_bounded c0" "counted [] c0"
    using assms(1) by (auto simp: start_capture_def capture_bounded_def counted_def
        split: if_splits option.splits sum.splits prod.splits)
  have "capture_bounded c" by (rule run_capture_bounded [OF start(1) assms(2)])
  moreover have "counted (outcomes J options ws c0) c"
    using run_capture_counted [OF start(2,1) assms(2)] by simp
  ultimately show ?thesis by (auto simp: capture_bounded_def counted_def le_less)
qed

theorem capture_loop_bounded_witness:
  "\<exists>c. run_capture short_json example_options (replicate 5 failing_world) (example_start ''xy'') = Some c \<and>
     failures_in_a_row (outcomes short_json example_options (replicate 5 failing_world) (example_start ''xy'')) = 5 \<and>
     phase c = Aborted"
proof -
  obtain c where c: "run_capture short_json example_options (replicate 5 failing_world) (example_start ''xy'') = Some c"
    "failures_in_a_row (outcomes short_json example_options (replicate 5 failing_world) (example_start ''xy'')) = 5"
    using failing_world_run by blast
  have "start_capture short_json example_options True True [Wrote (length ''xy''), Wrote 1] Map.empty =
      Some (Inr (example_start ''xy''), disk (example_start ''xy''))"
    by (rule example_starts) (simp_all add: short_json_def)
  from capture_loop_bounded [OF this c(1)] c show ?thesis by auto
qed

text \<open>
  C13. Termination: from any state, once the time is up or a stop is requested, the capture has
  returned or thrown within three iterations, whatever the network and the files do.
\<close>

theorem capture_ends:
  assumes "length ws = 3" and "list_all (\<lambda>w. \<not> in_time w \<or> stopped (stop w)) ws"
  shows "\<exists>c'. run_capture J options ws c = Some c' \<and> (phase c' = Returned \<or> phase c' = Aborted)"
  using late_run_ends [OF assms(2), of c J options] steps_left_le [of "phase c"] assms(1)
  by (auto simp: steps_left_0)

theorem capture_ends_witness:
  "\<exists>c'. run_capture short_json example_options [time_up, time_up, time_up] (example_start ''xy'') = Some c' \<and>
     (phase c' = Returned \<or> phase c' = Aborted)"
  by (rule capture_ends) (simp_all add: time_up_def calm_def)

text \<open>
  C27. Giving up: five connection attempts in a row that fail, with time left and no stop request,
  end the capture with an error; the output is left as it was and nothing is published.
\<close>

theorem capture_gives_up:
  assumes "phase c = Outer" and "consecutive_failures c = 0" and "length ws = 5"
    and "list_all (failing J options) ws"
  shows "\<exists>c'. run_capture J options ws c = Some c' \<and> phase c' = Aborted \<and>
    reconnects c' = reconnects c + 5 \<and> disk c' = disk c \<and> recorded c' = recorded c"
  using failing_run [OF assms(4,1)] assms(2,3) by fastforce

theorem capture_gives_up_witness:
  "\<exists>c'. run_capture short_json example_options (replicate 5 failing_world) (example_start ''xy'') = Some c' \<and>
     phase c' = Aborted \<and> reconnects c' = 5"
proof -
  have "list_all (failing short_json example_options) (replicate 5 failing_world)"
    by (intro list_all_replicate failing_world)
  from capture_gives_up [OF _ _ _ this, of "example_start ''xy''"] show ?thesis
    by (auto simp: example_start_def)
qed


text \<open>
  C6. Round trip: a capture of ASCII text that returned and in which no write failed has published a
  file whose lines parse back to the metadata and to the record of each message of the log, in
  order; the reader accepts it, if its lines are within the record limit, and counts exactly these
  messages as frames.
\<close>

theorem recording_replays:
  assumes "json_library J encodable"
    and "start_capture J options curl_ready creates rs fs = Some (Inr c0, fs')"
    and "list_all progresses rs" and "list_all (\<lambda>w. list_all progresses (writes w)) ws"
    and "list_all (receives is_ascii) ws"
    and "run_capture J options ws c0 = Some c" and "phase c = Returned"
    and "list_all is_ascii (endpoint options)" and "list_all (list_all is_ascii) (product_ids options)"
  shows "\<exists>stream. disk c (output_path options) = Some stream \<and>
    map (json_parse J) (lines_of stream) = Some (capture_metadata J options) #
      map (\<lambda>(t, k, m). Some (frame_record J t k m)) (messages J (capture_log J options ws c0)) \<and>
    (list_all line_fits (lines_of stream) \<longrightarrow>
     (\<exists>m ts. read_capture J (Some stream) = (Inr m, ts) \<and>
        frames m = of_nat (length (messages J (capture_log J options ws c0)))))"
proof -
  obtain header where start: "json_dump J (capture_metadata J options) = Some header"
    "agrees_with J (output_path options) header [] c0" "buffers [] c0" "capture_bounded c0"
    using start_capture_agrees [OF assms(2,3)] by blast
  have agrees: "agrees_with J (output_path options) header (capture_log J options ws c0) c"
    using run_capture_agrees [OF start(2-4) assms(4,6)] by simp
  have products: "product_ids options \<noteq> []" "\<forall>p \<in> set (product_ids options). p \<noteq> [] \<and> length p \<le> 20"
    using assms(2) by (auto simp: start_capture_def split: if_splits)
  show ?thesis
    by (rule json_library.read_recording [OF assms(1,8,9) products start(1) agrees assms(7)
          capture_log_logged [OF assms(5)]])
qed

theorem recording_replays_witness:
  "\<exists>header a b n c stream m ts. run_capture json_model example_options (example_run a b n ''{}'')
       (example_start header) = Some c \<and> phase c = Returned \<and> disk c ''out'' = Some stream \<and>
     read_capture json_model (Some stream) = (Inr m, ts) \<and> frames m = 1"
proof -
  obtain header sub hb line where model: "json_dump json_model (capture_metadata json_model example_options) = Some header"
    "subscription json_model (product_ids example_options) ''market_trades'' = Some sub"
    "subscription json_model (product_ids example_options) ''heartbeats'' = Some hb"
    "json_dump json_model (frame_record json_model 0 1 ''{}'') = Some line"
    "header \<noteq> []" "sub \<noteq> []" "hb \<noteq> []" "line \<noteq> []" "line_fits header" "line_fits line"
    "newline \<notin> set header" "newline \<notin> set line"
    by (rule example_texts)
  have ascii: "list_all is_ascii (endpoint example_options)"
    "list_all (list_all is_ascii) (product_ids example_options)"
    by (simp_all add: example_options_def is_ascii_def)
  let ?ws = "example_run (length sub) (length hb) (length line) ''{}''"
  note start = example_starts [OF model(1,5)]
  have rs: "list_all progresses [Wrote (length header), Wrote 1]" using model(5) by (simp add: progresses_def)
  have ws: "list_all (\<lambda>w. list_all progresses (writes w)) ?ws" "list_all (receives is_ascii) ?ws"
    using model(8) example_run_writes
    by (simp_all add: example_run_def receives_def calm_connect_def time_up_def whole_message_def is_ascii_def)
  have small: "length ''{}'' \<le> maximum_message_size" by (simp add: maximum_message_size_def)
  note run = example_run_returns [OF model(2,3,6,7,4,8) small, of header]
  obtain c where c: "run_capture json_model example_options ?ws (example_start header) = Some c" "phase c = Returned"
    "disk c ''out'' = Some (unlines_of [header, line])"
    using run(1) by (auto simp: unlines_of_def)
  have fits: "list_all line_fits (lines_of (unlines_of [header, line]))"
    using model(9-12) by (simp add: lines_of_unlines)
  have out: "disk c (output_path example_options) = Some (unlines_of [header, line])"
    using c(3) by (simp add: example_options_def)
  obtain stream where stream: "disk c (output_path example_options) = Some stream"
    "list_all line_fits (lines_of stream) \<longrightarrow>
     (\<exists>m ts. read_capture json_model (Some stream) = (Inr m, ts) \<and> frames m = of_nat (length [(0 :: u64, 1 :: u64, ''{}'')]))"
    using recording_replays [OF json_model.json_library_axioms start rs ws c(1,2) ascii]
    unfolding run(2) by (elim exE conjE) (rule that; assumption)
  have "stream = unlines_of [header, line]" using stream(1) out by simp
  then obtain m ts where "read_capture json_model (Some (unlines_of [header, line])) = (Inr m, ts)"
    "frames m = of_nat (length [(0 :: u64, 1 :: u64, ''{}'')])"
    using stream(2) fits by blast
  then show ?thesis using c
    by (intro exI [of _ header] exI [of _ "length sub"] exI [of _ "length hb"] exI [of _ "length line"]
        exI [of _ c] exI [of _ "unlines_of [header, line]"] exI [of _ m] exI [of _ ts]) simp
qed

text \<open>
  C28. Finding: a failed write is taken for a failed connection. If the kernel accepts a part of
  a line and then refuses, the capture reconnects, the next message continues the torn line, and
  the file is committed as a complete recording.
\<close>

theorem capture_commits_torn_line:
  assumes "phase c = Inner" and "message c = []" and "consecutive_failures c = 0"
    and "recorded c + 1 \<noteq> 0" and "fresh (output_file c)"
    and "disk c (temporary (output_file c)) = Some old" and "disk c (destination (output_file c)) = None"
    and "json_dump J (frame_record J 0 (connection_id c) m1) = Some line1"
    and "json_dump J (frame_record J 0 (connection_id c + 1) m2) = Some line2" and "line2 \<noteq> []"
    and "subscription J (product_ids options) ''market_trades'' = Some sub"
    and "subscription J (product_ids options) ''heartbeats'' = Some hb" and "sub \<noteq> []" and "hb \<noteq> []"
    and "0 < n" and "n < length line1" and "length m1 \<le> maximum_message_size"
    and "length m2 \<le> maximum_message_size"
  shows "\<exists>ws c'. run_capture J options ws c = Some c' \<and> phase c' = Returned \<and>
    disk c' (destination (output_file c)) = Some (old @ take n line1 @ line2 @ [newline])"
  using torn_run_commits [OF assms] by blast

theorem capture_commits_torn_line_witness:
  "\<exists>ws c'. run_capture short_json example_options ws ((example_start ''xy'')\<lparr>phase := Inner\<rparr>) = Some c' \<and>
     phase c' = Returned \<and>
     disk c' ''out'' = Some ([CHR ''x'', CHR ''y'', newline] @ ''x'' @ ''xy'' @ [newline])"
  using capture_commits_torn_line [of "(example_start ''xy'')\<lparr>phase := Inner\<rparr>"
      "[CHR ''x'', CHR ''y'', newline]" short_json "''1''" "''xy''" "''2''" "''xy''" example_options "''xy''" "''xy''" 1]
  by (simp add: example_start_def short_json_def subscription_def maximum_message_size_def fresh_def)

end
