(* ===== verification/Benchmark.thy ===== *)
theory Benchmark
  imports Replay
begin

text \<open>
  The parts of the benchmark (\<open>src/benchmark.cpp\<close>): the status of a child process, the host
  description, the statistics of the measured replays and the gate over all of them. Child processes
  and the host are outside: their results are arguments. An exception is \<open>None\<close>. The bundle that
  \<open>run_benchmark\<close> builds from these parts is in Bundle.
\<close>

section \<open>Child processes\<close>

datatype child_status = Exited_with nat | Killed_by nat | Other_status

datatype wait_result = Waited child_status | Wait_interrupted | Wait_failed

text \<open>One result per \<open>waitpid\<close> call; the list ending first counts as a failure.\<close>

fun wait_child :: "wait_result list \<Rightarrow> child_status option" where
  "wait_child [] = None"
| "wait_child (Waited s # rest) = Some s"
| "wait_child (Wait_interrupted # rest) = wait_child rest"
| "wait_child (Wait_failed # rest) = None"

definition status_code :: "child_status \<Rightarrow> nat" where
  "status_code s = (case s of Exited_with n \<Rightarrow> n | Killed_by n \<Rightarrow> 128 + n | Other_status \<Rightarrow> 125)"

definition run_process :: "bool \<Rightarrow> wait_result list \<Rightarrow> nat option" where
  "run_process forks waits = (if \<not> forks then None else map_option status_code (wait_child waits))"

section \<open>The host\<close>

definition is_trailing_space :: "char \<Rightarrow> bool" where
  "is_trailing_space c \<longleftrightarrow> c = newline \<or> c = CHR 0x0D \<or> c = CHR '' '' \<or> c = CHR 0x09"

definition is_leading_space :: "char \<Rightarrow> bool" where
  "is_leading_space c \<longleftrightarrow> c = CHR '' '' \<or> c = CHR 0x09"

definition trim :: "string \<Rightarrow> string" where
  "trim s = dropWhile is_leading_space (rev (dropWhile is_trailing_space (rev s)))"

text \<open>The text after the first separator, or all of it.\<close>

definition after_colon :: "string \<Rightarrow> string" where
  "after_colon line =
     (case find_char CHR '':'' line of None \<Rightarrow> line | Some separator \<Rightarrow> drop (separator + 1) line)"

fun first_matching_line :: "string list \<Rightarrow> string \<Rightarrow> string option" where
  "first_matching_line [] prefix = None"
| "first_matching_line (line # lines) prefix =
     (if take (length prefix) line = prefix then Some (trim (after_colon line))
      else first_matching_line lines prefix)"

text \<open>
  \<open>operator>>\<close> into an unsigned 64-bit value, after white space: an optional sign and digits, the
  negative sign meaning the negation in 64 bits; it fails without digits or out of range.
\<close>

definition extract_u64 :: "string \<Rightarrow> u64 option" where
  "extract_u64 s0 =
     (let s = dropWhile (\<lambda>c. is_trailing_space c \<or> c = CHR 0x0B \<or> c = CHR 0x0C) s0;
          negative = (take 1 s = ''-'');
          s = (if negative \<or> take 1 s = ''+'' then tl s else s);
          ds = takeWhile is_digit s
      in if ds = [] \<or> digits_value ds \<ge> 2 ^ 64 then None
         else Some (if negative then - of_nat (digits_value ds) else of_nat (digits_value ds)))"

definition memory_bytes :: "string option \<Rightarrow> u64" where
  "memory_bytes meminfo =
     (case first_matching_line (case meminfo of None \<Rightarrow> [] | Some s \<Rightarrow> lines_of s) ''MemTotal:'' of
        None \<Rightarrow> 0
      | Some v \<Rightarrow>
          (case extract_u64 v of
             None \<Rightarrow> 0
           | Some kibibytes \<Rightarrow> if kibibytes > u64_max div 1024 then 0 else kibibytes * 1024))"

definition read_optional :: "string option \<Rightarrow> string" where
  "read_optional content =
     (case content of
        None \<Rightarrow> ''unknown''
      | Some s \<Rightarrow> (case lines_of s of [] \<Rightarrow> ''unknown'' | line # lines \<Rightarrow> trim line))"

record host =
  uname_names :: "(string \<times> string \<times> string) option"
  cpuinfo :: "string option"
  meminfo :: "string option"
  governor :: "string option"
  hardware_concurrency :: u64
  compiler :: string

definition environment_value :: "'j json_lib \<Rightarrow> host \<Rightarrow> 'j option" where
  "environment_value J h =
     (case uname_names h of
        None \<Rightarrow> None
      | Some (sysname, release, machine) \<Rightarrow>
          Some (json_object J
            [(''operating_system'', json_string J sysname),
             (''kernel_release'', json_string J release),
             (''architecture'', json_string J machine),
             (''cpu_model'', json_string J
               (case first_matching_line (case cpuinfo h of None \<Rightarrow> [] | Some s \<Rightarrow> lines_of s) ''model name'' of
                  None \<Rightarrow> ''unknown''
                | Some v \<Rightarrow> v)),
             (''logical_cpus'', json_number J (hardware_concurrency h)),
             (''memory_bytes'', json_number J (memory_bytes (meminfo h))),
             (''scaling_governor'', json_string J (read_optional (governor h))),
             (''compiler'', json_string J (compiler h))]))"

section \<open>Statistics\<close>

definition nearest_rank :: "u64 list \<Rightarrow> u64 \<Rightarrow> u64" where
  "nearest_rank vs percentile =
     (if vs = [] then 0
      else let rank = (of_nat (length vs) * percentile + 99) div 100
           in vs ! unat (max 1 rank - 1))"

definition distribution :: "'j json_lib \<Rightarrow> u64 list \<Rightarrow> 'j" where
  "distribution J values0 =
     (let vs = sort values0
      in json_object J
          [(''samples'', json_number J (of_nat (length vs))),
           (''min'', json_number J (if vs = [] then 0 else hd vs)),
           (''p25'', json_number J (nearest_rank vs 25)),
           (''median'', json_number J (nearest_rank vs 50)),
           (''p75'', json_number J (nearest_rank vs 75)),
           (''p95'', json_number J (nearest_rank vs 95)),
           (''max'', json_number J (if vs = [] then 0 else last vs))])"

text \<open>\<open>order_in_pair\<close> is the member \<open>order\<close>; paths are texts.\<close>

record 'j measured_run =
  iteration :: u64
  order_in_pair :: u64
  run_engine :: string
  run_output :: string
  run_error :: string
  run_report :: 'j

definition metric :: "'j json_lib \<Rightarrow> 'j measured_run \<Rightarrow> string \<Rightarrow> string \<Rightarrow> u64 option" where
  "metric J run grp name =
     json_at J (run_report run) grp \<bind> (\<lambda>v. json_at J v name) \<bind> json_get_u64 J"

definition latency_metric :: "'j json_lib \<Rightarrow> 'j measured_run \<Rightarrow> string \<Rightarrow> u64 option" where
  "latency_metric J run name =
     json_at J (run_report run) ''pipeline'' \<bind> (\<lambda>v. json_at J v ''latency_ns'')
       \<bind> (\<lambda>v. json_at J v name) \<bind> json_get_u64 J"

definition summarize :: "'j json_lib \<Rightarrow> 'j measured_run list \<Rightarrow> string \<Rightarrow> 'j option" where
  "summarize J runs eng =
     (let own = filter (\<lambda>run. run_engine run = eng) runs in do {
        elapsed \<leftarrow> those (map (\<lambda>run. metric J run ''pipeline'' ''elapsed_ns'') own);
        p50 \<leftarrow> those (map (\<lambda>run. latency_metric J run ''p50'') own);
        p95 \<leftarrow> those (map (\<lambda>run. latency_metric J run ''p95'') own);
        p99 \<leftarrow> those (map (\<lambda>run. latency_metric J run ''p99'') own);
        bp \<leftarrow> those (map (\<lambda>run. metric J run ''pipeline'' ''backpressure'') own);
        Some (json_object J
          [(''elapsed_ns'', distribution J elapsed),
           (''stage_latency_p50_ns'', distribution J p50),
           (''stage_latency_p95_ns'', distribution J p95),
           (''stage_latency_p99_ns'', distribution J p99),
           (''backpressure'', distribution J bp)])
      })"

section \<open>The gate over all runs\<close>

text \<open>The expected values come from the first run; the loop stops at the first run that differs.\<close>

record expectation =
  expected_events :: u64
  expected_checksum :: u64
  expected_frames :: u64
  expected_gaps :: u64
  expected_out_of_order :: u64

definition run_agrees :: "'j json_lib \<Rightarrow> expectation \<Rightarrow> 'j measured_run \<Rightarrow> bool option" where
  "run_agrees J e run = do {
     errors \<leftarrow> metric J run ''input'' ''parse_errors'';
     if errors \<noteq> 0 then Some False else do {
     lost \<leftarrow> metric J run ''pipeline'' ''dropped'';
     if lost \<noteq> 0 then Some False else do {
     n \<leftarrow> metric J run ''pipeline'' ''events'';
     if n \<noteq> expected_events e then Some False else do {
     c \<leftarrow> metric J run ''pipeline'' ''checksum'';
     if c \<noteq> expected_checksum e then Some False else do {
     f \<leftarrow> metric J run ''input'' ''frames'';
     if f \<noteq> expected_frames e then Some False else do {
     g \<leftarrow> metric J run ''input'' ''sequence_gaps'';
     if g \<noteq> expected_gaps e then Some False else do {
     o1 \<leftarrow> metric J run ''input'' ''out_of_order'';
     if o1 \<noteq> expected_out_of_order e then Some False else do {
     s \<leftarrow> latency_metric J run ''samples'';
     Some (s = expected_events e) }}}}}}}
   }"

fun all_agree :: "'j json_lib \<Rightarrow> expectation \<Rightarrow> 'j measured_run list \<Rightarrow> bool option" where
  "all_agree J e [] = Some True"
| "all_agree J e (run # runs) =
     (case run_agrees J e run of
        None \<Rightarrow> None
      | Some False \<Rightarrow> Some False
      | Some True \<Rightarrow> all_agree J e runs)"

definition comparable :: "'j json_lib \<Rightarrow> 'j measured_run list \<Rightarrow> bool option" where
  "comparable J runs =
     (case runs of
        [] \<Rightarrow> Some False
      | first # rest \<Rightarrow> do {
          n \<leftarrow> metric J first ''pipeline'' ''events'';
          c \<leftarrow> metric J first ''pipeline'' ''checksum'';
          f \<leftarrow> metric J first ''input'' ''frames'';
          g \<leftarrow> metric J first ''input'' ''sequence_gaps'';
          o1 \<leftarrow> metric J first ''input'' ''out_of_order'';
          all_agree J \<lparr>expected_events = n, expected_checksum = c, expected_frames = f,
                       expected_gaps = g, expected_out_of_order = o1\<rparr> runs
        })"

section \<open>Facts\<close>

definition report_agrees :: "replay_report \<Rightarrow> replay_report \<Rightarrow> bool" where
  "report_agrees first r \<longleftrightarrow>
     parse_errors (input r) = 0 \<and> dropped r = 0 \<and> events r = events first \<and>
     checksum r = checksum first \<and> frames (input r) = frames (input first) \<and>
     sequence_gaps (input r) = sequence_gaps (input first) \<and>
     out_of_order (input r) = out_of_order (input first) \<and>
     samples (stage_latency r) = events first"

definition expects :: "replay_report \<Rightarrow> expectation" where
  "expects r = \<lparr>expected_events = events r, expected_checksum = checksum r,
     expected_frames = frames (input r), expected_gaps = sequence_gaps (input r),
     expected_out_of_order = out_of_order (input r)\<rparr>"

context json_library
begin

lemma metrics_of_report:
  assumes "run_report run = report_value J version r"
  shows "metric J run ''input'' ''parse_errors'' = Some (parse_errors (input r))"
    "metric J run ''input'' ''frames'' = Some (frames (input r))"
    "metric J run ''input'' ''sequence_gaps'' = Some (sequence_gaps (input r))"
    "metric J run ''input'' ''out_of_order'' = Some (out_of_order (input r))"
    "metric J run ''pipeline'' ''dropped'' = Some (dropped r)"
    "metric J run ''pipeline'' ''events'' = Some (events r)"
    "metric J run ''pipeline'' ''checksum'' = Some (checksum r)"
    "latency_metric J run ''samples'' = Some (samples (stage_latency r))"
  using assms by (simp_all add: metric_def latency_metric_def report_value_def at_object get_u64)

lemma run_agrees_report:
  assumes "run_report run = report_value J version r"
  shows "run_agrees J (expects first) run = Some (report_agrees first r)"
  unfolding run_agrees_def metrics_of_report [OF assms] report_agrees_def expects_def
  by simp

lemma all_agree_reports:
  "map run_report runs = map (report_value J version) rs \<Longrightarrow>
   all_agree J (expects first) runs = Some (\<forall>r \<in> set rs. report_agrees first r)"
proof (induction runs arbitrary: rs)
  case (Cons run runs)
  then obtain r rs' where "rs = r # rs'" "run_report run = report_value J version r"
    "map run_report runs = map (report_value J version) rs'"
    by (cases rs) auto
  then show ?case using Cons.IH [of rs'] run_agrees_report [of run version r first]
    by (simp split: option.split bool.split)
qed simp

lemma comparable_reports:
  assumes "map run_report runs = map (report_value J version) rs"
  shows "comparable J runs = Some (rs \<noteq> [] \<and> (\<forall>r \<in> set rs. report_agrees (hd rs) r))"
proof (cases runs)
  case Nil
  then show ?thesis using assms by (simp add: comparable_def)
next
  case (Cons run runs')
  then obtain r rs' where rs: "rs = r # rs'" and run: "run_report run = report_value J version r"
    using assms by (cases rs) auto
  have "comparable J runs = all_agree J (expects r) runs"
    by (simp add: comparable_def Cons metrics_of_report [OF run] expects_def)
  then show ?thesis using all_agree_reports [OF assms, of r] by (simp add: rs)
qed

end

lemma report_agrees_pairwise:
  "rs \<noteq> [] \<Longrightarrow> (\<forall>r \<in> set rs. report_agrees (hd rs) r) \<longleftrightarrow>
   (\<forall>r \<in> set rs. \<forall>s \<in> set rs. reports_comparable r s \<and>
      sequence_gaps (input r) = sequence_gaps (input s) \<and>
      out_of_order (input r) = out_of_order (input s))"
  (is "_ \<Longrightarrow> ?agree \<longleftrightarrow> ?pairs")
proof
  assume "rs \<noteq> []" and ?pairs
  then have first: "hd rs \<in> set rs" by simp
  show ?agree
  proof
    fix r assume "r \<in> set rs"
    then have "reports_comparable (hd rs) r \<and>
      sequence_gaps (input (hd rs)) = sequence_gaps (input r) \<and>
      out_of_order (input (hd rs)) = out_of_order (input r)" using \<open>?pairs\<close> first by blast
    then show "report_agrees (hd rs) r" by (simp add: report_agrees_def reports_comparable_def)
  qed
next
  assume agree: ?agree
  show ?pairs
  proof (intro ballI)
    fix r s assume "r \<in> set rs" and "s \<in> set rs"
    then have "report_agrees (hd rs) r" "report_agrees (hd rs) s" using agree by blast+
    then show "reports_comparable r s \<and> sequence_gaps (input r) = sequence_gaps (input s) \<and>
      out_of_order (input r) = out_of_order (input s)"
      by (simp add: report_agrees_def reports_comparable_def)
  qed
qed

lemma nearest_rank_sorted:
  assumes "vs \<noteq> []" and "length vs < 2 ^ 57" and "1 \<le> p" and "p \<le> 100"
  shows "nearest_rank (sort vs) (of_nat p) = sort vs ! nearest_rank_index (length vs) p"
proof -
  let ?n = "length vs" and ?k = "nearest_rank_index (length vs) p"
  have k: "?k < ?n" "(?n * p + 99) div 100 = Suc ?k"
    using nearest_rank_index_bounds [of ?n p] assms by simp_all
  have rank: "(of_nat ?n * of_nat p + 99) div 100 = (of_nat (Suc ?k) :: u64)"
    using quantile_target [OF assms(2,4)] k(2) by simp
  have small: "Suc ?k < 2 ^ 64" using k(1) assms(2) by simp
  have "unat (max 1 (of_nat (Suc ?k) :: u64) - 1) = ?k"
  proof -
    have u: "unat (of_nat (Suc ?k) :: u64) = Suc ?k" by (rule unat_of_nat_u64 [OF small])
    have "(1 :: u64) \<le> of_nat (Suc ?k)" unfolding u64_le_nat u by simp
    then show ?thesis using u by (simp add: max_def unat_sub_u64 del: of_nat_Suc)
  qed
  moreover have "sort vs \<noteq> []" using assms(1) by (metis set_sort set_empty)
  ultimately show ?thesis by (simp add: nearest_rank_def rank Let_def del: of_nat_Suc)
qed

section \<open>Properties\<close>

text \<open>
  C31. The bundle gate: on reports printed by the replays, \<open>comparable\<close> returns without an exception,
  and it is true exactly if there is a run and every two runs pass the pairwise gate of
  \<open>compare\<close> with equal sequence-gap and out-of-order counts.
\<close>

theorem bundle_comparable_iff:
  assumes "json_library J encodable" and "map run_report runs = map (report_value J version) rs"
  shows "comparable J runs = Some (rs \<noteq> [] \<and>
    (\<forall>r \<in> set rs. \<forall>s \<in> set rs. reports_comparable r s \<and>
      sequence_gaps (input r) = sequence_gaps (input s) \<and>
      out_of_order (input r) = out_of_order (input s)))"
  using json_library.comparable_reports [OF assms] report_agrees_pairwise [of rs] by auto

theorem bundle_comparable_iff_witness:
  "comparable json_model
     [\<lparr>iteration = 1, order_in_pair = 1, run_engine = ''bengal'', run_output = [], run_error = [],
       run_report = report_value json_model ''1.0'' (report ''bengal'' no_metrics 3
         (new_pipeline (empty_ring queue_capacity) []))\<rparr>] = Some True"
  using bundle_comparable_iff [OF json_model.json_library_axioms, of
      "[\<lparr>iteration = 1, order_in_pair = 1, run_engine = ''bengal'', run_output = [], run_error = [],
        run_report = report_value json_model ''1.0'' (report ''bengal'' no_metrics 3
          (new_pipeline (empty_ring queue_capacity) []))\<rparr>]" "''1.0''"
      "[report ''bengal'' no_metrics 3 (new_pipeline (empty_ring queue_capacity) [])]"]
  by (simp add: reports_comparable_def report_def no_metrics_def new_pipeline_def summary_def
      empty_histogram_def)

text \<open>
  C32. Order statistics: a printed percentile of a non-empty list of measurements is one of them; at
  least \<open>p\<close> percent of the measurements are not above it, and fewer than \<open>p\<close> percent are below it.
\<close>

theorem nearest_rank_percentile:
  assumes "vs \<noteq> []" and "length vs < 2 ^ 57" and "1 \<le> p" and "p \<le> 100"
  shows "let x = nearest_rank (sort vs) (of_nat p)
    in x \<in> set vs \<and> p * length vs \<le> 100 * length (filter (\<lambda>y. y \<le> x) vs) \<and>
       100 * length (filter (\<lambda>y. y < x) vs) < p * length vs"
proof -
  let ?k = "nearest_rank_index (length vs) p"
  have k: "?k < length vs" "(length vs * p + 99) div 100 = Suc ?k"
    using nearest_rank_index_bounds [of "length vs" p] assms by simp_all
  have bounds: "p * length vs \<le> 100 * Suc ?k" "100 * ?k < p * length vs"
    using k(2) by (simp_all add: mult.commute)
  have "sort vs ! ?k \<in> set vs" using nth_mem [of ?k "sort vs"] k(1) by simp
  moreover note rank_at_least [OF k(1)] rank_at_most [OF k(1)]
  ultimately show ?thesis
    using bounds unfolding nearest_rank_sorted [OF assms] Let_def
    by (meson order_trans order_le_less_trans mult_le_mono2)
qed

theorem nearest_rank_percentile_witness:
  "nearest_rank (sort [30, 10, 20]) 50 \<in> set [30, 10, 20 :: u64]"
  using nearest_rank_percentile [of "[30, 10, 20]" 50] by (simp add: Let_def)

end
