(* ===== verification/Cli.thy ===== *)
theory Cli
  imports Digits Replay Live
begin

text \<open>
  The command line (\<open>src/main.cpp\<close>): parsing the options of a subcommand, reading and checking
  their values, choosing the operation, and the exit code. The text of the arguments after the
  program name is a list; \<open>unordered_map\<close> is an association list with distinct keys; an
  \<open>invalid_argument\<close> is a value. What the operations do is in the theories that model them; here
  \<open>main\<close> yields the operation it calls with its arguments, and \<open>main_result\<close> what it prints on
  standard output and returns when the operation has ended.
  Where C++ leaves the order of argument evaluation open and two options are wrong, the model
  reports the first in source order.
\<close>

section \<open>Options\<close>

datatype usage_error =
  Not_pairs | Duplicate_option string | Missing string | Invalid string | Unknown_option string
| Bad_engine | No_live

type_synonym arguments = "(string \<times> string) list"

fun parse_arguments :: "string list \<Rightarrow> arguments \<Rightarrow> usage_error + arguments" where
  "parse_arguments [] result = Inr result"
| "parse_arguments [name] result = Inl Not_pairs"
| "parse_arguments (name # val # rest) result =
     (if take 2 name \<noteq> ''--'' then Inl Not_pairs
      else if map_of result (drop 2 name) \<noteq> None then Inl (Duplicate_option (drop 2 name))
      else parse_arguments rest ((drop 2 name, val) # result))"

definition required :: "arguments \<Rightarrow> string \<Rightarrow> usage_error + string" where
  "required values name =
     (case map_of values name of
        None \<Rightarrow> Inl (Missing name)
      | Some v \<Rightarrow> if v = [] then Inl (Missing name) else Inr v)"

definition value_or :: "arguments \<Rightarrow> string \<Rightarrow> string \<Rightarrow> string" where
  "value_or values name fallback = (case map_of values name of None \<Rightarrow> fallback | Some v \<Rightarrow> v)"

definition unsigned_value :: "arguments \<Rightarrow> string \<Rightarrow> u64 \<Rightarrow> usage_error + u64" where
  "unsigned_value values name fallback =
     (case from_chars (value_or values name (to_string fallback)) of
        Inl e \<Rightarrow> Inl (Invalid name)
      | Inr (result, rest) \<Rightarrow> if rest \<noteq> [] then Inl (Invalid name) else Inr result)"

text \<open>The map is visited in an unspecified order; the first unknown name in it is reported.\<close>

fun reject_unknown :: "arguments \<Rightarrow> string list \<Rightarrow> usage_error option" where
  "reject_unknown [] accepted = None"
| "reject_unknown ((name, unused) # rest) accepted =
     (if name \<notin> set accepted then Some (Unknown_option name) else reject_unknown rest accepted)"

section \<open>main\<close>

datatype engine_choice = Bengal_engine | Standard_engine

datatype operation =
    Print_help
  | Print_version
  | Usage
  | Fail usage_error
  | Generate string u64 string
  | Replay string engine_choice
  | Compare string
  | Benchmark string string u64 u64
  | Capture string string u64 string

definition checked :: "arguments \<Rightarrow> string list \<Rightarrow> (usage_error + operation) \<Rightarrow> operation" where
  "checked options accepted op =
     (case reject_unknown options accepted of
        Some e \<Rightarrow> Fail e
      | None \<Rightarrow> (case op of Inl e \<Rightarrow> Fail e | Inr x \<Rightarrow> x))"

definition bind_error :: "'e + 'a \<Rightarrow> ('a \<Rightarrow> 'e + 'b) \<Rightarrow> 'e + 'b" where
  "bind_error x f = (case x of Inl e \<Rightarrow> Inl e | Inr v \<Rightarrow> f v)"

definition generate_command :: "arguments \<Rightarrow> usage_error + operation" where
  "generate_command options =
     bind_error (required options ''output'') (\<lambda>output.
     bind_error (unsigned_value options ''events'' 10000) (\<lambda>n.
     Inr (Generate output n (value_or options ''product'' ''BTC-USD''))))"

definition replay_command :: "arguments \<Rightarrow> usage_error + operation" where
  "replay_command options =
     (let engine_name = value_or options ''engine'' ''bengal''
      in bind_error
          (if engine_name = ''bengal'' then Inr Bengal_engine
           else if engine_name = ''standard'' then Inr Standard_engine
           else Inl Bad_engine) (\<lambda>engine.
         bind_error (required options ''input'') (\<lambda>input.
         Inr (Replay input engine))))"

definition benchmark_command :: "arguments \<Rightarrow> usage_error + operation" where
  "benchmark_command options =
     bind_error (required options ''input'') (\<lambda>input.
     bind_error (required options ''output'') (\<lambda>output.
     bind_error (unsigned_value options ''runs'' 10) (\<lambda>runs.
     bind_error (unsigned_value options ''warmup'' 1) (\<lambda>warmups.
     Inr (Benchmark input output runs warmups)))))"

definition default_endpoint :: string where
  "default_endpoint = ''wss://advanced-trade-ws.coinbase.com''"

definition capture_command :: "bool \<Rightarrow> arguments \<Rightarrow> usage_error + operation" where
  "capture_command has_live options =
     (if \<not> has_live then Inl No_live
      else
        bind_error (required options ''output'') (\<lambda>output.
        bind_error (unsigned_value options ''duration'' 30) (\<lambda>duration.
        Inr (Capture output (value_or options ''product'' ''BTC-USD'') duration
               (value_or options ''endpoint'' default_endpoint)))))"

definition dispatch :: "bool \<Rightarrow> string \<Rightarrow> arguments \<Rightarrow> operation" where
  "dispatch has_live command options =
     (if command = ''generate'' then
        checked options [''output'', ''events'', ''product''] (generate_command options)
      else if command = ''replay'' then
        checked options [''input'', ''engine''] (replay_command options)
      else if command = ''compare'' then
        checked options [''input''] (bind_error (required options ''input'') (\<lambda>input. Inr (Compare input)))
      else if command = ''benchmark'' then
        checked options [''input'', ''output'', ''runs'', ''warmup''] (benchmark_command options)
      else if command = ''capture'' then
        checked options [''output'', ''product'', ''duration'', ''endpoint''] (capture_command has_live options)
      else Usage)"

definition main_operation :: "bool \<Rightarrow> string list \<Rightarrow> operation" where
  "main_operation has_live argv =
     (case argv of
        [] \<Rightarrow> Usage
      | command # rest \<Rightarrow>
          if rest = [] \<and> (command = ''--help'' \<or> command = ''-h'') then Print_help
          else if rest = [] \<and> command = ''--version'' then Print_version
          else (case parse_arguments rest [] of
                  Inl e \<Rightarrow> Fail e
                | Inr options \<Rightarrow> dispatch has_live command options))"

text \<open>
  How an operation ends: by an exception, or with its result. \<open>Benchmarked\<close> has the output path,
  the number of processes and the gate; \<open>Captured\<close> the frames, the reconnects, whether the capture
  was interrupted, and the number of the
  signal that stopped the capture, 0 if none.
\<close>

datatype ending =
    Threw
  | Generated
  | Replayed replay_report
  | Compared replay_report replay_report
  | Benchmarked string u64 bool
  | Captured u64 u64 bool nat

definition exit_code :: "operation \<Rightarrow> ending \<Rightarrow> nat" where
  "exit_code op ended =
     (case op of
        Print_help \<Rightarrow> 0
      | Print_version \<Rightarrow> 0
      | Usage \<Rightarrow> 2
      | Fail e \<Rightarrow> 2
      | _ \<Rightarrow>
          (case ended of
             Threw \<Rightarrow> 2
           | Generated \<Rightarrow> 0
           | Replayed r \<Rightarrow> if parse_errors (input r) = 0 \<and> dropped r = 0 then 0 else 1
           | Compared b s \<Rightarrow> if reports_comparable b s then 0 else 1
           | Benchmarked out n comparable \<Rightarrow> if comparable then 0 else 1
           | Captured n again stopped_early signal \<Rightarrow> if signal = 0 then 0 else 128 + signal))"

text \<open>
  What \<open>main\<close> prints on standard output; \<open>None\<close> is an exception of the JSON library, after which it
  has printed nothing there and returns 2. The versions are texts of the build.
\<close>

definition usage_text :: string where
  "usage_text =
     ''Usage:'' @ [newline] @
     ''  bengal-market generate --output FILE [--events N] [--product ID]'' @ [newline] @
     ''  bengal-market replay --input FILE [--engine bengal|standard]'' @ [newline] @
     ''  bengal-market compare --input FILE'' @ [newline] @
     ''  bengal-market benchmark --input FILE --output DIR [--runs N] [--warmup N]'' @ [newline] @
     ''  bengal-market capture --output FILE [--product ID] [--duration SECONDS] [--endpoint URL]'' @ [newline]"

definition result_text :: "'j json_lib \<Rightarrow> string \<Rightarrow> ending \<Rightarrow> string option" where
  "result_text J queue_version ended =
     (case ended of
        Threw \<Rightarrow> Some []
      | Generated \<Rightarrow> Some []
      | Replayed r \<Rightarrow> map_option (\<lambda>s. s @ [newline]) (report_json J queue_version r)
      | Compared b s \<Rightarrow> map_option (\<lambda>s. s @ [newline]) (comparison_json J queue_version b s)
      | Benchmarked out n comparable \<Rightarrow>
          map_option (\<lambda>s. s @ [newline]) (json_dump J (json_object J
            [(''output'', json_string J out), (''measured_processes'', json_number J n),
             (''comparable'', json_bool J comparable)]))
      | Captured n again stopped_early signal \<Rightarrow>
          map_option (\<lambda>s. s @ [newline]) (json_dump J (json_object J
            [(''frames'', json_number J n), (''reconnects'', json_number J again),
             (''interrupted'', json_bool J (stopped_early \<or> signal \<noteq> 0)),
             (''signal'', json_number J (of_nat signal))])))"

definition standard_text :: "'j json_lib \<Rightarrow> string \<Rightarrow> string \<Rightarrow> operation \<Rightarrow> ending \<Rightarrow> string option" where
  "standard_text J version queue_version op ended =
     (case op of
        Print_help \<Rightarrow> Some usage_text
      | Print_version \<Rightarrow> Some (''bengal-market '' @ version @ [newline])
      | Usage \<Rightarrow> Some []
      | Fail e \<Rightarrow> Some []
      | _ \<Rightarrow> result_text J queue_version ended)"

definition main_result :: "'j json_lib \<Rightarrow> string \<Rightarrow> string \<Rightarrow> bool \<Rightarrow> string list \<Rightarrow> ending \<Rightarrow> string \<times> nat" where
  "main_result J version queue_version has_live argv ended =
     (let op = main_operation has_live argv
      in case standard_text J version queue_version op ended of
           None \<Rightarrow> ([], 2)
         | Some s \<Rightarrow> (s, exit_code op ended))"

text \<open>
  \<open>std::chrono::seconds\<close> holds a signed 64-bit count, and the deadline of \<open>capture_live\<close> is a
  count of nanoseconds of the same width, which is exact only if it is in range.
\<close>

definition seconds :: "u64 \<Rightarrow> int" where
  "seconds w = sint w"

definition deadline_ns :: "int \<Rightarrow> int \<Rightarrow> int" where
  "deadline_ns now secs = now + secs * 1000000000"

definition live_options :: "string \<Rightarrow> string \<Rightarrow> u64 \<Rightarrow> string \<Rightarrow> capture_options" where
  "live_options output product secs url =
     \<lparr>output_path = output, product_ids = [product], duration = seconds secs, endpoint = url\<rparr>"

section \<open>Signals\<close>

text \<open>
  The handlers of the process for the two signals, and the global that the handler sets. The first
  signal stays. Installing a handler may fail; the calls that put an earlier handler back are taken
  to succeed, as \<open>sigaction\<close> fails only for a signal it does not know or may not change, and the
  same signal was accepted before.
\<close>

datatype handler = Request_stop | Other nat

record signals =
  on_int :: handler
  on_term :: handler
  capture_signal :: nat

definition request_capture_stop :: "nat \<Rightarrow> signals \<Rightarrow> signals" where
  "request_capture_stop signal p = (if capture_signal p = 0 then p\<lparr>capture_signal := signal\<rparr> else p)"

record signal_scope =
  previous_int :: handler
  previous_term :: handler

definition open_scope :: "bool \<Rightarrow> bool \<Rightarrow> signals \<Rightarrow> signal_scope option \<times> signals" where
  "open_scope int_ok term_ok p0 =
     (let p = p0\<lparr>capture_signal := 0\<rparr> in
      if \<not> int_ok then (None, p)
      else
        let old_int = on_int p; p = p\<lparr>on_int := Request_stop\<rparr> in
        if \<not> term_ok then (None, p\<lparr>on_int := old_int\<rparr>)
        else (Some \<lparr>previous_int = old_int, previous_term = on_term p\<rparr>,
              p\<lparr>on_term := Request_stop\<rparr>))"

definition close_scope :: "signal_scope \<Rightarrow> signals \<Rightarrow> signals" where
  "close_scope scope p = p\<lparr>on_term := previous_term scope, on_int := previous_int scope\<rparr>"

section \<open>Facts\<close>

definition option_words :: "arguments \<Rightarrow> string list" where
  "option_words kvs = concat (map (\<lambda>(k, v). [''--'' @ k, v]) kvs)"

text \<open>
  What each operation is requested by. Of the options given, a path is one with a non-empty value; a
  number is the value of a non-empty string of digits below 2 to the 64, or the default; a text is
  the value, or the default.
\<close>

definition path_given :: "arguments \<Rightarrow> string \<Rightarrow> string \<Rightarrow> bool" where
  "path_given kvs name v \<longleftrightarrow> map_of kvs name = Some v \<and> v \<noteq> []"

definition number_given :: "arguments \<Rightarrow> string \<Rightarrow> u64 \<Rightarrow> u64 \<Rightarrow> bool" where
  "number_given kvs name fallback w \<longleftrightarrow>
     (case map_of kvs name of
        None \<Rightarrow> w = fallback
      | Some s \<Rightarrow> s \<noteq> [] \<and> list_all is_digit s \<and> digits_value s < 2 ^ 64 \<and> w = of_nat (digits_value s))"

definition text_given :: "arguments \<Rightarrow> string \<Rightarrow> string \<Rightarrow> string \<Rightarrow> bool" where
  "text_given kvs name fallback v \<longleftrightarrow> (case map_of kvs name of None \<Rightarrow> v = fallback | Some s \<Rightarrow> v = s)"

text \<open>The options of a command: pairs with distinct names, all of them among the accepted ones.\<close>

definition command_line :: "string \<Rightarrow> string list \<Rightarrow> string list \<Rightarrow> arguments \<Rightarrow> bool" where
  "command_line command accepted argv kvs \<longleftrightarrow>
     argv = command # option_words kvs \<and> distinct (map fst kvs) \<and> fst ` set kvs \<subseteq> set accepted"

fun engine_name :: "engine_choice \<Rightarrow> string" where
  "engine_name Bengal_engine = ''bengal''"
| "engine_name Standard_engine = ''standard''"

fun requests :: "bool \<Rightarrow> string list \<Rightarrow> operation \<Rightarrow> bool" where
  "requests has_live argv Print_help \<longleftrightarrow> argv = [''--help''] \<or> argv = [''-h'']"
| "requests has_live argv Print_version \<longleftrightarrow> argv = [''--version'']"
| "requests has_live argv Usage \<longleftrightarrow> False"
| "requests has_live argv (Fail e) \<longleftrightarrow> False"
| "requests has_live argv (Generate output n product) \<longleftrightarrow>
     (\<exists>kvs. command_line ''generate'' [''output'', ''events'', ''product''] argv kvs \<and>
        path_given kvs ''output'' output \<and> number_given kvs ''events'' 10000 n \<and>
        text_given kvs ''product'' ''BTC-USD'' product)"
| "requests has_live argv (Replay inp eng) \<longleftrightarrow>
     (\<exists>kvs. command_line ''replay'' [''input'', ''engine''] argv kvs \<and>
        path_given kvs ''input'' inp \<and> text_given kvs ''engine'' ''bengal'' (engine_name eng))"
| "requests has_live argv (Compare inp) \<longleftrightarrow>
     (\<exists>kvs. command_line ''compare'' [''input''] argv kvs \<and> path_given kvs ''input'' inp)"
| "requests has_live argv (Benchmark inp output runs warmups) \<longleftrightarrow>
     (\<exists>kvs. command_line ''benchmark'' [''input'', ''output'', ''runs'', ''warmup''] argv kvs \<and>
        path_given kvs ''input'' inp \<and> path_given kvs ''output'' output \<and>
        number_given kvs ''runs'' 10 runs \<and> number_given kvs ''warmup'' 1 warmups)"
| "requests has_live argv (Capture output product secs url) \<longleftrightarrow>
     has_live \<and>
     (\<exists>kvs. command_line ''capture'' [''output'', ''product'', ''duration'', ''endpoint''] argv kvs \<and>
        path_given kvs ''output'' output \<and> text_given kvs ''product'' ''BTC-USD'' product \<and>
        number_given kvs ''duration'' 30 secs \<and> text_given kvs ''endpoint'' default_endpoint url)"

definition refused :: "operation \<Rightarrow> bool" where
  "refused op = (case op of Usage \<Rightarrow> True | Fail e \<Rightarrow> True | _ \<Rightarrow> False)"

lemma parse_arguments_words:
  "distinct (map fst (rev kvs @ acc)) \<Longrightarrow>
   parse_arguments (option_words kvs) acc = Inr (rev kvs @ acc)"
proof (induction kvs arbitrary: acc)
  case (Cons kv kvs)
  obtain k v where kv: "kv = (k, v)" by fastforce
  have "k \<notin> fst ` set acc" using Cons.prems by (auto simp: kv)
  then have "map_of acc k = None" by (simp add: map_of_eq_None_iff)
  moreover have "parse_arguments (option_words kvs) ((k, v) # acc) = Inr (rev kvs @ (k, v) # acc)"
    using Cons.prems by (intro Cons.IH) (auto simp: kv)
  ultimately show ?case by (simp add: kv option_words_def)
qed (simp add: option_words_def)

lemma parse_arguments_only:
  "parse_arguments argv acc = Inr opts \<Longrightarrow> distinct (map fst acc) \<Longrightarrow>
   \<exists>kvs. argv = option_words kvs \<and> opts = rev kvs @ acc \<and> distinct (map fst opts)"
proof (induction argv acc rule: parse_arguments.induct)
  case (3 name val rest result)
  have "take 2 name = ''--''" using 3(2) by (simp split: if_splits)
  then have name: "name = ''--'' @ drop 2 name" by (metis append_take_drop_id)
  have new: "map_of result (drop 2 name) = None" and
    parsed: "parse_arguments rest ((drop 2 name, val) # result) = Inr opts"
    using 3(2) by (simp_all split: if_splits)
  have "distinct (map fst ((drop 2 name, val) # result))"
    using new 3(3) by (simp add: map_of_eq_None_iff)
  then obtain kvs where kvs: "rest = option_words kvs" "opts = rev kvs @ (drop 2 name, val) # result"
    "distinct (map fst opts)"
    using 3(1) new parsed 3(2) by (auto split: if_splits)
  have "name # val # rest = option_words ((drop 2 name, val) # kvs)"
    using name by (simp add: option_words_def kvs(1))
  then show ?case using kvs by (intro exI [of _ "(drop 2 name, val) # kvs"]) simp
qed (auto simp: option_words_def)

lemma reject_unknown_None: "reject_unknown opts accepted = None \<longleftrightarrow> fst ` set opts \<subseteq> set accepted"
  by (induction opts accepted rule: reject_unknown.induct) auto

lemma checked_Inr:
  assumes "\<And>e. x \<noteq> Fail e"
  shows "checked opts accepted op = x \<longleftrightarrow> fst ` set opts \<subseteq> set accepted \<and> op = Inr x"
  using assms by (auto simp: checked_def reject_unknown_None [symmetric] split: option.splits sum.splits)

lemma required_Inr: "required opts name = Inr v \<longleftrightarrow> map_of opts name = Some v \<and> v \<noteq> []"
  by (auto simp: required_def split: option.split)

lemma bind_error_Inr: "bind_error x f = Inr y \<longleftrightarrow> (\<exists>v. x = Inr v \<and> f v = Inr y)"
  by (cases x) (simp_all add: bind_error_def)

lemma unsigned_value_Inr:
  "unsigned_value opts name fallback = Inr w \<longleftrightarrow>
   (case map_of opts name of
      None \<Rightarrow> w = fallback
    | Some s \<Rightarrow> s \<noteq> [] \<and> list_all is_digit s \<and> digits_value s < 2 ^ 64 \<and> w = of_nat (digits_value s))"
proof -
  have "unsigned_value opts name fallback = Inr w \<longleftrightarrow>
      from_chars (value_or opts name (to_string fallback)) = Inr (w, [])"
    by (auto simp: unsigned_value_def split: sum.split)
  then show ?thesis
    by (cases "map_of opts name") (auto simp: value_or_def from_chars_to_string from_chars_whole)
qed

lemma value_or_eq: "value_or opts name fallback = v \<longleftrightarrow> text_given opts name fallback v"
  by (auto simp: value_or_def text_given_def split: option.split)

lemmas reads_option = bind_error_Inr required_Inr [folded path_given_def]
  unsigned_value_Inr [folded number_given_def] value_or_eq

lemma map_of_rev: "distinct (map fst kvs) \<Longrightarrow> map_of (rev kvs) = map_of kvs"
  by (rule map_of_inject_set [THEN iffD2]) (simp_all add: rev_map [symmetric])

lemma generate_command_Inr:
  "generate_command opts = Inr x \<longleftrightarrow> (\<exists>output n product. x = Generate output n product \<and>
     path_given opts ''output'' output \<and> number_given opts ''events'' 10000 n \<and>
     text_given opts ''product'' ''BTC-USD'' product)"
  by (auto simp: generate_command_def reads_option) (simp_all add: value_or_eq [symmetric])

lemma replay_command_Inr:
  "replay_command opts = Inr x \<longleftrightarrow> (\<exists>inp eng. x = Replay inp eng \<and> path_given opts ''input'' inp \<and>
     text_given opts ''engine'' ''bengal'' (engine_name eng))"
proof -
  have engine: "(if name = ''bengal'' then Inr Bengal_engine else if name = ''standard'' then Inr Standard_engine
      else Inl Bad_engine) = Inr eng \<longleftrightarrow> name = engine_name eng" for name eng
    by (cases eng) auto
  show ?thesis
    unfolding replay_command_def Let_def bind_error_Inr engine
    unfolding value_or_eq required_Inr [folded path_given_def]
    by auto
qed

lemma compare_command_Inr:
  "bind_error (required opts ''input'') (\<lambda>input. Inr (Compare input)) = Inr x \<longleftrightarrow>
   (\<exists>inp. x = Compare inp \<and> path_given opts ''input'' inp)"
  by (auto simp: reads_option)

lemma benchmark_command_Inr:
  "benchmark_command opts = Inr x \<longleftrightarrow> (\<exists>inp output runs warmups. x = Benchmark inp output runs warmups \<and>
     path_given opts ''input'' inp \<and> path_given opts ''output'' output \<and>
     number_given opts ''runs'' 10 runs \<and> number_given opts ''warmup'' 1 warmups)"
  by (auto simp: benchmark_command_def reads_option)

lemma capture_command_Inr:
  "capture_command has_live opts = Inr x \<longleftrightarrow> has_live \<and> (\<exists>output product secs url. x = Capture output product secs url \<and>
     path_given opts ''output'' output \<and> number_given opts ''duration'' 30 secs \<and>
     text_given opts ''product'' ''BTC-USD'' product \<and> text_given opts ''endpoint'' default_endpoint url)"
  by (auto simp: capture_command_def reads_option) (simp_all add: value_or_eq [symmetric])

text \<open>What \<open>main\<close> dispatches to, in terms of the options as given.\<close>

lemma main_operation_command:
  assumes "\<not> refused op" and "op \<noteq> Print_help" and "op \<noteq> Print_version"
  shows "main_operation has_live argv = op \<longleftrightarrow>
    (\<exists>command kvs. argv = command # option_words kvs \<and> distinct (map fst kvs) \<and>
       dispatch has_live command (rev kvs) = op)"
proof
  assume main: "main_operation has_live argv = op"
  then obtain command rest where argv: "argv = command # rest"
    using assms by (cases argv) (auto simp: main_operation_def refused_def)
  with main assms obtain opts where opts: "parse_arguments rest [] = Inr opts" "dispatch has_live command opts = op"
    by (auto simp: main_operation_def refused_def split: if_splits sum.splits)
  obtain kvs where "rest = option_words kvs" "opts = rev kvs" "distinct (map fst opts)"
    using parse_arguments_only [OF opts(1)] by auto
  then show "\<exists>command kvs. argv = command # option_words kvs \<and> distinct (map fst kvs) \<and>
       dispatch has_live command (rev kvs) = op"
    using argv opts(2) by (auto simp: rev_map [symmetric])
next
  assume "\<exists>command kvs. argv = command # option_words kvs \<and> distinct (map fst kvs) \<and>
       dispatch has_live command (rev kvs) = op"
  then obtain command kvs where c: "argv = command # option_words kvs" "distinct (map fst kvs)"
    "dispatch has_live command (rev kvs) = op" by blast
  have "command \<noteq> ''--help'' \<and> command \<noteq> ''-h'' \<and> command \<noteq> ''--version''"
    using c(3) assms(1) by (auto simp: dispatch_def refused_def)
  then show "main_operation has_live argv = op"
    using c parse_arguments_words [of kvs "[]"] by (simp add: main_operation_def rev_map [symmetric])
qed

lemma dispatch_operation:
  assumes "\<not> refused op"
  shows "dispatch has_live command opts = op \<longleftrightarrow>
    command = ''generate'' \<and> fst ` set opts \<subseteq> {''output'', ''events'', ''product''} \<and> generate_command opts = Inr op \<or>
    command = ''replay'' \<and> fst ` set opts \<subseteq> {''input'', ''engine''} \<and> replay_command opts = Inr op \<or>
    command = ''compare'' \<and> fst ` set opts \<subseteq> {''input''} \<and>
      bind_error (required opts ''input'') (\<lambda>input. Inr (Compare input)) = Inr op \<or>
    command = ''benchmark'' \<and> fst ` set opts \<subseteq> {''input'', ''output'', ''runs'', ''warmup''} \<and>
      benchmark_command opts = Inr op \<or>
    command = ''capture'' \<and> fst ` set opts \<subseteq> {''output'', ''product'', ''duration'', ''endpoint''} \<and>
      capture_command has_live opts = Inr op"
proof -
  have "op \<noteq> Fail e" "op \<noteq> Usage" for e using assms by (auto simp: refused_def)
  then show ?thesis by (simp add: dispatch_def checked_Inr eq_commute [of Usage])
qed

lemma given_rev:
  assumes "distinct (map fst kvs)"
  shows "path_given (rev kvs) = path_given kvs" and "number_given (rev kvs) = number_given kvs"
    and "text_given (rev kvs) = text_given kvs"
  using map_of_rev [OF assms] by (simp_all add: path_given_def number_given_def text_given_def fun_eq_iff)

lemmas command_Inr = generate_command_Inr replay_command_Inr compare_command_Inr benchmark_command_Inr
  capture_command_Inr

lemma main_prints:
  "main_operation has_live argv = Print_help \<longleftrightarrow> argv = [''--help''] \<or> argv = [''-h'']"
  "main_operation has_live argv = Print_version \<longleftrightarrow> argv = [''--version'']"
proof -
  have "dispatch has_live command opts \<noteq> Print_help" "dispatch has_live command opts \<noteq> Print_version"
    for command opts
    by (simp_all add: dispatch_operation refused_def command_Inr)
  then show "main_operation has_live argv = Print_help \<longleftrightarrow> argv = [''--help''] \<or> argv = [''-h'']"
    "main_operation has_live argv = Print_version \<longleftrightarrow> argv = [''--version'']"
    by (auto simp: main_operation_def split: list.split sum.split)
qed

lemma command_lines:
  assumes "\<not> refused op" and "op \<noteq> Print_help" and "op \<noteq> Print_version"
  shows "main_operation has_live argv = op \<longleftrightarrow>
    (\<exists>kvs. command_line ''generate'' [''output'', ''events'', ''product''] argv kvs \<and> generate_command (rev kvs) = Inr op) \<or>
    (\<exists>kvs. command_line ''replay'' [''input'', ''engine''] argv kvs \<and> replay_command (rev kvs) = Inr op) \<or>
    (\<exists>kvs. command_line ''compare'' [''input''] argv kvs \<and>
       bind_error (required (rev kvs) ''input'') (\<lambda>input. Inr (Compare input)) = Inr op) \<or>
    (\<exists>kvs. command_line ''benchmark'' [''input'', ''output'', ''runs'', ''warmup''] argv kvs \<and>
       benchmark_command (rev kvs) = Inr op) \<or>
    (\<exists>kvs. command_line ''capture'' [''output'', ''product'', ''duration'', ''endpoint''] argv kvs \<and>
       capture_command has_live (rev kvs) = Inr op)"
  unfolding main_operation_command [OF assms] dispatch_operation [OF assms(1)] command_line_def
  by (simp add: ex_disj_distrib conj_disj_distribL)

lemma requests_iff: "requests has_live argv op \<longleftrightarrow> \<not> refused op \<and> main_operation has_live argv = op"
proof -
  have given: "path_given (rev kvs) = path_given kvs" "number_given (rev kvs) = number_given kvs"
    "text_given (rev kvs) = text_given kvs" if "command_line command accepted argv kvs" for command accepted kvs
    using that given_rev [of kvs] by (simp_all add: command_line_def)
  show ?thesis
    by (cases op)
      (auto simp: main_prints command_lines refused_def command_Inr given)
qed

section \<open>Properties\<close>

text \<open>
  C35. The option parser accepts exactly the lists of pairs \<open>--name value\<close> with distinct names, and
  maps each name to its value: parsing the words of any such pairs gives them back, and nothing
  else parses.
\<close>

theorem parse_arguments_exact:
  "parse_arguments argv [] = Inr opts \<longleftrightarrow>
   argv = option_words (rev opts) \<and> distinct (map fst opts)"
proof
  assume "parse_arguments argv [] = Inr opts"
  from parse_arguments_only [OF this] show "argv = option_words (rev opts) \<and> distinct (map fst opts)"
    by auto
next
  assume "argv = option_words (rev opts) \<and> distinct (map fst opts)"
  then show "parse_arguments argv [] = Inr opts"
    using parse_arguments_words [of "rev opts" "[]"] by simp
qed

text \<open>
  A number option is its decimal value if it is a non-empty string of digits below 2 to the 64,
  the fallback if it is absent, and an error in every other case (signs, spaces, trailing text,
  overflow).
\<close>

theorem unsigned_value_exact:
  "unsigned_value opts name fallback =
   (case map_of opts name of
      None \<Rightarrow> Inr fallback
    | Some s \<Rightarrow>
        if s \<noteq> [] \<and> list_all is_digit s \<and> digits_value s < 2 ^ 64
        then Inr (of_nat (digits_value s)) else Inl (Invalid name))"
proof (cases "unsigned_value opts name fallback")
  case (Inl e)
  have "e = Invalid name" using Inl by (auto simp: unsigned_value_def split: sum.splits prod.splits if_splits)
  moreover have none: "\<not> (case map_of opts name of
      None \<Rightarrow> w = fallback
    | Some s \<Rightarrow> s \<noteq> [] \<and> list_all is_digit s \<and> digits_value s < 2 ^ 64 \<and> w = of_nat (digits_value s))" for w
    using unsigned_value_Inr [of opts name fallback w] Inl by simp
  ultimately show ?thesis
    using Inl none [of fallback] none [of "of_nat (digits_value (the (map_of opts name)))"]
    by (cases "map_of opts name") auto
next
  case (Inr w)
  then show ?thesis
    using unsigned_value_Inr [of opts name fallback w] by (auto split: option.splits)
qed

text \<open>
  C34. What the command line does: \<open>--help\<close>, \<open>-h\<close> and \<open>--version\<close> alone print; the words of a command
  followed by pairs of distinct names, all of them options of this very command, with a non-empty
  path for each required one, numbers that are decimals below 2 to the 64 or absent, for a replay the
  name of the engine, and for a capture a build with live capture, call exactly the operation of
  the command with these values and the defaults of the rest; every other command line calls
  nothing and exits with 2.
\<close>

theorem main_operation_exact:
  "if refused (main_operation has_live argv)
   then (\<forall>op. \<not> requests has_live argv op) \<and> exit_code (main_operation has_live argv) ended = 2
   else if main_operation has_live argv \<in> {Print_help, Print_version}
   then (\<forall>op. requests has_live argv op \<longleftrightarrow> op = main_operation has_live argv) \<and>
     exit_code (main_operation has_live argv) ended = 0
   else (\<forall>op. requests has_live argv op \<longleftrightarrow> op = main_operation has_live argv)"
proof -
  have "exit_code op ended = 2" if "refused op" for op
    using that by (cases op) (simp_all add: refused_def exit_code_def)
  then show ?thesis unfolding requests_iff by (auto simp: exit_code_def)
qed

text \<open>
  C36. Signal handlers: whatever \<open>sigaction\<close> does and however many signals arrive while a capture
  runs, the handlers of the process are as before once the scope is closed or failed to open, and
  the first signal that arrived is the one remembered.
\<close>

theorem signal_scope_restores:
  "case open_scope int_ok term_ok p of
     (None, p') \<Rightarrow> on_int p' = on_int p \<and> on_term p' = on_term p
   | (Some scope, p') \<Rightarrow>
       on_int p' = Request_stop \<and> on_term p' = Request_stop \<and>
       (let q = close_scope scope (fold request_capture_stop sigs p')
        in on_int q = on_int p \<and> on_term q = on_term p \<and>
           capture_signal q = (case filter (\<lambda>s. s \<noteq> 0) sigs of [] \<Rightarrow> 0 | s # ss \<Rightarrow> s))"
proof -
  have stays: "capture_signal (fold request_capture_stop sigs q) = capture_signal q"
    if "capture_signal q \<noteq> 0" for sigs q
    using that by (induction sigs arbitrary: q) (simp_all add: request_capture_stop_def)
  have first: "capture_signal (fold request_capture_stop sigs q) =
      (case filter (\<lambda>s. s \<noteq> 0) sigs of [] \<Rightarrow> 0 | s # ss \<Rightarrow> s)"
    if "capture_signal q = 0" for q
    using that by (induction sigs arbitrary: q) (auto simp: request_capture_stop_def stays)
  show ?thesis
    using first by (auto simp: open_scope_def close_scope_def Let_def)
qed

text \<open>
  Finding: the command line accepts durations whose deadline is out of range. A capture of
  9300000000 seconds is well formed and positive, but its deadline in nanoseconds exceeds the
  signed 64-bit range at every reading of the clock.
\<close>

theorem duration_overflows_deadline:
  assumes "0 \<le> now"
  shows "main_operation True [''capture'', ''--output'', ''f'', ''--duration'', ''9300000000''] =
      Capture ''f'' ''BTC-USD'' 9300000000 default_endpoint \<and>
    0 < duration (live_options ''f'' ''BTC-USD'' 9300000000 default_endpoint) \<and>
    \<not> in_i64 (deadline_ns now (duration (live_options ''f'' ''BTC-USD'' 9300000000 default_endpoint)))"
proof -
  have "from_chars ''9300000000'' = Inr (9300000000, [])"
    by (subst from_chars_whole) (simp add: digits_value_def is_digit_def digit_of_def)
  then have "main_operation True [''capture'', ''--output'', ''f'', ''--duration'', ''9300000000''] =
      Capture ''f'' ''BTC-USD'' 9300000000 default_endpoint"
    by (simp add: main_operation_def dispatch_def checked_def capture_command_def bind_error_def
        required_def unsigned_value_def value_or_def)
  moreover have "seconds 9300000000 = 9300000000"
    unfolding seconds_def by simp
  ultimately show ?thesis
    using assms by (simp add: live_options_def deadline_ns_def in_i64_def)
qed

theorem duration_overflows_deadline_witness:
  "\<not> in_i64 (deadline_ns 0 (duration (live_options ''f'' ''BTC-USD'' 9300000000 default_endpoint)))"
  using duration_overflows_deadline [of 0] by simp

end
