(* ===== verification/Bundle.thy ===== *)
theory Bundle
  imports Benchmark AtomicOutput Cli
begin

text \<open>
  The benchmark bundle (\<open>run_benchmark\<close> in \<open>src/benchmark.cpp\<close> and its helpers): the order of the
  replays, one child process per replay, its report, the manifest, the HTML page, and the directory
  of evidence that is renamed into place at the end. A directory is a map from the paths below it to
  contents. What the child processes, the file system and the host do is an argument of the model; an
  exception is an error value, and the directory it leaves is returned with it.
\<close>

section \<open>Steps over the working directory\<close>

type_synonym directory = "string \<rightharpoonup> string"

datatype bundle_error =
    Options_required | Bad_runs | Bad_warmups | Already_exists | File_error | Process_error
  | Digest_failed string | Bad_digest | Replay_failed string nat string | Json_error
  | Incompatible_report | Host_error

type_synonym 'a step = "directory \<Rightarrow> (bundle_error + 'a) \<times> directory"

definition and_then :: "'a step \<Rightarrow> ('a \<Rightarrow> 'b step) \<Rightarrow> 'b step" where
  "and_then m f dir =
     (case m dir of (Inl e, dir') \<Rightarrow> (Inl e, dir') | (Inr x, dir') \<Rightarrow> f x dir')"

definition gives :: "'a \<Rightarrow> 'a step" where
  "gives x dir = (Inr x, dir)"

definition from_option :: "bundle_error \<Rightarrow> 'a option \<Rightarrow> 'a step" where
  "from_option e v dir = ((case v of None \<Rightarrow> Inl e | Some x \<Rightarrow> Inr x), dir)"

text \<open>A loop that takes a step for each element, in order, and collects the results.\<close>

fun for_each :: "('a \<Rightarrow> 'b step) \<Rightarrow> 'a list \<Rightarrow> 'b list step" where
  "for_each f [] dir = (Inr [], dir)"
| "for_each f (x # xs) dir =
     (case f x dir of
        (Inl e, dir') \<Rightarrow> (Inl e, dir')
      | (Inr y, dir') \<Rightarrow>
          (case for_each f xs dir' of
             (Inl e, dir'') \<Rightarrow> (Inl e, dir'')
           | (Inr ys, dir'') \<Rightarrow> (Inr (y # ys), dir'')))"

section \<open>Files\<close>

definition read_text :: "string \<Rightarrow> string step" where
  "read_text path dir = from_option File_error (dir path) dir"

text \<open>\<open>write_text\<close> returns normally when the file is stored and when it is lost on close.\<close>

definition write_text :: "text_outcome \<Rightarrow> string \<Rightarrow> string \<Rightarrow> unit step" where
  "write_text outcome path val dir =
     (case outcome of
        Not_created \<Rightarrow> (Inl File_error, dir)
      | Text_stopped n \<Rightarrow> (Inl File_error, dir(path \<mapsto> stored_text outcome val))
      | _ \<Rightarrow> (Inr (), dir(path \<mapsto> stored_text outcome val)))"

section \<open>Child processes\<close>

text \<open>
  What a child does: the result of \<open>run_process\<close>, and the contents of the files that its standard
  output and error streams were sent to, \<open>None\<close> if there is no such file.
\<close>

record child_run =
  exit_status :: "nat option"
  child_output :: "string option"
  child_error :: "string option"

definition is_hex :: "char \<Rightarrow> bool" where
  "is_hex c \<longleftrightarrow> CHR ''0'' \<le> c \<and> c \<le> CHR ''9'' \<or> CHR ''a'' \<le> c \<and> c \<le> CHR ''f''"

definition sha256 :: "child_run \<Rightarrow> string step" where
  "sha256 c dir0 =
     (let dir = dir0(''sha256.stdout'' := child_output c, ''sha256.stderr'' := child_error c)
      in case exit_status c of
           None \<Rightarrow> (Inl Process_error, dir)
         | Some code \<Rightarrow>
             if code \<noteq> 0 then and_then (read_text ''sha256.stderr'') (\<lambda>s d. (Inl (Digest_failed s), d)) dir
             else
               and_then (read_text ''sha256.stdout'') (\<lambda>s d.
                 let d = d(''sha256.stdout'' := None, ''sha256.stderr'' := None)
                 in if length s < 64 \<or> \<not> list_all is_hex (take 64 s) then (Inl Bad_digest, d)
                    else (Inr (take 64 s), d)) dir)"

definition replay_arguments :: "string \<Rightarrow> string \<Rightarrow> string list" where
  "replay_arguments inp eng = [''replay'', ''--input'', inp, ''--engine'', eng]"

definition stem :: "bool \<Rightarrow> u64 \<Rightarrow> u64 \<Rightarrow> string \<Rightarrow> string" where
  "stem measured i k eng =
     (if measured then ''run-'' else ''warmup-'') @ setw_fill 3 CHR ''0'' (to_string i) @
     ''-order-'' @ setw_fill 2 CHR ''0'' (to_string k) @ ''-'' @ eng"

definition base_path :: "bool \<Rightarrow> string" where
  "base_path measured = (if measured then ''runs/'' else [])"

definition standard_output :: "bool \<Rightarrow> u64 \<Rightarrow> u64 \<Rightarrow> string \<Rightarrow> string" where
  "standard_output measured i k eng = base_path measured @ stem measured i k eng @ ''.json''"

definition standard_error :: "bool \<Rightarrow> u64 \<Rightarrow> u64 \<Rightarrow> string \<Rightarrow> string" where
  "standard_error measured i k eng = base_path measured @ stem measured i k eng @ ''.stderr.txt''"

text \<open>\<open>parse_report\<close>: \<open>||\<close> does not read the engine of a report of another schema version.\<close>

definition parse_report :: "'j json_lib \<Rightarrow> string \<Rightarrow> string \<Rightarrow> 'j step" where
  "parse_report J path expected_engine =
     and_then (read_text path) (\<lambda>s.
     and_then (from_option Json_error (json_parse J s)) (\<lambda>v.
     and_then (from_option Json_error (json_at J v ''schema_version'')) (\<lambda>schema d.
     if \<not> json_eq_int J schema 1 then (Inl Incompatible_report, d)
     else
       and_then (from_option Json_error (json_at J v ''engine'')) (\<lambda>name d.
         if \<not> json_eq_string J name expected_engine then (Inl Incompatible_report, d)
         else (Inr v, d)) d)))"

text \<open>
  A replay is named by its iteration, its order in the pair and its engine; \<open>children\<close> tells what the
  child process of a measured or warm-up replay does with the arguments it is given. The paths of a
  measured run are relative to the working directory, as the keys of the directory are.
\<close>

type_synonym children = "bool \<Rightarrow> u64 \<Rightarrow> u64 \<Rightarrow> string list \<Rightarrow> child_run"

definition run_replay :: "'j json_lib \<Rightarrow> children \<Rightarrow> string \<Rightarrow> bool \<Rightarrow> u64 \<times> u64 \<times> string
    \<Rightarrow> 'j measured_run option step" where
  "run_replay J children inp measured job dir0 =
     (case job of (i, k, eng) \<Rightarrow>
      let out = standard_output measured i k eng;
          err = standard_error measured i k eng;
          c = children measured i k (replay_arguments inp eng);
          dir = dir0(out := child_output c, err := child_error c)
      in case exit_status c of
           None \<Rightarrow> (Inl Process_error, dir)
         | Some code \<Rightarrow>
             if code > 1 then
               and_then (read_text err) (\<lambda>s d. (Inl (Replay_failed eng code s), d)) dir
             else
               and_then (parse_report J out eng) (\<lambda>v d.
                 if \<not> measured then (Inr None, d(out := None, err := None))
                 else (Inr (Some \<lparr>iteration = i, order_in_pair = k, run_engine = eng,
                                  run_output = out, run_error = err, run_report = v\<rparr>), d)) dir)"

section \<open>The order of the replays\<close>

definition pair_jobs :: "u64 \<Rightarrow> (u64 \<times> u64 \<times> string) list" where
  "pair_jobs i =
     (let bengal_first = (i mod 2 \<noteq> 0)
      in [(i, 1, if bengal_first then ''bengal'' else ''standard''),
          (i, 2, if bengal_first then ''standard'' else ''bengal'')])"

text \<open>Iterations \<open>1, \<dots>, n\<close>; both loops count far below the end of the type.\<close>

definition schedule :: "u64 \<Rightarrow> (u64 \<times> u64 \<times> string) list" where
  "schedule n = concat (map pair_jobs (map of_nat [1..<Suc (unat n)]))"

section \<open>The HTML page\<close>

definition escape_char :: "char \<Rightarrow> string" where
  "escape_char c =
     (if c = CHR ''&'' then ''&amp;''
      else if c = CHR ''<'' then ''&lt;''
      else if c = CHR ''>'' then ''&gt;''
      else if c = CHR 0x22 then ''&quot;''
      else [c])"

definition html_escape :: "string \<Rightarrow> string" where
  "html_escape s = concat (map escape_char s)"

definition html_row :: "'j json_lib \<Rightarrow> string \<Rightarrow> 'j \<Rightarrow> 'j \<Rightarrow> string option" where
  "html_row J label left right = do {
     lm \<leftarrow> json_at J left ''median'' \<bind> json_dump J;
     l25 \<leftarrow> json_at J left ''p25'' \<bind> json_dump J;
     l75 \<leftarrow> json_at J left ''p75'' \<bind> json_dump J;
     rm \<leftarrow> json_at J right ''median'' \<bind> json_dump J;
     r25 \<leftarrow> json_at J right ''p25'' \<bind> json_dump J;
     r75 \<leftarrow> json_at J right ''p75'' \<bind> json_dump J;
     Some (''<tr><th>'' @ label @ ''</th><td>'' @ lm @ ''</td><td>'' @ l25 @ '' - '' @ l75 @
           ''</td><td>'' @ rm @ ''</td><td>'' @ r25 @ '' - '' @ r75 @ ''</td></tr>'') }"

definition html_head :: string where
  "html_head =
     ''<!doctype html><html lang='' @ [CHR 0x22] @ ''en'' @ [CHR 0x22] @
     ''><head><meta charset='' @ [CHR 0x22] @ ''utf-8'' @ [CHR 0x22] @ ''>'' @
     ''<meta name='' @ [CHR 0x22] @ ''viewport'' @ [CHR 0x22] @ '' content='' @ [CHR 0x22] @
     ''width=device-width,initial-scale=1'' @ [CHR 0x22] @ ''>'' @
     ''<title>Bengal Market benchmark report</title><style>'' @
     ''body{font:15px system-ui,sans-serif;max-width:960px;margin:40px '' @
     ''auto;padding:0 20px;color:#171717}table{border-collapse:collapse;'' @
     ''width:100%}th,td{border:1px solid #bbb;padding:8px;text-align:right}'' @
     ''th:first-child{text-align:left}code{background:#eee;padding:2px 4px}'' @
     ''.ok{color:#126b2f}.bad{color:#9b1c1c}</style></head><body>'' @
     ''<h1>Bengal Market benchmark report</h1><p>Fixture: <code>''"

definition html_table_head :: string where
  "html_table_head =
     ''</p><table><thead><tr><th>Metric</th>'' @
     ''<th>Bengal median</th><th>Bengal p25 - p75</th>'' @
     ''<th>Standard median</th><th>Standard p25 - p75</th>'' @
     ''</tr></thead><tbody>''"

definition html_tail :: string where
  "html_tail =
     ''</tbody></table><p>These are local bounded-pipeline measurements, '' @
     ''not exchange-to-client latency or financial performance.</p>'' @
     ''</body></html>'' @ [newline]"

definition metric_row :: "'j json_lib \<Rightarrow> 'j \<Rightarrow> 'j \<Rightarrow> string \<Rightarrow> string \<Rightarrow> string option" where
  "metric_row J ours theirs label name = do {
     left \<leftarrow> json_at J ours name;
     right \<leftarrow> json_at J theirs name;
     html_row J label left right }"

definition html_report :: "'j json_lib \<Rightarrow> 'j \<Rightarrow> string option" where
  "html_report J manifest = do {
     ours \<leftarrow> json_at J manifest ''summary'' \<bind> (\<lambda>v. json_at J v ''bengal'');
     theirs \<leftarrow> json_at J manifest ''summary'' \<bind> (\<lambda>v. json_at J v ''standard'');
     digest \<leftarrow> json_at J manifest ''fixture'' \<bind> (\<lambda>v. json_at J v ''sha256'') \<bind> json_get_string J;
     n \<leftarrow> json_at J manifest ''benchmark'' \<bind> (\<lambda>v. json_at J v ''runs'') \<bind> json_dump J;
     warm \<leftarrow> json_at J manifest ''benchmark'' \<bind> (\<lambda>v. json_at J v ''warmups'') \<bind> json_dump J;
     valid \<leftarrow> json_at J manifest ''comparable'' \<bind> json_get_bool J;
     row1 \<leftarrow> metric_row J ours theirs ''Elapsed ns'' ''elapsed_ns'';
     row2 \<leftarrow> metric_row J ours theirs ''Stage p50 ns'' ''stage_latency_p50_ns'';
     row3 \<leftarrow> metric_row J ours theirs ''Stage p95 ns'' ''stage_latency_p95_ns'';
     row4 \<leftarrow> metric_row J ours theirs ''Stage p99 ns'' ''stage_latency_p99_ns'';
     Some (html_head @ html_escape digest @ ''</code></p><p>Measured pairs: '' @ n @
           ''; warm-up pairs: '' @ warm @ ''</p><p class='' @ [CHR 0x22] @
           (if valid then ''ok'' else ''bad'') @ [CHR 0x22] @ ''>Comparable: '' @
           (if valid then ''yes'' else ''no'') @ html_table_head @
           row1 @ row2 @ row3 @ row4 @ html_tail) }"

section \<open>The benchmark\<close>

text \<open>\<open>struct benchmark_options\<close> and \<open>struct benchmark_result\<close>; paths are texts.\<close>

record benchmark_options =
  bench_input :: string
  bench_output :: string
  bench_executable :: string
  runs_wanted :: u64
  warmups_wanted :: u64

record benchmark_result =
  result_output :: string
  measured_processes :: u64
  result_comparable :: bool

definition maximum_runs :: u64 where
  "maximum_runs = 1000"

definition maximum_warmups :: u64 where
  "maximum_warmups = 100"

text \<open>
  \<open>utc_now\<close>: \<open>gmtime_r\<close> may fail; otherwise \<open>put_time\<close> prints the fields of the broken-down time, the
  year of which is from 1000 to 9999 here.
\<close>

record broken_down =
  tm_year :: nat
  tm_month :: nat
  tm_day :: nat
  tm_hour :: nat
  tm_minute :: nat
  tm_second :: nat

definition two_digits :: "nat \<Rightarrow> string" where
  "two_digits n = setw_fill 2 CHR ''0'' (show_nat n)"

definition utc_now :: "broken_down option \<Rightarrow> string" where
  "utc_now time =
     (case time of
        None \<Rightarrow> ''unknown''
      | Some t \<Rightarrow>
          show_nat (tm_year t) @ ''-'' @ two_digits (tm_month t) @ ''-'' @ two_digits (tm_day t) @ ''T'' @
          two_digits (tm_hour t) @ '':'' @ two_digits (tm_minute t) @ '':'' @ two_digits (tm_second t) @ ''Z'')"

text \<open>
  What the rest of the system does: \<open>canonical\<close> and \<open>absolute\<close>, the creation of the missing parents of
  the working directory, of the directory itself and of \<open>runs\<close> below it, \<open>sha256sum\<close> on a path, the
  replays of an executable, the fate of each written file, the clock, \<open>file_size\<close>, the host description,
  the final \<open>rename\<close>, and the texts that the build puts into the program. \<open>seen_around\<close> is what the
  output path shows when the working directory, if there is one, lies below it.
\<close>

record bench_host =
  canonical_path :: "string \<Rightarrow> string option"
  absolute_path :: "string \<Rightarrow> string option"
  creates_parents :: bool
  creates_working :: bool
  creates_runs :: bool
  seen_around :: "directory option \<Rightarrow> directory"
  hash_child :: "string \<Rightarrow> child_run"
  replay_child :: "string \<Rightarrow> children"
  outcome_of :: "string \<Rightarrow> text_outcome"
  broken_down_time :: "broken_down option"
  size_of_file :: "string \<Rightarrow> u64 option"
  host_machine :: host
  renames :: bool
  tool_version :: string
  tool_revision :: string
  queue_version :: string

text \<open>What is at the output path and at the working path, if anything.\<close>

record evidence =
  at_output :: "directory option"
  at_part :: "directory option"

text \<open>
  The working path is the output path with \<open>.part\<close> appended to its text. It names a sibling of the
  output only if the output path ends in a name: after a slash, \<open>.\<close> or \<open>..\<close> it lies below the output
  path, or its parents do, so that creating them creates the output path too.
\<close>

definition part_inside :: "string \<Rightarrow> bool" where
  "part_inside out \<longleftrightarrow> filename out \<in> {[], ''.'', ''..''}"

definition placed :: "bench_host \<Rightarrow> string \<Rightarrow> directory option \<Rightarrow> evidence \<Rightarrow> evidence" where
  "placed h out part e =
     e\<lparr>at_part := part, at_output := (if part_inside out then Some (seen_around h part) else at_output e)\<rparr>"

definition run_index :: "'j json_lib \<Rightarrow> 'j measured_run list \<Rightarrow> 'j" where
  "run_index J measured =
     json_array J (map (\<lambda>run. json_object J
       [(''iteration'', json_number J (iteration run)),
        (''order'', json_number J (order_in_pair run)),
        (''engine'', json_string J (run_engine run)),
        (''report'', json_string J (run_output run)),
        (''stderr'', json_string J (run_error run))]) measured)"

definition scope_text :: string where
  "scope_text =
     ''Local bounded-pipeline measurements only; not exchange-to-client '' @
     ''latency or financial performance.''"

definition manifest_object :: "'j json_lib \<Rightarrow> bench_host \<Rightarrow> benchmark_options \<Rightarrow> string \<Rightarrow> string \<Rightarrow> string
    \<Rightarrow> u64 \<Rightarrow> 'j \<Rightarrow> bool \<Rightarrow> 'j \<Rightarrow> 'j \<Rightarrow> 'j \<Rightarrow> 'j" where
  "manifest_object J h opts inp digest exe_digest bytes env valid ours theirs index =
     json_object J
      [(''schema_version'', json_number J 1),
       (''created_at_utc'', json_string J (utc_now (broken_down_time h))),
       (''tool'', json_object J
         [(''name'', json_string J ''bengal-market''),
          (''version'', json_string J (tool_version h)),
          (''source_revision'', json_string J (tool_revision h)),
          (''bengal_version'', json_string J (queue_version h)),
          (''executable_sha256'', json_string J exe_digest)]),
       (''benchmark'', json_object J
         [(''runs'', json_number J (runs_wanted opts)),
          (''warmups'', json_number J (warmups_wanted opts)),
          (''fresh_process_per_replay'', json_bool J True),
          (''engine_order'', json_string J ''alternating'')]),
       (''fixture'', json_object J
         [(''name'', json_string J (filename inp)),
          (''size_bytes'', json_number J bytes),
          (''sha256'', json_string J digest)]),
       (''environment'', env),
       (''comparable'', json_bool J valid),
       (''summary'', json_object J [(''bengal'', ours), (''standard'', theirs)]),
       (''runs'', index),
       (''scope'', json_string J scope_text)]"

definition manifest_value :: "'j json_lib \<Rightarrow> bench_host \<Rightarrow> benchmark_options \<Rightarrow> string \<Rightarrow> string \<Rightarrow> string
    \<Rightarrow> 'j measured_run list \<Rightarrow> bool \<Rightarrow> 'j step" where
  "manifest_value J h opts inp digest exe_digest measured valid =
     and_then (from_option File_error (size_of_file h inp)) (\<lambda>bytes.
     and_then (from_option Host_error (environment_value J (host_machine h))) (\<lambda>env.
     and_then (from_option Json_error (summarize J measured ''bengal'')) (\<lambda>ours.
     and_then (from_option Json_error (summarize J measured ''standard'')) (\<lambda>theirs.
     gives (manifest_object J h opts inp digest exe_digest bytes env valid ours theirs
              (run_index J measured))))))"

definition assemble :: "'j json_lib \<Rightarrow> bench_host \<Rightarrow> benchmark_options \<Rightarrow> string \<Rightarrow> string
    \<Rightarrow> (u64 \<times> bool) step" where
  "assemble J h opts inp exe =
     and_then (sha256 (hash_child h inp)) (\<lambda>digest.
     and_then (sha256 (hash_child h exe)) (\<lambda>exe_digest.
     and_then (write_text (outcome_of h ''fixture.sha256'') ''fixture.sha256''
                (digest @ ''  '' @ filename inp @ [newline])) (\<lambda>_.
     and_then (for_each (run_replay J (replay_child h exe) inp False) (schedule (warmups_wanted opts))) (\<lambda>_.
     and_then (for_each (run_replay J (replay_child h exe) inp True) (schedule (runs_wanted opts))) (\<lambda>results.
     let measured = List.map_filter id results in
     and_then (from_option Json_error (comparable J measured)) (\<lambda>valid.
     and_then (manifest_value J h opts inp digest exe_digest measured valid) (\<lambda>manifest.
     and_then (from_option Json_error (json_dump_indented J 2 manifest)) (\<lambda>s.
     and_then (write_text (outcome_of h ''manifest.json'') ''manifest.json'' (s @ [newline])) (\<lambda>_.
     and_then (from_option Json_error (html_report J manifest)) (\<lambda>page.
     and_then (write_text (outcome_of h ''report.html'') ''report.html'' page) (\<lambda>_.
     gives (of_nat (length measured), valid))))))))))))"

definition check_options :: "benchmark_options \<Rightarrow> bundle_error option" where
  "check_options opts =
     (if bench_input opts = [] \<or> bench_output opts = [] \<or> bench_executable opts = []
      then Some Options_required
      else if runs_wanted opts = 0 \<or> runs_wanted opts > maximum_runs then Some Bad_runs
      else if warmups_wanted opts > maximum_warmups then Some Bad_warmups
      else None)"

definition bench_paths :: "bench_host \<Rightarrow> benchmark_options \<Rightarrow> (string \<times> string \<times> string) option" where
  "bench_paths h opts = do {
     inp \<leftarrow> canonical_path h (bench_input opts);
     exe \<leftarrow> canonical_path h (bench_executable opts);
     out \<leftarrow> absolute_path h (bench_output opts);
     Some (inp, exe, out) }"

text \<open>
  \<open>rename\<close> fails, whatever the file system does, if the output path shows a directory in which the
  working directory lies.
\<close>

definition run_benchmark :: "'j json_lib \<Rightarrow> bench_host \<Rightarrow> benchmark_options \<Rightarrow> evidence
    \<Rightarrow> (bundle_error + benchmark_result) \<times> evidence" where
  "run_benchmark J h opts e =
     (case check_options opts of
        Some err \<Rightarrow> (Inl err, e)
      | None \<Rightarrow>
          (case bench_paths h opts of
             None \<Rightarrow> (Inl File_error, e)
           | Some (inp, exe, out) \<Rightarrow>
               if at_output e \<noteq> None \<or> at_part e \<noteq> None then (Inl Already_exists, e)
               else if \<not> creates_parents h then (Inl File_error, e)
               else if \<not> creates_working h then (Inl File_error, placed h out None e)
               else if \<not> creates_runs h then (Inl File_error, placed h out (Some Map.empty) e)
               else
                 (case assemble J h opts inp exe Map.empty of
                    (Inl err, dir) \<Rightarrow> (Inl err, placed h out (Some dir) e)
                  | (Inr (n, valid), dir) \<Rightarrow>
                      if part_inside out \<or> \<not> renames h then (Inl File_error, placed h out (Some dir) e)
                      else (Inr \<lparr>result_output = out, measured_processes = n, result_comparable = valid\<rparr>,
                            e\<lparr>at_part := None, at_output := Some dir\<rparr>))))"

end
