(* ===== verification/Evidence.thy ===== *)
theory Evidence
  imports Bundle
begin

text \<open>
  The proofs about the benchmark bundle of Bundle: which replays a bundle consists of, that a failure
  publishes nothing, that the published directory holds the raw output of every measured process
  under names of its own and nothing else, and that the benchmark completes when the children do
  what \<open>main\<close> does.
\<close>

section \<open>Steps\<close>

lemma and_then_Inr:
  "and_then m f dir = (Inr y, dir'') \<longleftrightarrow> (\<exists>x dir'. m dir = (Inr x, dir') \<and> f x dir' = (Inr y, dir''))"
  by (auto simp: and_then_def split: prod.splits sum.splits)

lemma and_then_run: "m dir = (Inr x, dir') \<Longrightarrow> and_then m f dir = f x dir'"
  by (simp add: and_then_def)

lemma from_option_Inr: "from_option e v dir = (Inr x, dir') \<longleftrightarrow> v = Some x \<and> dir' = dir"
  by (auto simp: from_option_def split: option.splits)

lemma read_text_Inr: "read_text path dir = (Inr s, dir') \<longleftrightarrow> dir path = Some s \<and> dir' = dir"
  by (simp add: read_text_def from_option_Inr)

lemma gives_Inr: "gives x dir = (Inr y, dir') \<longleftrightarrow> y = x \<and> dir' = dir"
  by (auto simp: gives_def)

lemmas step_Inr = and_then_Inr from_option_Inr read_text_Inr gives_Inr

lemma for_each_Inr:
  assumes "\<And>x d y d'. x \<in> set xs \<Longrightarrow> f x d = (Inr y, d') \<longleftrightarrow> ok x \<and> y = g x \<and> d' = eff x d"
  shows "for_each f xs d = (Inr ys, d') \<longleftrightarrow>
    (\<forall>x \<in> set xs. ok x) \<and> ys = map g xs \<and> d' = fold eff xs d"
  using assms
proof (induction xs arbitrary: d ys)
  case (Cons x xs)
  have IH: "for_each f xs d1 = (Inr zs, d') \<longleftrightarrow>
      (\<forall>x \<in> set xs. ok x) \<and> zs = map g xs \<and> d' = fold eff xs d1" for d1 zs
    using Cons.prems by (intro Cons.IH) simp
  have here: "f x d1 = (Inr y, d2) \<longleftrightarrow> ok x \<and> y = g x \<and> d2 = eff x d1" for d1 y d2
    using Cons.prems by simp
  have "for_each f (x # xs) d = (Inr ys, d') \<longleftrightarrow>
      (\<exists>y d1 zs. f x d = (Inr y, d1) \<and> for_each f xs d1 = (Inr zs, d') \<and> ys = y # zs)"
    by (auto split: prod.splits sum.splits)
  then show ?case by (auto simp: here IH)
qed auto

section \<open>One replay\<close>

definition child_of :: "children \<Rightarrow> string \<Rightarrow> bool \<Rightarrow> u64 \<times> u64 \<times> string \<Rightarrow> child_run" where
  "child_of ch inp measured job =
     (case job of (i, k, eng) \<Rightarrow> ch measured i k (replay_arguments inp eng))"

definition accepted_report :: "'j json_lib \<Rightarrow> child_run \<Rightarrow> string \<Rightarrow> 'j option" where
  "accepted_report J c eng =
     (case exit_status c of
        None \<Rightarrow> None
      | Some code \<Rightarrow>
          if code > 1 then None
          else do {
            s \<leftarrow> child_output c;
            v \<leftarrow> json_parse J s;
            schema \<leftarrow> json_at J v ''schema_version'';
            name \<leftarrow> (if json_eq_int J schema 1 then json_at J v ''engine'' else None);
            if json_eq_string J name eng then Some v else None })"

lemma parse_report_Inr:
  "parse_report J path eng dir = (Inr v, dir') \<longleftrightarrow> dir' = dir \<and>
   (\<exists>s schema name. dir path = Some s \<and> json_parse J s = Some v \<and>
      json_at J v ''schema_version'' = Some schema \<and> json_eq_int J schema 1 \<and>
      json_at J v ''engine'' = Some name \<and> json_eq_string J name eng)"
  by (auto simp: parse_report_def step_Inr split: if_splits)

lemma accepted_report_Some:
  "accepted_report J c eng = Some v \<longleftrightarrow>
   (\<exists>code s schema name. exit_status c = Some code \<and> code \<le> 1 \<and> child_output c = Some s \<and>
      json_parse J s = Some v \<and> json_at J v ''schema_version'' = Some schema \<and>
      json_eq_int J schema 1 \<and> json_at J v ''engine'' = Some name \<and> json_eq_string J name eng)"
  by (auto simp: accepted_report_def bind_eq_Some_conv split: option.splits if_splits)

lemma output_not_error: "standard_output m i k eng \<noteq> standard_error m' i' k' eng'"
proof
  assume "standard_output m i k eng = standard_error m' i' k' eng'"
  then have "last (standard_output m i k eng) = last (standard_error m' i' k' eng')" by simp
  then show False by (simp add: standard_output_def standard_error_def)
qed

lemmas paths_differ [simp] = output_not_error output_not_error [symmetric]

definition run_of :: "'j json_lib \<Rightarrow> children \<Rightarrow> string \<Rightarrow> u64 \<times> u64 \<times> string \<Rightarrow> 'j measured_run" where
  "run_of J ch inp job =
     (case job of (i, k, eng) \<Rightarrow>
        \<lparr>iteration = i, order_in_pair = k, run_engine = eng,
         run_output = standard_output True i k eng, run_error = standard_error True i k eng,
         run_report = the (accepted_report J (child_of ch inp True job) eng)\<rparr>)"

definition leaves :: "children \<Rightarrow> string \<Rightarrow> bool \<Rightarrow> u64 \<times> u64 \<times> string \<Rightarrow> directory \<Rightarrow> directory" where
  "leaves ch inp measured job dir =
     (case job of (i, k, eng) \<Rightarrow>
        dir(standard_output measured i k eng := (if measured then child_output (child_of ch inp True job) else None),
            standard_error measured i k eng := (if measured then child_error (child_of ch inp True job) else None)))"

definition accepted :: "'j json_lib \<Rightarrow> children \<Rightarrow> string \<Rightarrow> bool \<Rightarrow> u64 \<times> u64 \<times> string \<Rightarrow> bool" where
  "accepted J ch inp measured job \<longleftrightarrow>
     accepted_report J (child_of ch inp measured job) (snd (snd job)) \<noteq> None"

lemma run_replay_Inr:
  "run_replay J ch inp measured job d = (Inr y, d') \<longleftrightarrow>
   accepted J ch inp measured job \<and> y = (if measured then Some (run_of J ch inp job) else None) \<and>
   d' = leaves ch inp measured job d"
proof -
  obtain i k eng where job: "job = (i, k, eng)" by (cases job) auto
  let ?out = "standard_output measured i k eng" and ?err = "standard_error measured i k eng"
  let ?c = "child_of ch inp measured job"
  let ?d = "d(?out := child_output ?c, ?err := child_error ?c)"
  have c: "?c = ch measured i k (replay_arguments inp eng)" by (simp add: child_of_def job)
  have at_out: "?d ?out = child_output ?c" using output_not_error by simp
  have over: "?d(?out := None, ?err := None) = d(?out := None, ?err := None)"
    using output_not_error [of measured i k eng measured i k eng] by (auto simp: fun_eq_iff)
  have run: "run_replay J ch inp measured job d =
    (case exit_status ?c of
       None \<Rightarrow> (Inl Process_error, ?d)
     | Some code \<Rightarrow>
         if code > 1 then and_then (read_text ?err) (\<lambda>s d. (Inl (Replay_failed eng code s), d)) ?d
         else and_then (parse_report J ?out eng) (\<lambda>v d.
           if \<not> measured then (Inr None, d(?out := None, ?err := None))
           else (Inr (Some \<lparr>iteration = i, order_in_pair = k, run_engine = eng,
                            run_output = ?out, run_error = ?err, run_report = v\<rparr>), d)) ?d)"
    unfolding c by (simp add: run_replay_def job Let_def)
  have "run_replay J ch inp measured job d = (Inr y, d') \<longleftrightarrow>
    (\<exists>v. accepted_report J ?c eng = Some v \<and>
      (if \<not> measured then y = None \<and> d' = ?d(?out := None, ?err := None)
       else y = Some \<lparr>iteration = i, order_in_pair = k, run_engine = eng,
                      run_output = ?out, run_error = ?err, run_report = v\<rparr> \<and> d' = ?d))"
    unfolding run accepted_report_Some
    by (cases "exit_status ?c") (auto simp: step_Inr parse_report_Inr at_out split: if_splits)
  then show ?thesis
    unfolding over
    by (cases measured)
      (auto simp: accepted_def run_of_def leaves_def job)
qed

lemma replays_Inr:
  "for_each (run_replay J ch inp measured) jobs d = (Inr ys, d') \<longleftrightarrow>
   (\<forall>job \<in> set jobs. accepted J ch inp measured job) \<and>
   ys = map (\<lambda>job. if measured then Some (run_of J ch inp job) else None) jobs \<and>
   d' = fold (leaves ch inp measured) jobs d"
  by (rule for_each_Inr) (rule run_replay_Inr)

section \<open>Names of the files\<close>

lemma filled_digits: "list_all is_digit (setw_fill w CHR ''0'' (to_string n))"
  by (simp add: setw_fill_def to_string_def list_all_replicate)

lemma filled_value: "digits_value (setw_fill w CHR ''0'' (to_string n)) = unat n"
  by (simp add: setw_fill_def to_string_def digits_value_append)

lemma filled_inj: "setw_fill w CHR ''0'' (to_string m) = setw_fill w CHR ''0'' (to_string n) \<Longrightarrow> m = n"
  by (metis filled_value word_unat_eq_iff)

lemma digits_field_eq:
  assumes "list_all is_digit a" and "list_all is_digit b" and "\<not> is_digit c"
    and "a @ c # r = b @ c # s"
  shows "a = b" and "r = s"
proof -
  have "ends_value (c # r)" "ends_value (c # s)" using assms(3) by (simp_all add: ends_value_def)
  note a = digits_then [OF assms(1) this(1)] and b = digits_then [OF assms(2) this(2)]
  show "a = b" using a(1) b(1) assms(4) by simp
  then show "r = s" using assms(4) by simp
qed

lemma stem_inj:
  assumes "stem m i k eng @ suffix = stem m i' k' eng' @ suffix"
  shows "i = i' \<and> k = k' \<and> eng = eng'"
proof -
  let ?rest = "\<lambda>k eng. ''order-'' @ setw_fill 2 CHR ''0'' (to_string k) @ ''-'' @ eng @ suffix"
  have dash: "\<not> is_digit CHR ''-''" by (simp add: is_digit_def)
  have "setw_fill 3 CHR ''0'' (to_string i) @ CHR ''-'' # ?rest k eng =
      setw_fill 3 CHR ''0'' (to_string i') @ CHR ''-'' # ?rest k' eng'"
    using assms by (simp add: stem_def split: if_splits)
  note first = digits_field_eq [OF filled_digits filled_digits dash this]
  have "setw_fill 2 CHR ''0'' (to_string k) @ CHR ''-'' # (eng @ suffix) =
      setw_fill 2 CHR ''0'' (to_string k') @ CHR ''-'' # (eng' @ suffix)"
    using first(2) by simp
  note second = digits_field_eq [OF filled_digits filled_digits dash this]
  show ?thesis using filled_inj [OF first(1)] filled_inj [OF second(1)] second(2) by simp
qed

definition out_path :: "u64 \<times> u64 \<times> string \<Rightarrow> string" where
  "out_path job = (case job of (i, k, eng) \<Rightarrow> standard_output True i k eng)"

definition err_path :: "u64 \<times> u64 \<times> string \<Rightarrow> string" where
  "err_path job = (case job of (i, k, eng) \<Rightarrow> standard_error True i k eng)"

lemma out_path_inj [simp]: "out_path job = out_path job' \<longleftrightarrow> job = job'"
proof -
  obtain i k eng i' k' eng' where "job = (i, k, eng)" "job' = (i', k', eng')" by (cases job, cases job') auto
  then show ?thesis
    using stem_inj [of True i k eng "''.json''" i' k' eng'] by (auto simp: out_path_def standard_output_def)
qed

lemma err_path_inj [simp]: "err_path job = err_path job' \<longleftrightarrow> job = job'"
proof -
  obtain i k eng i' k' eng' where "job = (i, k, eng)" "job' = (i', k', eng')" by (cases job, cases job') auto
  then show ?thesis
    using stem_inj [of True i k eng "''.stderr.txt''" i' k' eng']
    by (auto simp: err_path_def standard_error_def)
qed

lemma out_err_path [simp]: "out_path job \<noteq> err_path job'" "err_path job' \<noteq> out_path job"
  by (simp_all add: out_path_def err_path_def split: prod.splits)

lemma run_path_top: "take 5 (out_path job) = ''runs/''" "take 5 (err_path job) = ''runs/''"
  by (simp_all add: out_path_def err_path_def standard_output_def standard_error_def base_path_def
      split: prod.splits)

lemma not_run_path: "take 5 p \<noteq> ''runs/'' \<Longrightarrow> p \<noteq> out_path job \<and> p \<noteq> err_path job"
  by (auto simp: run_path_top)

lemma warmup_path_top:
  "take 6 (standard_output False i k eng) = ''warmup''" "take 6 (standard_error False i k eng) = ''warmup''"
  by (simp_all add: standard_output_def standard_error_def base_path_def stem_def)

section \<open>What the replays leave in the directory\<close>

lemma warmups_leave_nothing:
  assumes "\<And>p. take 6 p = ''warmup'' \<Longrightarrow> dir p = None"
  shows "fold (leaves ch inp False) jobs dir = dir"
proof (induction jobs)
  case (Cons job jobs)
  have "leaves ch inp False job dir = dir"
    using assms warmup_path_top by (auto simp: leaves_def fun_eq_iff split: prod.splits)
  then show ?case using Cons by simp
qed simp

lemma measured_leave:
  "fold (leaves ch inp True) jobs dir p =
   (if p \<in> out_path ` set jobs then child_output (child_of ch inp True (inv out_path p))
    else if p \<in> err_path ` set jobs then child_error (child_of ch inp True (inv err_path p))
    else dir p)"
proof (induction jobs arbitrary: dir)
  case (Cons job jobs)
  have inj: "inj out_path" "inj err_path" by (simp_all add: inj_def)
  have "leaves ch inp True job dir =
    dir(out_path job := child_output (child_of ch inp True job),
        err_path job := child_error (child_of ch inp True job))"
    by (simp add: leaves_def out_path_def err_path_def split: prod.splits)
  then show ?case using Cons inj by (auto simp: inv_f_f)
qed simp

lemma measured_leave_at:
  assumes "job \<in> set jobs"
  shows "fold (leaves ch inp True) jobs dir (out_path job) = child_output (child_of ch inp True job)"
    and "fold (leaves ch inp True) jobs dir (err_path job) = child_error (child_of ch inp True job)"
proof -
  have inj: "inj out_path" "inj err_path" by (simp_all add: inj_def)
  show "fold (leaves ch inp True) jobs dir (out_path job) = child_output (child_of ch inp True job)"
    using assms inj by (simp add: measured_leave inv_f_f)
  show "fold (leaves ch inp True) jobs dir (err_path job) = child_error (child_of ch inp True job)"
    using assms inj by (auto simp add: measured_leave inv_f_f)
qed

section \<open>The order of the replays\<close>

lemma schedule_split: "schedule n = concat (map (\<lambda>i. pair_jobs (of_nat i)) [1..<Suc (unat n)])"
  by (simp add: schedule_def comp_def)

lemma pair_jobs_filter:
  "length (filter (\<lambda>job. snd (snd job) = ''bengal'') (pair_jobs i)) = 1"
  "length (filter (\<lambda>job. snd (snd job) = ''standard'') (pair_jobs i)) = 1"
  by (simp_all add: pair_jobs_def Let_def)

lemma length_schedule: "length (schedule n) = 2 * unat n"
proof -
  have "length (concat (map (\<lambda>i. pair_jobs (of_nat i)) ns)) = 2 * length ns" for ns
    by (induction ns) (simp_all add: pair_jobs_def Let_def)
  then show ?thesis unfolding schedule_split by simp
qed

lemma odd_iteration: "(of_nat i :: u64) mod 2 = 0 \<longleftrightarrow> even i"
  by (simp flip: even_iff_mod_2_eq_zero)

lemma pair_jobs_of_nat:
  "pair_jobs (of_nat i) =
     (if odd i then [(of_nat i, 1, ''bengal''), (of_nat i, 2, ''standard'')]
      else [(of_nat i, 1, ''standard''), (of_nat i, 2, ''bengal'')])"
  by (simp add: pair_jobs_def odd_iteration)

lemma count_schedule:
  assumes "\<And>i. length (filter P (pair_jobs (of_nat i))) = (if odd i then a else b)"
  shows "length (filter P (schedule n)) = a * ((unat n + 1) div 2) + b * (unat n div 2)"
proof -
  have "length (filter P (concat (map (\<lambda>i. pair_jobs (of_nat i)) [1..<Suc m]))) =
      a * ((m + 1) div 2) + b * (m div 2)" for m
  proof (induction m)
    case (Suc m)
    have range: "[1..<Suc (Suc m)] = [1..<Suc m] @ [Suc m]" by simp
    show ?case
      unfolding range map_append concat_append filter_append length_append Suc.IH
      by (cases "odd m") (auto simp: assms simp del: of_nat_Suc elim!: oddE evenE)
  qed simp
  then show ?thesis unfolding schedule_split .
qed

lemma schedule_nth:
  assumes "j < unat n"
  shows "schedule n ! (2 * j) = (of_nat (Suc j), 1, if even j then ''bengal'' else ''standard'')"
    and "schedule n ! (2 * j + 1) = (of_nat (Suc j), 2, if even j then ''standard'' else ''bengal'')"
proof -
  let ?jobs = "\<lambda>m. concat (map (\<lambda>i. pair_jobs (of_nat i)) [1..<Suc m])"
  have len: "length (?jobs m) = 2 * m" for m
    by (induction m) (simp_all add: pair_jobs_def Let_def)
  have "j < m \<Longrightarrow> ?jobs m ! (2 * j) = (of_nat (Suc j), 1, if even j then ''bengal'' else ''standard'') \<and>
      ?jobs m ! (2 * j + 1) = (of_nat (Suc j), 2, if even j then ''standard'' else ''bengal'')" for m
  proof (induction m)
    case (Suc m)
    have step: "?jobs (Suc m) = ?jobs m @ pair_jobs (of_nat (Suc m))" by simp
    show ?case
    proof (cases "j < m")
      case True
      then show ?thesis
        unfolding step using Suc.IH len [of m] by (simp add: nth_append del: of_nat_Suc upt_Suc)
    next
      case False
      then have "j = m" using Suc.prems by simp
      then show ?thesis
        unfolding step using len [of m]
        by (simp add: nth_append pair_jobs_of_nat del: of_nat_Suc upt_Suc)
    qed
  qed simp
  from this [OF assms] show "schedule n ! (2 * j) = (of_nat (Suc j), 1, if even j then ''bengal'' else ''standard'')"
    "schedule n ! (2 * j + 1) = (of_nat (Suc j), 2, if even j then ''standard'' else ''bengal'')"
    unfolding schedule_split by blast+
qed

lemma distinct_schedule: "distinct (schedule n)"
proof -
  have "m < 2 ^ 64 \<Longrightarrow> distinct (concat (map (\<lambda>i. pair_jobs (of_nat i)) [1..<Suc m])) \<and>
      (\<forall>job \<in> set (concat (map (\<lambda>i. pair_jobs (of_nat i)) [1..<Suc m])). unat (fst job) \<le> m)" for m
  proof (induction m)
    case (Suc m)
    have "m < 2 ^ 64" using Suc.prems by simp
    note IH = Suc.IH [OF this, THEN conjunct1] Suc.IH [OF this, THEN conjunct2]
    have u: "unat (of_nat (Suc m) :: u64) = Suc m" using Suc.prems by (rule unat_of_nat_u64)
    have here: "distinct (pair_jobs (of_nat (Suc m)))"
      "\<forall>job \<in> set (pair_jobs (of_nat (Suc m))). fst job = of_nat (Suc m)"
      by (auto simp: pair_jobs_def Let_def)
    have range: "[1..<Suc (Suc m)] = [1..<Suc m] @ [Suc m]" by simp
    show ?case
      unfolding range map_append concat_append
      using IH here u by (auto simp del: of_nat_Suc upt_Suc) fastforce+
  qed simp
  then show ?thesis unfolding schedule_split using unat_lt_u64 [of n] by blast
qed

section \<open>The whole bundle\<close>

definition digest_of :: "child_run \<Rightarrow> string option" where
  "digest_of c =
     (if exit_status c \<noteq> Some 0 then None
      else child_output c \<bind> (\<lambda>s. if length s < 64 \<or> \<not> list_all is_hex (take 64 s) then None
                                  else Some (take 64 s)))"

lemma sha256_Inr:
  "sha256 c d = (Inr digest, d') \<longleftrightarrow> digest_of c = Some digest \<and>
   d' = d(''sha256.stdout'' := None, ''sha256.stderr'' := None)"
proof (cases "exit_status c")
  case None
  then show ?thesis by (simp add: sha256_def digest_of_def)
next
  case (Some code)
  have "d(''sha256.stdout'' := x, ''sha256.stderr'' := y, ''sha256.stdout'' := None, ''sha256.stderr'' := None) =
      d(''sha256.stdout'' := None, ''sha256.stderr'' := None)" for x y
    by (simp add: fun_upd_twist fun_eq_iff)
  then show ?thesis
    by (auto simp: sha256_def digest_of_def Some Let_def step_Inr bind_eq_Some_conv split: if_splits)
qed

definition closes_quietly :: "text_outcome \<Rightarrow> bool" where
  "closes_quietly outcome \<longleftrightarrow> (case outcome of Text_stored \<Rightarrow> True | Lost_on_close n \<Rightarrow> True | _ \<Rightarrow> False)"

lemma write_text_Inr:
  "write_text outcome path s d = (Inr u, d') \<longleftrightarrow>
   closes_quietly outcome \<and> d' = d(path \<mapsto> stored_text outcome s)"
  by (cases outcome) (auto simp: write_text_def closes_quietly_def)

definition manifest_of :: "'j json_lib \<Rightarrow> bench_host \<Rightarrow> benchmark_options \<Rightarrow> string \<Rightarrow> string \<Rightarrow> string
    \<Rightarrow> 'j measured_run list \<Rightarrow> bool \<Rightarrow> 'j option" where
  "manifest_of J h opts inp digest exe_digest runs valid = do {
     bytes \<leftarrow> size_of_file h inp;
     env \<leftarrow> environment_value J (host_machine h);
     ours \<leftarrow> summarize J runs ''bengal'';
     theirs \<leftarrow> summarize J runs ''standard'';
     Some (manifest_object J h opts inp digest exe_digest bytes env valid ours theirs (run_index J runs)) }"

lemma manifest_value_Inr:
  "manifest_value J h opts inp digest exe_digest runs valid d = (Inr m, d') \<longleftrightarrow>
   manifest_of J h opts inp digest exe_digest runs valid = Some m \<and> d' = d"
  by (auto simp: manifest_value_def manifest_of_def step_Inr bind_eq_Some_conv)

definition runs_of :: "'j json_lib \<Rightarrow> bench_host \<Rightarrow> benchmark_options \<Rightarrow> string \<Rightarrow> string
    \<Rightarrow> 'j measured_run list" where
  "runs_of J h opts inp exe = map (run_of J (replay_child h exe) inp) (schedule (runs_wanted opts))"

definition bundle_files :: "bench_host \<Rightarrow> benchmark_options \<Rightarrow> string \<Rightarrow> string \<Rightarrow> string \<Rightarrow> string \<Rightarrow> string
    \<Rightarrow> directory" where
  "bundle_files h opts inp exe digest s page =
     (fold (leaves (replay_child h exe) inp True) (schedule (runs_wanted opts))
        [''fixture.sha256'' \<mapsto> stored_text (outcome_of h ''fixture.sha256'')
           (digest @ ''  '' @ filename inp @ [newline])])
     (''manifest.json'' \<mapsto> stored_text (outcome_of h ''manifest.json'') (s @ [newline]),
      ''report.html'' \<mapsto> stored_text (outcome_of h ''report.html'') page)"

lemma assemble_Inr:
  "assemble J h opts inp exe Map.empty = (Inr (n, valid), dir) \<longleftrightarrow>
   (\<exists>digest exe_digest manifest s page.
      digest_of (hash_child h inp) = Some digest \<and> digest_of (hash_child h exe) = Some exe_digest \<and>
      closes_quietly (outcome_of h ''fixture.sha256'') \<and>
      (\<forall>job \<in> set (schedule (warmups_wanted opts)). accepted J (replay_child h exe) inp False job) \<and>
      (\<forall>job \<in> set (schedule (runs_wanted opts)). accepted J (replay_child h exe) inp True job) \<and>
      comparable J (runs_of J h opts inp exe) = Some valid \<and>
      manifest_of J h opts inp digest exe_digest (runs_of J h opts inp exe) valid = Some manifest \<and>
      json_dump_indented J 2 manifest = Some s \<and> closes_quietly (outcome_of h ''manifest.json'') \<and>
      html_report J manifest = Some page \<and> closes_quietly (outcome_of h ''report.html'') \<and>
      n = of_nat (2 * unat (runs_wanted opts)) \<and>
      dir = bundle_files h opts inp exe digest s page)"
proof -
  have quiet: "Map.empty(''sha256.stdout'' := None, ''sha256.stderr'' := None) = (Map.empty :: directory)"
    by (simp add: fun_eq_iff)
  have warm: "fold (leaves ch i False) jobs [''fixture.sha256'' \<mapsto> x] = [''fixture.sha256'' \<mapsto> x]"
    for ch i jobs x
    by (rule warmups_leave_nothing) auto
  have runs: "List.map_filter id (map (\<lambda>job. if True then Some (f job) else None) jobs) = map f jobs" for f jobs
    by (induction jobs) (simp_all add: List.map_filter_simps)
  have runs': "List.map_filter id (map (\<lambda>job. Some (f job)) jobs) = map f jobs" for f jobs
    by (induction jobs) (simp_all add: List.map_filter_simps)
  have len: "length (runs_of J h opts inp exe) = 2 * unat (runs_wanted opts)"
    by (simp add: runs_of_def length_schedule)
  show ?thesis
    unfolding assemble_def Let_def step_Inr sha256_Inr write_text_Inr replays_Inr manifest_value_Inr
    apply (rule iffI)
     apply (elim exE conjE)
     apply (simp only: quiet warm runs runs_of_def [symmetric] len prod.inject bundle_files_def [symmetric])
     apply (elim conjE, hypsubst, blast)
    apply (elim exE conjE)
    apply (simp add: quiet warm runs' length_schedule)
    apply (simp add: runs_of_def bundle_files_def)
    done
qed

lemma run_benchmark_Inr:
  "run_benchmark J h opts e = (Inr r, e') \<longleftrightarrow>
   check_options opts = None \<and> at_output e = None \<and> at_part e = None \<and> creates_parents h \<and>
   creates_working h \<and> creates_runs h \<and> renames h \<and>
   (\<exists>inp exe out n valid dir. bench_paths h opts = Some (inp, exe, out) \<and> \<not> part_inside out \<and>
      assemble J h opts inp exe Map.empty = (Inr (n, valid), dir) \<and>
      r = \<lparr>result_output = out, measured_processes = n, result_comparable = valid\<rparr> \<and>
      e' = e\<lparr>at_part := None, at_output := Some dir\<rparr>)"
  by (auto simp: run_benchmark_def split: option.splits prod.splits sum.splits if_splits)

lemma run_benchmark_Inl:
  "run_benchmark J h opts e = (Inl err, e') \<Longrightarrow>
   (at_output e' = at_output e \<or>
    at_output e = None \<and> at_output e' = Some (seen_around h (at_part e')) \<and>
    (\<exists>inp exe out. bench_paths h opts = Some (inp, exe, out) \<and> part_inside out)) \<and>
   (at_part e = None \<or> e' = e)"
  by (auto simp: run_benchmark_def placed_def split: option.splits prod.splits sum.splits if_splits)

text \<open>
  An output path that ends in a slash, \<open>.\<close> or \<open>..\<close> cannot be published: after all replays the benchmark
  fails, and the output path then exists, so that the next run refuses it.
\<close>

lemma benchmark_into_itself:
  assumes "bench_paths h opts = Some (inp, exe, out)" and "part_inside out"
    and "check_options opts = None" and "at_output e = None" and "at_part e = None"
    and "creates_parents h" and "run_benchmark J h opts e = (res, e')"
  shows "\<exists>err. res = Inl err" and "fst (run_benchmark J h opts e') = Inl Already_exists"
  using assms by (auto simp: run_benchmark_def placed_def split: prod.splits sum.splits if_splits)

lemma check_options_None:
  "check_options opts = None \<Longrightarrow> 0 < unat (runs_wanted opts) \<and> unat (runs_wanted opts) \<le> 1000 \<and>
   unat (warmups_wanted opts) \<le> 100"
  by (auto simp: check_options_def maximum_runs_def maximum_warmups_def word_nat unat_eq_0
      split: if_splits) (simp add: unat_gt_0)

text \<open>What the directory of a finished benchmark holds.\<close>

lemma bundle_files_at:
  assumes "job \<in> set (schedule (runs_wanted opts))"
  shows "bundle_files h opts inp exe digest s page (out_path job) =
      child_output (child_of (replay_child h exe) inp True job)"
    and "bundle_files h opts inp exe digest s page (err_path job) =
      child_error (child_of (replay_child h exe) inp True job)"
  using run_path_top [of job] measured_leave_at [OF assms] unfolding bundle_files_def by auto

lemma bundle_files_named:
  "bundle_files h opts inp exe digest s page ''manifest.json'' =
     Some (stored_text (outcome_of h ''manifest.json'') (s @ [newline]))"
  "bundle_files h opts inp exe digest s page ''report.html'' =
     Some (stored_text (outcome_of h ''report.html'') page)"
  "bundle_files h opts inp exe digest s page ''fixture.sha256'' =
     Some (stored_text (outcome_of h ''fixture.sha256'') (digest @ ''  '' @ filename inp @ [newline]))"
proof -
  have "''fixture.sha256'' \<noteq> out_path job" "''fixture.sha256'' \<noteq> err_path job" for job
    using not_run_path [of "''fixture.sha256''" job] by simp_all
  then have "''fixture.sha256'' \<notin> out_path ` jobs" "''fixture.sha256'' \<notin> err_path ` jobs" for jobs
    by blast+
  then show "bundle_files h opts inp exe digest s page ''fixture.sha256'' =
     Some (stored_text (outcome_of h ''fixture.sha256'') (digest @ ''  '' @ filename inp @ [newline]))"
    unfolding bundle_files_def by (simp add: measured_leave)
qed (simp_all add: bundle_files_def)

lemma bundle_files_only:
  "dom (bundle_files h opts inp exe digest s page) \<subseteq>
   {''fixture.sha256'', ''manifest.json'', ''report.html''} \<union>
   out_path ` set (schedule (runs_wanted opts)) \<union> err_path ` set (schedule (runs_wanted opts))"
  unfolding bundle_files_def by (auto simp: measured_leave split: if_splits)

text \<open>The runs of a finished benchmark: the schedule, in its order, with the files of each run.\<close>

definition job_of :: "'j measured_run \<Rightarrow> u64 \<times> u64 \<times> string" where
  "job_of run = (iteration run, order_in_pair run, run_engine run)"

lemma run_of_fields [simp]:
  "job_of (run_of J ch inp job) = job" "run_output (run_of J ch inp job) = out_path job"
  "run_error (run_of J ch inp job) = err_path job"
  "run_report (run_of J ch inp job) = the (accepted_report J (child_of ch inp True job) (snd (snd job)))"
  by (simp_all add: run_of_def job_of_def out_path_def err_path_def split: prod.split)

lemma runs_of_schedule:
  "map job_of (runs_of J h opts inp exe) = schedule (runs_wanted opts)"
  "map run_output (runs_of J h opts inp exe) = map out_path (schedule (runs_wanted opts))"
  "map run_error (runs_of J h opts inp exe) = map err_path (schedule (runs_wanted opts))"
  by (simp_all add: runs_of_def comp_def)

lemma distinct_paths: "distinct (map out_path (schedule n) @ map err_path (schedule n))"
  by (auto simp: distinct_map distinct_schedule inj_on_def)

lemma accepted_parses:
  "accepted J ch inp True job \<Longrightarrow> child_output (child_of ch inp True job) \<bind> json_parse J =
   Some (the (accepted_report J (child_of ch inp True job) (snd (snd job))))"
proof -
  assume "accepted J ch inp True job"
  then obtain v where v: "accepted_report J (child_of ch inp True job) (snd (snd job)) = Some v"
    by (auto simp: accepted_def)
  then obtain s where "child_output (child_of ch inp True job) = Some s" "json_parse J s = Some v"
    unfolding accepted_report_Some by blast
  with v show ?thesis by simp
qed

lemma runs_of_files:
  assumes "\<forall>job \<in> set (schedule (runs_wanted opts)). accepted J (replay_child h exe) inp True job"
    and "run \<in> set (runs_of J h opts inp exe)"
  shows "let dir = bundle_files h opts inp exe digest s page; c = child_of (replay_child h exe) inp True (job_of run)
    in dir (run_output run) = child_output c \<and> dir (run_error run) = child_error c \<and>
       dir (run_output run) \<bind> json_parse J = Some (run_report run)"
proof -
  obtain job where job: "job \<in> set (schedule (runs_wanted opts))" "run = run_of J (replay_child h exe) inp job"
    using assms(2) by (auto simp: runs_of_def)
  then have "accepted J (replay_child h exe) inp True job" using assms(1) by blast
  then show ?thesis
    unfolding Let_def using bundle_files_at [OF job(1)] accepted_parses by (simp add: job(2))
qed

section \<open>Reports, manifest and page of a bundle of replays\<close>

lemma main_replays:
  assumes "inp \<noteq> []"
  shows "main_operation has_live (replay_arguments inp ''bengal'') = Replay inp Bengal_engine"
    and "main_operation has_live (replay_arguments inp ''standard'') = Replay inp Standard_engine"
  using assms
  by (simp_all add: main_operation_def replay_arguments_def dispatch_def checked_def
      replay_command_def value_or_def required_def bind_error_def Let_def)

lemma schedule_engines:
  "job \<in> set (schedule n) \<Longrightarrow> snd (snd job) = ''bengal'' \<or> snd (snd job) = ''standard''"
  by (auto simp: schedule_def pair_jobs_def Let_def split: if_splits)

lemma those_map_Some: "(\<And>x. x \<in> set xs \<Longrightarrow> f x = Some (g x)) \<Longrightarrow> those (map f xs) = Some (map g xs)"
  by (induction xs) simp_all

text \<open>
  The children replay: each runs \<open>main\<close> on its arguments, which ends with the report \<open>rep i k\<close> of its
  engine, and prints it.
\<close>

definition replays_faithfully :: "'j json_lib \<Rightarrow> string \<Rightarrow> bool \<Rightarrow> string \<Rightarrow> children \<Rightarrow> bool
    \<Rightarrow> (u64 \<times> u64 \<times> string) list \<Rightarrow> (u64 \<Rightarrow> u64 \<Rightarrow> replay_report) \<Rightarrow> bool" where
  "replays_faithfully J version has_live inp ch measured jobs rep \<longleftrightarrow>
     list_all (\<lambda>(i, k, eng).
       let c = ch measured i k (replay_arguments inp eng);
           (printed, code) = main_result J version version has_live (replay_arguments inp eng) (Replayed (rep i k))
       in engine (rep i k) = eng \<and> exit_status c = Some code \<and> child_output c = Some printed) jobs"

lemma main_replay_result:
  assumes "inp \<noteq> []" and "eng = ''bengal'' \<or> eng = ''standard''" and "report_json J qv r = Some s"
  shows "\<exists>code \<le> 1. main_result J version qv has_live (replay_arguments inp eng) (Replayed r) =
    (s @ [newline], code)"
  using assms(2,3) main_replays [OF assms(1), of has_live]
  by (auto simp: main_result_def standard_text_def result_text_def exit_code_def Let_def)

context json_library
begin

lemma report_encodable:
  assumes "list_all is_ascii version" and "list_all is_ascii (engine r)"
  shows "encodable (report_value J version r)"
  unfolding report_value_def
  by (intro object_encodable)
    (auto intro!: string_encodable number_encodable object_encodable simp: assms is_ascii_def)

lemma faithful_accepted:
  assumes faith: "replays_faithfully J version has_live inp ch measured jobs rep"
    and job: "(i, k, eng) \<in> set jobs" and eng: "eng = ''bengal'' \<or> eng = ''standard''"
    and inp: "inp \<noteq> []" and version: "list_all is_ascii version"
  shows "accepted_report J (child_of ch inp measured (i, k, eng)) eng = Some (report_value J version (rep i k))"
proof -
  let ?c = "child_of ch inp measured (i, k, eng)" and ?r = "rep i k"
  have ascii: "list_all is_ascii eng" using eng by (auto simp: is_ascii_def)
  have c: "engine ?r = eng"
      "let (printed, code) = main_result J version version has_live (replay_arguments inp eng) (Replayed ?r)
       in exit_status ?c = Some code \<and> child_output ?c = Some printed"
    using faith job by (auto simp: replays_faithfully_def list_all_iff child_of_def Let_def)
  have enc: "encodable (report_value J version ?r)" using report_encodable [OF version] ascii c(1) by simp
  then obtain s where s: "report_json J version ?r = Some s"
    using dump_indented unfolding report_json_def by blast
  obtain code where code: "code \<le> 1" "exit_status ?c = Some code" "child_output ?c = Some (s @ [newline])"
    using main_replay_result [OF inp eng s, of version has_live] c(2) by auto
  have parse: "json_parse J (s @ [newline]) = Some (report_value J version ?r)"
    using s parse_indented [OF enc] by (simp add: report_json_def)
  have "json_at J (report_value J version ?r) ''schema_version'' = Some (json_number J 1)"
    "json_at J (report_value J version ?r) ''engine'' = Some (json_string J eng)"
    using c(1) by (simp_all add: report_value_def at_object)
  then show ?thesis
    using code parse by (auto simp: accepted_report_Some eq_int eq_string)
qed

lemma manifest_paths:
  assumes "manifest_of J h opts inp digest exe_digest runs valid = Some manifest"
  shows "map (\<lambda>ks. json_path J ks manifest)
      [[''fixture'', ''name''], [''fixture'', ''sha256''], [''tool'', ''executable_sha256''],
       [''benchmark'', ''runs''], [''benchmark'', ''warmups''], [''comparable''], [''runs'']] =
    map Some
      [json_string J (filename inp), json_string J digest, json_string J exe_digest,
       json_number J (runs_wanted opts), json_number J (warmups_wanted opts), json_bool J valid, run_index J runs]"
    and "json_path J [''summary'', ''bengal''] manifest = summarize J runs ''bengal''"
    and "json_path J [''summary'', ''standard''] manifest = summarize J runs ''standard''"
  using assms by (auto simp: manifest_of_def manifest_object_def path_simps bind_eq_Some_conv)

lemma distribution_fields:
  "json_at J (distribution J vs) ''p25'' = Some (json_number J (nearest_rank (sort vs) 25))"
  "json_at J (distribution J vs) ''median'' = Some (json_number J (nearest_rank (sort vs) 50))"
  "json_at J (distribution J vs) ''p75'' = Some (json_number J (nearest_rank (sort vs) 75))"
  by (simp_all add: distribution_def Let_def at_object)

lemma distribution_encodable: "encodable (distribution J vs)"
  unfolding distribution_def Let_def
  by (intro object_encodable) (auto intro!: number_encodable simp: is_ascii_def)

lemma number_dumps: "\<exists>s. json_dump J (json_number J n) = Some s"
  by (rule dump_encodable [OF number_encodable])

definition number_text :: "u64 \<Rightarrow> string" where
  "number_text n = the (json_dump J (json_number J n))"

lemma number_text: "json_dump J (json_number J n) = Some (number_text n)"
  using number_dumps [of n] by (auto simp: number_text_def)

lemma html_row_distributions: "\<exists>s. html_row J label (distribution J xs) (distribution J ys) = Some s"
  by (simp add: html_row_def distribution_fields number_text)

text \<open>A summary is an object of distributions over the reports.\<close>

definition summary_object :: "u64 list \<Rightarrow> u64 list \<Rightarrow> u64 list \<Rightarrow> u64 list \<Rightarrow> u64 list \<Rightarrow> 'j" where
  "summary_object es p50s p95s p99s bs =
     json_object J
       [(''elapsed_ns'', distribution J es), (''stage_latency_p50_ns'', distribution J p50s),
        (''stage_latency_p95_ns'', distribution J p95s), (''stage_latency_p99_ns'', distribution J p99s),
        (''backpressure'', distribution J bs)]"

lemma metric_rows:
  assumes "name \<in> {''elapsed_ns'', ''stage_latency_p50_ns'', ''stage_latency_p95_ns'', ''stage_latency_p99_ns''}"
  shows "\<exists>s. metric_row J (summary_object a b c d e) (summary_object a' b' c' d' e') label name = Some s"
  using assms html_row_distributions
  by (auto simp: metric_row_def summary_object_def at_object)

lemma summary_encodable: "encodable (summary_object a b c d e)"
  unfolding summary_object_def
  by (intro object_encodable) (auto intro!: distribution_encodable simp: is_ascii_def)

lemma summarize_reports:
  assumes "map run_report runs = map (report_value J version) rs"
  shows "\<exists>a b c d e. summarize J runs eng = Some (summary_object a b c d e)"
proof -
  have each: "\<exists>r. run_report run = report_value J version r" if "run \<in> set runs" for run
  proof -
    have "run_report run \<in> set (map (report_value J version) rs)" using that assms by (metis image_eqI list.set_map)
    then show ?thesis by auto
  qed
  have m: "\<exists>ys. those (map f (filter (\<lambda>run. run_engine run = eng) runs)) = Some ys"
    if f: "\<forall>run r. run_report run = report_value J version r \<longrightarrow> f run \<noteq> None"
    for f :: "'j measured_run \<Rightarrow> u64 option"
  proof -
    have "f run = Some (the (f run))" if "run \<in> set runs" for run
      using each [OF that] f by force
    then show ?thesis
      using those_map_Some [of "filter (\<lambda>run. run_engine run = eng) runs" f "\<lambda>run. the (f run)"] by auto
  qed
  have f: "\<forall>run r. run_report run = report_value J version r \<longrightarrow> metric J run ''pipeline'' ''elapsed_ns'' \<noteq> None"
    "\<forall>run r. run_report run = report_value J version r \<longrightarrow> metric J run ''pipeline'' ''backpressure'' \<noteq> None"
    "\<forall>run r. run_report run = report_value J version r \<longrightarrow> latency_metric J run ''p50'' \<noteq> None"
    "\<forall>run r. run_report run = report_value J version r \<longrightarrow> latency_metric J run ''p95'' \<noteq> None"
    "\<forall>run r. run_report run = report_value J version r \<longrightarrow> latency_metric J run ''p99'' \<noteq> None"
    by (simp_all add: metric_def latency_metric_def report_value_def at_object get_u64)
  let ?own = "filter (\<lambda>run. run_engine run = eng) runs"
  obtain a b c d e where
    "those (map (\<lambda>run. metric J run ''pipeline'' ''elapsed_ns'') ?own) = Some a"
    "those (map (\<lambda>run. latency_metric J run ''p50'') ?own) = Some b"
    "those (map (\<lambda>run. latency_metric J run ''p95'') ?own) = Some c"
    "those (map (\<lambda>run. latency_metric J run ''p99'') ?own) = Some d"
    "those (map (\<lambda>run. metric J run ''pipeline'' ''backpressure'') ?own) = Some e"
    using m [where f = "\<lambda>run. metric J run ''pipeline'' ''elapsed_ns''", OF f(1)]
      m [where f = "\<lambda>run. latency_metric J run ''p50''", OF f(3)]
      m [where f = "\<lambda>run. latency_metric J run ''p95''", OF f(4)]
      m [where f = "\<lambda>run. latency_metric J run ''p99''", OF f(5)]
      m [where f = "\<lambda>run. metric J run ''pipeline'' ''backpressure''", OF f(2)]
    by blast
  then have "summarize J runs eng = Some (summary_object a b c d e)"
    by (simp add: summarize_def Let_def summary_object_def)
  then show ?thesis by blast
qed

end

lemma ascii_digits: "list_all is_digit s \<Longrightarrow> list_all is_ascii s"
  by (auto simp: list_all_iff intro: is_ascii_digit)

lemma is_ascii_hex: "is_hex c \<Longrightarrow> is_ascii c"
  by (auto simp: is_hex_def is_ascii_def less_eq_char_def)

lemma digest_of_ascii: "digest_of c = Some d \<Longrightarrow> list_all is_ascii d"
  by (auto simp: digest_of_def bind_eq_Some_conv list_all_iff intro: is_ascii_hex split: if_splits)

lemma utc_now_ascii: "list_all is_ascii (utc_now time)"
proof -
  have "list_all is_ascii (show_nat n)" "list_all is_ascii (two_digits n)" for n
    by (rule ascii_digits, simp add: two_digits_def setw_fill_def list_all_replicate)+
  then show ?thesis by (simp add: utc_now_def is_ascii_def split: option.split)
qed

lemma stem_ascii: "list_all is_ascii eng \<Longrightarrow> list_all is_ascii (stem m i k eng)"
  using ascii_digits [OF filled_digits] by (simp add: stem_def is_ascii_def)

lemma path_ascii:
  assumes "snd (snd job) = ''bengal'' \<or> snd (snd job) = ''standard''"
  shows "list_all is_ascii (out_path job)" and "list_all is_ascii (err_path job)"
proof -
  have "list_all is_ascii (snd (snd job))" using assms by (auto simp: is_ascii_def)
  then show "list_all is_ascii (out_path job)" "list_all is_ascii (err_path job)"
    by (cases job; simp add: out_path_def err_path_def standard_output_def standard_error_def
        base_path_def stem_ascii is_ascii_def)+
qed

text \<open>
  A host on which nothing fails, with names and versions in ASCII, and an output path that ends in a name.
\<close>

definition host_works :: "'j json_lib \<Rightarrow> ('j \<Rightarrow> bool) \<Rightarrow> bench_host \<Rightarrow> benchmark_options
    \<Rightarrow> string \<Rightarrow> string \<Rightarrow> string \<Rightarrow> bool" where
  "host_works J encodable h opts inp exe out \<longleftrightarrow>
     bench_paths h opts = Some (inp, exe, out) \<and> inp \<noteq> [] \<and>
     \<not> part_inside out \<and> creates_parents h \<and> creates_working h \<and> creates_runs h \<and> renames h \<and>
     digest_of (hash_child h inp) \<noteq> None \<and> digest_of (hash_child h exe) \<noteq> None \<and>
     list_all (\<lambda>f. closes_quietly (outcome_of h f)) [''fixture.sha256'', ''manifest.json'', ''report.html''] \<and>
     size_of_file h inp \<noteq> None \<and>
     (case environment_value J (host_machine h) of None \<Rightarrow> False | Some env \<Rightarrow> encodable env) \<and>
     list_all (list_all is_ascii) [filename inp, tool_version h, tool_revision h, queue_version h]"

definition job_reports :: "(u64 \<Rightarrow> u64 \<Rightarrow> replay_report) \<Rightarrow> u64 \<Rightarrow> replay_report list" where
  "job_reports rep n = map (\<lambda>(i, k, eng). rep i k) (schedule n)"

context json_library
begin

lemma run_index_encodable:
  assumes "\<And>run. run \<in> set runs \<Longrightarrow> list_all is_ascii (run_engine run) \<and>
    list_all is_ascii (run_output run) \<and> list_all is_ascii (run_error run)"
  shows "encodable (run_index J runs)"
  unfolding run_index_def
proof (rule array_encodable)
  show "list_all encodable (map (\<lambda>run. json_object J
      [(''iteration'', json_number J (iteration run)), (''order'', json_number J (order_in_pair run)),
       (''engine'', json_string J (run_engine run)), (''report'', json_string J (run_output run)),
       (''stderr'', json_string J (run_error run))]) runs)"
    using assms
    by (auto simp: list_all_iff is_ascii_def intro!: object_encodable string_encodable number_encodable)
qed

lemma manifest_encodable:
  assumes "list_all (list_all is_ascii) [digest, exe_digest, filename inp, tool_version h, tool_revision h, queue_version h]"
    and "encodable env" and "encodable ours" and "encodable theirs" and "encodable index"
  shows "encodable (manifest_object J h opts inp digest exe_digest bytes env valid ours theirs index)"
proof -
  have scope: "list_all is_ascii scope_text" by (simp add: scope_text_def is_ascii_def)
  have tool: "encodable (json_object J [(''name'', json_string J ''bengal-market''),
      (''version'', json_string J (tool_version h)), (''source_revision'', json_string J (tool_revision h)),
      (''bengal_version'', json_string J (queue_version h)), (''executable_sha256'', json_string J exe_digest)])"
    using assms(1) by (auto intro!: object_encodable string_encodable simp: is_ascii_def)
  have bench: "encodable (json_object J [(''runs'', json_number J (runs_wanted opts)),
      (''warmups'', json_number J (warmups_wanted opts)), (''fresh_process_per_replay'', json_bool J True),
      (''engine_order'', json_string J ''alternating'')])"
    by (auto intro!: object_encodable string_encodable number_encodable bool_encodable simp: is_ascii_def)
  have fixture: "encodable (json_object J [(''name'', json_string J (filename inp)),
      (''size_bytes'', json_number J bytes), (''sha256'', json_string J digest)])"
    using assms(1) by (auto intro!: object_encodable string_encodable number_encodable simp: is_ascii_def)
  have summary: "encodable (json_object J [(''bengal'', ours), (''standard'', theirs)])"
    using assms(3,4) by (auto intro!: object_encodable simp: is_ascii_def)
  show ?thesis
    unfolding manifest_object_def
    by (rule object_encodable)
      (simp add: tool bench fixture summary assms(2,5) scope utc_now_ascii string_encodable
        number_encodable bool_encodable is_ascii_def)
qed

lemma html_report_manifest:
  assumes "ours = summary_object a b c d e" and "theirs = summary_object a' b' c' d' e'"
  shows "\<exists>page. html_report J (manifest_object J h opts inp digest exe_digest bytes env valid ours theirs index) = Some page"
proof -
  obtain r1 r2 r3 r4 where
    "metric_row J ours theirs ''Elapsed ns'' ''elapsed_ns'' = Some r1"
    "metric_row J ours theirs ''Stage p50 ns'' ''stage_latency_p50_ns'' = Some r2"
    "metric_row J ours theirs ''Stage p95 ns'' ''stage_latency_p95_ns'' = Some r3"
    "metric_row J ours theirs ''Stage p99 ns'' ''stage_latency_p99_ns'' = Some r4"
    using metric_rows unfolding assms by (metis insertCI)
  then show ?thesis
    by (simp add: html_report_def manifest_object_def at_object get_string get_bool number_text)
qed

lemma faithful_runs:
  assumes faith: "replays_faithfully J version has_live inp ch measured (schedule n) rep"
    and inp: "inp \<noteq> []" and version: "list_all is_ascii version" and job: "job \<in> set (schedule n)"
  shows "accepted_report J (child_of ch inp measured job) (snd (snd job)) =
    Some (report_value J version (case job of (i, k, eng) \<Rightarrow> rep i k))"
proof -
  obtain i k eng where j: "job = (i, k, eng)" by (cases job) auto
  show ?thesis
    using faithful_accepted [OF faith, of i k eng] job schedule_engines [OF job] inp version
    unfolding j by simp
qed

lemma assemble_completes:
  assumes host: "host_works J encodable h opts inp exe out"
    and version: "list_all is_ascii version"
    and warm: "replays_faithfully J version has_live inp (replay_child h exe) False
      (schedule (warmups_wanted opts)) warm_rep"
    and meas: "replays_faithfully J version has_live inp (replay_child h exe) True
      (schedule (runs_wanted opts)) rep"
    and some: "runs_wanted opts \<noteq> 0"
  shows "\<exists>digest s page. assemble J h opts inp exe Map.empty =
    (Inr (of_nat (2 * unat (runs_wanted opts)),
       \<forall>r \<in> set (job_reports rep (runs_wanted opts)).
         report_agrees (hd (job_reports rep (runs_wanted opts))) r),
     bundle_files h opts inp exe digest s page)"
proof -
  let ?jobs = "schedule (runs_wanted opts)" and ?rs = "job_reports rep (runs_wanted opts)"
  let ?runs = "runs_of J h opts inp exe"
  let ?valid = "\<forall>r \<in> set ?rs. report_agrees (hd ?rs) r"
  from host obtain digest exe_digest bytes env where h:
    "inp \<noteq> []" "digest_of (hash_child h inp) = Some digest" "digest_of (hash_child h exe) = Some exe_digest"
    "size_of_file h inp = Some bytes" "environment_value J (host_machine h) = Some env" "encodable env"
    "closes_quietly (outcome_of h ''fixture.sha256'')" "closes_quietly (outcome_of h ''manifest.json'')"
    "closes_quietly (outcome_of h ''report.html'')"
    "list_all (list_all is_ascii) [filename inp, tool_version h, tool_revision h, queue_version h]"
    by (auto simp: host_works_def split: option.splits)
  note reports = faithful_runs [OF meas h(1) version]
  have runs: "map run_report ?runs = map (report_value J version) ?rs"
    using reports by (auto simp: runs_of_def run_of_def job_reports_def)
  have "length ?rs = 2 * unat (runs_wanted opts)" by (simp add: job_reports_def length_schedule)
  then have "?rs \<noteq> []" using some by (auto simp: unat_eq_0)
  then have valid: "comparable J ?runs = Some ?valid" using comparable_reports [OF runs] by simp
  obtain a b c d e where ours: "summarize J ?runs ''bengal'' = Some (summary_object a b c d e)"
    using summarize_reports [OF runs] by blast
  obtain a' b' c' d' e' where theirs: "summarize J ?runs ''standard'' = Some (summary_object a' b' c' d' e')"
    using summarize_reports [OF runs] by blast
  let ?m = "manifest_object J h opts inp digest exe_digest bytes env ?valid (summary_object a b c d e)
    (summary_object a' b' c' d' e') (run_index J ?runs)"
  have manifest: "manifest_of J h opts inp digest exe_digest ?runs ?valid = Some ?m"
    by (simp add: manifest_of_def h ours theirs)
  have "encodable (run_index J ?runs)"
  proof (rule run_index_encodable)
    fix run assume "run \<in> set ?runs"
    then obtain job where job: "job \<in> set ?jobs" "run = run_of J (replay_child h exe) inp job"
      by (auto simp: runs_of_def)
    note eng = schedule_engines [OF job(1)]
    have "run_engine run = snd (snd job)" "run_output run = out_path job" "run_error run = err_path job"
      by (simp_all add: job(2) run_of_def out_path_def err_path_def split: prod.split)
    then show "list_all is_ascii (run_engine run) \<and> list_all is_ascii (run_output run) \<and>
        list_all is_ascii (run_error run)"
      using path_ascii [OF eng] eng by (auto simp: is_ascii_def)
  qed
  moreover have "list_all (list_all is_ascii)
      [digest, exe_digest, filename inp, tool_version h, tool_revision h, queue_version h]"
    using h(10) digest_of_ascii [OF h(2)] digest_of_ascii [OF h(3)] by simp
  ultimately have "encodable ?m" by (intro manifest_encodable summary_encodable h(6))
  then obtain s where s: "json_dump_indented J 2 ?m = Some s" using dump_indented by blast
  obtain page where page: "html_report J ?m = Some page" by (rule exE [OF html_report_manifest [OF refl refl]])
  have acc: "\<forall>job \<in> set (schedule (warmups_wanted opts)). accepted J (replay_child h exe) inp False job"
    "\<forall>job \<in> set ?jobs. accepted J (replay_child h exe) inp True job"
    using faithful_runs [OF warm h(1) version] reports by (auto simp: accepted_def)
  have "assemble J h opts inp exe Map.empty = (Inr (of_nat (2 * unat (runs_wanted opts)), ?valid),
      bundle_files h opts inp exe digest s page)"
    unfolding assemble_Inr
    using h(2,3,7-9) acc valid manifest s page by blast
  then show ?thesis by blast
qed

lemma benchmark_runs:
  assumes "host_works J encodable h opts inp exe out" and "check_options opts = None"
    and "at_output e = None" and "at_part e = None" and "list_all is_ascii version"
    and "replays_faithfully J version has_live inp (replay_child h exe) False
      (schedule (warmups_wanted opts)) warm_rep"
    and "replays_faithfully J version has_live inp (replay_child h exe) True
      (schedule (runs_wanted opts)) rep"
  shows "\<exists>digest s page. run_benchmark J h opts e =
    (Inr \<lparr>result_output = out, measured_processes = 2 * runs_wanted opts,
          result_comparable = (\<forall>r \<in> set (job_reports rep (runs_wanted opts)).
            report_agrees (hd (job_reports rep (runs_wanted opts))) r)\<rparr>,
     e\<lparr>at_part := None, at_output := Some (bundle_files h opts inp exe digest s page)\<rparr>)"
proof -
  have "runs_wanted opts \<noteq> 0" using assms(2) by (auto simp: check_options_def split: if_splits)
  note completes = assemble_completes [OF assms(1,5-7) this]
  from completes obtain digest s page where
    a: "assemble J h opts inp exe Map.empty =
      (Inr (of_nat (2 * unat (runs_wanted opts)),
         \<forall>r \<in> set (job_reports rep (runs_wanted opts)).
           report_agrees (hd (job_reports rep (runs_wanted opts))) r),
       bundle_files h opts inp exe digest s page)"
    by (elim exE) (rule that)
  have n: "of_nat (2 * unat (runs_wanted opts)) = 2 * runs_wanted opts" by simp
  have "bench_paths h opts = Some (inp, exe, out)" "\<not> part_inside out" "creates_parents h" "creates_working h"
    "creates_runs h" "renames h"
    using assms(1) by (simp_all add: host_works_def)
  then show ?thesis
    using assms(2-4) by (intro exI [of _ digest] exI [of _ s] exI [of _ page])
      (simp add: run_benchmark_def a n)
qed

end

section \<open>A concrete benchmark\<close>

definition sample_report :: "u64 \<Rightarrow> u64 \<Rightarrow> replay_report" where
  "sample_report i k =
     report (if k = 1 then ''bengal'' else ''standard'') no_metrics 3
       (new_pipeline (empty_ring queue_capacity :: trade ring) [])"

definition sample_children :: children where
  "sample_children measured i k args =
     \<lparr>exit_status = Some 0,
      child_output = map_option (\<lambda>s. s @ [newline]) (report_json json_model ''1'' (sample_report i k)),
      child_error = Some []\<rparr>"

definition sample_machine :: host where
  "sample_machine =
     \<lparr>uname_names = Some (''Linux'', ''6'', ''x86''), cpuinfo = None, meminfo = None, governor = None,
      hardware_concurrency = 8, compiler = ''GCC''\<rparr>"

definition sample_host :: "(string \<Rightarrow> text_outcome) \<Rightarrow> bench_host" where
  "sample_host outcomes =
     \<lparr>canonical_path = Some, absolute_path = Some, creates_parents = True, creates_working = True, creates_runs = True,
      seen_around = (\<lambda>part. Map.empty),
      hash_child = (\<lambda>p. \<lparr>exit_status = Some 0, child_output = Some (replicate 64 CHR ''a''), child_error = Some []\<rparr>),
      replay_child = (\<lambda>exe. sample_children), outcome_of = outcomes, broken_down_time = None,
      size_of_file = (\<lambda>p. Some 9), host_machine = sample_machine, renames = True,
      tool_version = ''1'', tool_revision = ''r'', queue_version = ''1''\<rparr>"

definition sample_options :: benchmark_options where
  "sample_options =
     \<lparr>bench_input = ''f'', bench_output = ''o'', bench_executable = ''b'', runs_wanted = 1, warmups_wanted = 0\<rparr>"

definition nothing_there :: evidence where
  "nothing_there = \<lparr>at_output = None, at_part = None\<rparr>"

lemma schedule_1: "schedule 1 = [(1, 1, ''bengal''), (1, 2, ''standard'')]" and schedule_0: "schedule 0 = []"
  by (simp_all add: schedule_def pair_jobs_def)

lemma sample_report_engine: "engine (sample_report i k) = (if k = 1 then ''bengal'' else ''standard'')"
  and sample_report_clean: "parse_errors (input (sample_report i k)) = 0" "dropped (sample_report i k) = 0"
  by (simp_all add: sample_report_def report_def no_metrics_def)

lemma sample_report_json: "\<exists>s. report_json json_model ''1'' (sample_report i k) = Some s"
  unfolding report_json_def
  by (intro json_model.dump_indented json_model.report_encodable)
    (simp_all add: sample_report_engine is_ascii_def)

lemma sample_faithful:
  "replays_faithfully json_model ''1'' False ''f'' sample_children measured (schedule 1) sample_report"
  using main_replays [of "''f''" False] sample_report_json
  by (auto simp: replays_faithfully_def schedule_1 sample_children_def sample_report_engine Let_def
      main_result_def standard_text_def result_text_def exit_code_def sample_report_clean split: option.split)

lemma sample_host_works:
  assumes "\<And>f. closes_quietly (outcomes f)"
  shows "host_works json_model jencodable (sample_host outcomes) sample_options ''f'' ''b'' ''o''"
proof -
  have env: "\<exists>env. environment_value json_model sample_machine = Some env \<and> jencodable env"
    unfolding environment_value_def sample_machine_def
    by (simp, rule json_model.object_encodable)
      (auto intro!: json_model.string_encodable json_model.number_encodable
        simp: is_ascii_def read_optional_def)
  then show ?thesis
    using assms
    by (auto simp: host_works_def bench_paths_def sample_host_def sample_options_def digest_of_def
        is_hex_def filename_def part_inside_def is_ascii_def list_all_replicate)
qed

lemma sample_checks:
  "check_options sample_options = None" "runs_wanted sample_options = 1" "warmups_wanted sample_options = 0"
  "at_output nothing_there = None" "at_part nothing_there = None" "list_all is_ascii ''1''"
  "replay_child (sample_host outcomes) ''b'' = sample_children"
  by (simp_all add: check_options_def sample_options_def maximum_runs_def maximum_warmups_def
      nothing_there_def is_ascii_def sample_host_def)

lemmas sample_run = json_model.benchmark_runs [OF sample_host_works sample_checks(1,4,5,6),
  unfolded sample_checks schedule_0]

lemma sample_faithful_none: "replays_faithfully json_model ''1'' False ''f'' sample_children False [] sample_report"
  by (simp add: replays_faithfully_def)

lemma sample_comparable:
  "\<forall>r \<in> set (job_reports sample_report 1). report_agrees (hd (job_reports sample_report 1)) r"
  by (simp add: job_reports_def schedule_1 sample_report_def report_agrees_def report_def no_metrics_def
      new_pipeline_def summary_def empty_histogram_def)

section \<open>Escaping and the time stamp\<close>

text \<open>How a browser reads the four entities back.\<close>

fun html_unescape :: "string \<Rightarrow> string" where
  "html_unescape [] = []"
| "html_unescape (c # cs) =
     (if c \<noteq> CHR ''&'' then c # html_unescape cs
      else if take 4 cs = ''amp;'' then CHR ''&'' # html_unescape (drop 4 cs)
      else if take 3 cs = ''lt;'' then CHR ''<'' # html_unescape (drop 3 cs)
      else if take 3 cs = ''gt;'' then CHR ''>'' # html_unescape (drop 3 cs)
      else if take 5 cs = ''quot;'' then CHR 0x22 # html_unescape (drop 5 cs)
      else c # html_unescape cs)"

lemma html_escape_Cons: "html_escape (c # s) = escape_char c @ html_escape s"
  by (simp add: html_escape_def)

lemma unescape_escape: "html_unescape (html_escape s) = s"
  by (induction s) (simp_all add: html_escape_Cons escape_char_def html_escape_def [of "[]"])

lemma two_digits:
  assumes "n < 100"
  shows "list_all is_digit (two_digits n)" and "length (two_digits n) = 2" and "digits_value (two_digits n) = n"
  using assms length_show_nat_le [of n 1]
  by (simp_all add: two_digits_def setw_fill_def list_all_replicate digits_value_append)

lemma length_year:
  assumes "1000 \<le> y" and "y < 10000"
  shows "length (show_nat y) = 4"
proof -
  have "y < 10 ^ length (show_nat y)" using digits_value_less [of "show_nat y"] by simp
  moreover have "(10 :: nat) ^ length (show_nat y) \<le> 10 ^ 3" if "length (show_nat y) \<le> 3"
    using that by (intro power_increasing) simp_all
  ultimately have "\<not> length (show_nat y) \<le> 3" using assms(1) by fastforce
  moreover have "length (show_nat y) \<le> 4" using length_show_nat_le [of y 3] assms(2) by simp
  ultimately show ?thesis by simp
qed

section \<open>Properties\<close>

text \<open>
  C9. All or nothing: a benchmark that fails leaves the output path as it was, and everything as it
  was if a partial output existed. The exception, a finding: if the output path ends in a slash, \<open>.\<close> or
  \<open>..\<close>, the working directory lies below it and a failure may leave it created. A benchmark that
  succeeds was given another path, has accepted every warm-up and measured replay (exit code 0 or 1, a
  report of schema 1 and of the requested engine), has counted twice the requested runs, and only then
  has moved the partial directory to the output path, which was free.
\<close>

theorem benchmark_all_or_nothing:
  "case run_benchmark J h opts e of
     (Inl err, e') \<Rightarrow>
       (at_output e' = at_output e \<or>
        at_output e = None \<and> at_output e' = Some (seen_around h (at_part e')) \<and>
        (\<exists>inp exe out. bench_paths h opts = Some (inp, exe, out) \<and> part_inside out)) \<and>
       (at_part e = None \<or> e' = e)
   | (Inr r, e') \<Rightarrow>
       at_output e = None \<and> at_part e = None \<and> at_part e' = None \<and> at_output e' \<noteq> None \<and>
       measured_processes r = 2 * runs_wanted opts \<and> runs_wanted opts \<noteq> 0 \<and>
       (\<exists>inp exe out. bench_paths h opts = Some (inp, exe, out) \<and> result_output r = out \<and> \<not> part_inside out \<and>
          list_all (accepted J (replay_child h exe) inp False) (schedule (warmups_wanted opts)) \<and>
          list_all (accepted J (replay_child h exe) inp True) (schedule (runs_wanted opts)))"
proof (cases "run_benchmark J h opts e")
  case (Pair res e')
  show ?thesis
  proof (cases res)
    case (Inl err)
    then show ?thesis using run_benchmark_Inl [of J h opts e err e'] Pair by simp
  next
    case (Inr r)
    from Pair [unfolded Inr] obtain inp exe out n valid dir where
      r: "check_options opts = None" "at_output e = None" "at_part e = None" "\<not> part_inside out"
      "bench_paths h opts = Some (inp, exe, out)"
      "assemble J h opts inp exe Map.empty = (Inr (n, valid), dir)"
      "r = \<lparr>result_output = out, measured_processes = n, result_comparable = valid\<rparr>"
      "e' = e\<lparr>at_part := None, at_output := Some dir\<rparr>"
      unfolding run_benchmark_Inr by blast
    have "n = 2 * runs_wanted opts"
      "list_all (accepted J (replay_child h exe) inp False) (schedule (warmups_wanted opts))"
      "list_all (accepted J (replay_child h exe) inp True) (schedule (runs_wanted opts))"
      using r(6) unfolding assemble_Inr by (auto simp: list_all_iff)
    moreover have "runs_wanted opts \<noteq> 0" using r(1) by (auto simp: check_options_def split: if_splits)
    ultimately show ?thesis using r by (simp add: Pair Inr)
  qed
qed

text \<open>
  C10. The evidence is raw and complete: if every write of a successful benchmark stores its text, the
  measured runs are the schedule in its order; the published directory holds for each of them the
  output and the error text of its process unmodified, under names of its own, and the output parses
  to the report of the run; the verdict is the gate over these runs; the digest line has the digest of
  the input; the manifest names the input, both digests, the numbers of runs and warm-ups, the verdict,
  the summaries of these runs per engine and their index; the page is that of the manifest; and there is
  no other file, so nothing of the warm-ups.
\<close>

theorem bundle_contents_exact:
  assumes "json_library J encodable"
    and "run_benchmark J h opts e = (Inr r, e')" and "bench_paths h opts = Some (inp, exe, out)"
    and "outcome_of h = (\<lambda>f. Text_stored)"
  shows "\<exists>dir digest exe_digest runs manifest s page. at_output e' = Some dir \<and>
    map job_of runs = schedule (runs_wanted opts) \<and>
    distinct (map run_output runs @ map run_error runs) \<and>
    list_all (\<lambda>run. let c = child_of (replay_child h exe) inp True (job_of run) in
      dir (run_output run) = child_output c \<and> dir (run_error run) = child_error c \<and>
      dir (run_output run) \<bind> json_parse J = Some (run_report run)) runs \<and>
    comparable J runs = Some (result_comparable r) \<and>
    digest_of (hash_child h inp) = Some digest \<and> digest_of (hash_child h exe) = Some exe_digest \<and>
    dir ''fixture.sha256'' = Some (digest @ ''  '' @ filename inp @ [newline]) \<and>
    manifest_of J h opts inp digest exe_digest runs (result_comparable r) = Some manifest \<and>
    map (\<lambda>ks. json_path J ks manifest)
      [[''fixture'', ''name''], [''fixture'', ''sha256''], [''tool'', ''executable_sha256''],
       [''benchmark'', ''runs''], [''benchmark'', ''warmups''], [''comparable''], [''runs'']] =
    map Some
      [json_string J (filename inp), json_string J digest, json_string J exe_digest,
       json_number J (runs_wanted opts), json_number J (warmups_wanted opts),
       json_bool J (result_comparable r), run_index J runs] \<and>
    json_path J [''summary'', ''bengal''] manifest = summarize J runs ''bengal'' \<and>
    json_path J [''summary'', ''standard''] manifest = summarize J runs ''standard'' \<and>
    json_dump_indented J 2 manifest = Some s \<and> dir ''manifest.json'' = Some (s @ [newline]) \<and>
    html_report J manifest = Some page \<and> dir ''report.html'' = Some page \<and>
    dom dir \<subseteq> {''fixture.sha256'', ''manifest.json'', ''report.html''} \<union>
      set (map run_output runs) \<union> set (map run_error runs)"
proof -
  from assms(2,3) obtain n valid dir where
    a: "assemble J h opts inp exe Map.empty = (Inr (n, valid), dir)" "at_output e' = Some dir"
    "result_comparable r = valid"
    unfolding run_benchmark_Inr by auto
  let ?runs = "runs_of J h opts inp exe"
  from a(1) obtain digest exe_digest manifest s page where
    b: "digest_of (hash_child h inp) = Some digest" "digest_of (hash_child h exe) = Some exe_digest"
    "comparable J ?runs = Some valid" "manifest_of J h opts inp digest exe_digest ?runs valid = Some manifest"
    "json_dump_indented J 2 manifest = Some s" "html_report J manifest = Some page"
    and acc: "\<forall>job \<in> set (schedule (runs_wanted opts)). accepted J (replay_child h exe) inp True job"
    and dir: "dir = bundle_files h opts inp exe digest s page"
    unfolding assemble_Inr by blast
  have stored: "stored_text (outcome_of h f) x = x" for f x by (simp add: assms(4) stored_text_def)
  have "distinct (map run_output ?runs @ map run_error ?runs)"
    unfolding runs_of_schedule by (rule distinct_paths)
  moreover have "list_all (\<lambda>run. let c = child_of (replay_child h exe) inp True (job_of run) in
      dir (run_output run) = child_output c \<and> dir (run_error run) = child_error c \<and>
      dir (run_output run) \<bind> json_parse J = Some (run_report run)) ?runs"
    unfolding list_all_iff dir Let_def by (rule ballI) (rule runs_of_files [OF acc, unfolded Let_def], assumption)
  moreover have "dom dir \<subseteq> {''fixture.sha256'', ''manifest.json'', ''report.html''} \<union>
      set (map run_output ?runs) \<union> set (map run_error ?runs)"
    unfolding runs_of_schedule dir list.set_map by (rule bundle_files_only)
  ultimately show ?thesis
    using bundle_files_named [of h, unfolded stored] b json_library.manifest_paths [OF assms(1) b(4)]
    by (intro exI [of _ dir] exI [of _ digest] exI [of _ exe_digest] exI [of _ ?runs] exI [of _ manifest]
        exI [of _ s] exI [of _ page]) (simp add: a(2,3) runs_of_schedule(1) dir)
qed

theorem bundle_contents_exact_witness:
  "\<exists>r e' dir runs. run_benchmark json_model (sample_host (\<lambda>f. Text_stored)) sample_options nothing_there = (Inr r, e') \<and>
     at_output e' = Some dir \<and> map job_of runs = [(1, 1, ''bengal''), (1, 2, ''standard'')] \<and>
     comparable json_model runs = Some (result_comparable r) \<and>
     map (\<lambda>run. dir (run_output run)) runs =
       [map_option (\<lambda>s. s @ [newline]) (report_json json_model ''1'' (sample_report 1 1)),
        map_option (\<lambda>s. s @ [newline]) (report_json json_model ''1'' (sample_report 1 2))]"
proof -
  obtain r e' where run: "run_benchmark json_model (sample_host (\<lambda>f. Text_stored)) sample_options nothing_there = (Inr r, e')"
    using sample_run [of "\<lambda>f. Text_stored", OF _ sample_faithful_none sample_faithful]
    by (auto simp: closes_quietly_def)
  have paths: "bench_paths (sample_host (\<lambda>f. Text_stored)) sample_options = Some (''f'', ''b'', ''o'')"
    by (simp add: bench_paths_def sample_host_def sample_options_def)
  have stored: "outcome_of (sample_host (\<lambda>f. Text_stored)) = (\<lambda>f. Text_stored)" by (simp add: sample_host_def)
  obtain dir runs where d: "at_output e' = Some dir" "map job_of runs = schedule (runs_wanted sample_options)"
    "list_all (\<lambda>run. let c = child_of (replay_child (sample_host (\<lambda>f. Text_stored)) ''b'') ''f'' True (job_of run) in
      dir (run_output run) = child_output c \<and> dir (run_error run) = child_error c \<and>
      dir (run_output run) \<bind> json_parse json_model = Some (run_report run)) runs"
    "comparable json_model runs = Some (result_comparable r)"
    using bundle_contents_exact [OF json_model.json_library_axioms run paths stored] by (elim exE conjE) (rule that; assumption)
  have jobs: "map job_of runs = [(1, 1, ''bengal''), (1, 2, ''standard'')]"
    using d(2) by (simp add: sample_checks schedule_1)
  then obtain run1 run2 where two: "runs = [run1, run2]" "job_of run1 = (1, 1, ''bengal'')" "job_of run2 = (1, 2, ''standard'')"
    by (auto simp: map_eq_Cons_conv)
  have "map (\<lambda>run. dir (run_output run)) runs =
       [map_option (\<lambda>s. s @ [newline]) (report_json json_model ''1'' (sample_report 1 1)),
        map_option (\<lambda>s. s @ [newline]) (report_json json_model ''1'' (sample_report 1 2))]"
    using d(3) by (simp add: two Let_def child_of_def sample_checks sample_children_def)
  then show ?thesis
    using run d(1,4) jobs by (intro exI [of _ r] exI [of _ e'] exI [of _ dir] exI [of _ runs] conjI)
qed

text \<open>
  C8. The benchmark completes: on a host where nothing fails, with an output path that ends in a name
  (not in a slash, \<open>.\<close> or \<open>..\<close>), with children that run \<open>main\<close> on the
  arguments they are given and print its report, it publishes a bundle and returns twice the number
  of runs and the gate over the reports of the measured replays, whatever the gate says.
\<close>

theorem benchmark_completes:
  assumes "json_library J encodable" and "host_works J encodable h opts inp exe out"
    and "check_options opts = None" and "at_output e = None" and "at_part e = None"
    and "list_all is_ascii version"
    and "replays_faithfully J version has_live inp (replay_child h exe) False
      (schedule (warmups_wanted opts)) warm_rep"
    and "replays_faithfully J version has_live inp (replay_child h exe) True
      (schedule (runs_wanted opts)) rep"
  shows "\<exists>dir. run_benchmark J h opts e =
    (Inr \<lparr>result_output = out, measured_processes = 2 * runs_wanted opts,
          result_comparable = (\<forall>r \<in> set (job_reports rep (runs_wanted opts)).
            report_agrees (hd (job_reports rep (runs_wanted opts))) r)\<rparr>,
     e\<lparr>at_part := None, at_output := Some dir\<rparr>)"
  using json_library.benchmark_runs [OF assms] by blast

theorem benchmark_completes_witness:
  "\<exists>dir. run_benchmark json_model (sample_host (\<lambda>f. Text_stored)) sample_options nothing_there =
     (Inr \<lparr>result_output = ''o'', measured_processes = 2, result_comparable = True\<rparr>,
      nothing_there\<lparr>at_part := None, at_output := Some dir\<rparr>)"
  using benchmark_completes [OF json_model.json_library_axioms sample_host_works sample_checks(1,4,5,6),
      unfolded sample_checks schedule_0, OF _ sample_faithful_none sample_faithful] sample_comparable
  by (simp add: closes_quietly_def)

text \<open>
  A write that is lost when its file is closed is not noticed: if storing the buffered digest
  line fails on close, the benchmark still succeeds and publishes an empty \<open>fixture.sha256\<close>.
\<close>

theorem benchmark_publishes_truncated:
  assumes "json_library J encodable" and "host_works J encodable h opts inp exe out"
    and "check_options opts = None" and "at_output e = None" and "at_part e = None"
    and "list_all is_ascii version"
    and "replays_faithfully J version has_live inp (replay_child h exe) False
      (schedule (warmups_wanted opts)) warm_rep"
    and "replays_faithfully J version has_live inp (replay_child h exe) True
      (schedule (runs_wanted opts)) rep"
    and "outcome_of h ''fixture.sha256'' = Lost_on_close 0"
  shows "\<exists>r e' dir. run_benchmark J h opts e = (Inr r, e') \<and> at_output e' = Some dir \<and>
    dir ''fixture.sha256'' = Some []"
proof -
  obtain r digest s page where "run_benchmark J h opts e =
      (Inr r, e\<lparr>at_part := None, at_output := Some (bundle_files h opts inp exe digest s page)\<rparr>)"
    using json_library.benchmark_runs [OF assms(1-8)] by blast
  moreover have "bundle_files h opts inp exe digest s page ''fixture.sha256'' = Some []"
    unfolding bundle_files_named assms(9) by (simp add: stored_text_def)
  ultimately show ?thesis by auto
qed

theorem benchmark_publishes_truncated_witness:
  "\<exists>r e' dir. run_benchmark json_model (sample_host (\<lambda>f. Lost_on_close 0)) sample_options nothing_there = (Inr r, e') \<and>
     at_output e' = Some dir \<and> dir ''fixture.sha256'' = Some []"
  using benchmark_publishes_truncated [OF json_model.json_library_axioms sample_host_works sample_checks(1,4,5,6),
      unfolded sample_checks schedule_0, OF _ sample_faithful_none sample_faithful, of "\<lambda>f. Lost_on_close 0"]
  by (simp add: closes_quietly_def sample_host_def)

text \<open>
  C33. The order of the replays: iteration \<open>j + 1\<close> of \<open>n\<close> is a pair of consecutive replays, one of each
  engine, first the \<open>bengal\<close> engine in the first, third, \<dots> iteration and first the other one in the
  second, fourth, \<dots>; so each engine runs once in every iteration, \<open>n\<close> times in all, and each has the
  first place in half of the iterations (the \<open>bengal\<close> engine once more if \<open>n\<close> is odd). No two measured
  replays share a file.
\<close>

theorem schedule_balanced:
  "length (schedule n) = 2 * unat n \<and>
   list_all (\<lambda>j.
     schedule n ! (2 * j) = (of_nat (Suc j), 1, if even j then ''bengal'' else ''standard'') \<and>
     schedule n ! (2 * j + 1) = (of_nat (Suc j), 2, if even j then ''standard'' else ''bengal''))
     [0..<unat n] \<and>
   length (filter (\<lambda>(i, k, eng). eng = ''bengal'') (schedule n)) = unat n \<and>
   length (filter (\<lambda>(i, k, eng). eng = ''standard'') (schedule n)) = unat n \<and>
   length (filter (\<lambda>(i, k, eng). k = 1 \<and> eng = ''bengal'') (schedule n)) = (unat n + 1) div 2 \<and>
   length (filter (\<lambda>(i, k, eng). k = 1 \<and> eng = ''standard'') (schedule n)) = unat n div 2 \<and>
   distinct (map (\<lambda>(i, k, eng). standard_output True i k eng) (schedule n) @
     map (\<lambda>(i, k, eng). standard_error True i k eng) (schedule n))"
proof -
  have "list_all (\<lambda>j.
     schedule n ! (2 * j) = (of_nat (Suc j), 1, if even j then ''bengal'' else ''standard'') \<and>
     schedule n ! (2 * j + 1) = (of_nat (Suc j), 2, if even j then ''standard'' else ''bengal''))
     [0..<unat n]"
    unfolding list_all_iff using schedule_nth [of _ n] by simp
  moreover
  have "length (filter (\<lambda>(i, k, eng). eng = ''bengal'') (schedule n)) = unat n"
    "length (filter (\<lambda>(i, k, eng). eng = ''standard'') (schedule n)) = unat n"
    by (subst count_schedule [where a = 1 and b = 1]; simp add: pair_jobs_of_nat)+
  moreover have "length (filter (\<lambda>(i, k, eng). k = 1 \<and> eng = ''bengal'') (schedule n)) = (unat n + 1) div 2"
    by (subst count_schedule [where a = 1 and b = 0]; simp add: pair_jobs_of_nat)
  moreover have "length (filter (\<lambda>(i, k, eng). k = 1 \<and> eng = ''standard'') (schedule n)) = unat n div 2"
    by (subst count_schedule [where a = 0 and b = 1]; simp add: pair_jobs_of_nat)
  moreover note distinct_paths [of n]
  ultimately show ?thesis
    by (simp add: length_schedule out_path_def [abs_def] err_path_def [abs_def])
qed

text \<open>
  Escaping loses nothing and lets no markup through: reading the entities back gives the text,
  and the escaped text has no angle bracket and no quotation mark.
\<close>

theorem html_escape_roundtrip:
  "html_unescape (html_escape s) = s \<and>
   list_all (\<lambda>c. c \<noteq> CHR ''<'' \<and> c \<noteq> CHR ''>'' \<and> c \<noteq> CHR 0x22) (html_escape s)"
  by (simp add: unescape_escape) (induction s; simp add: html_escape_Cons escape_char_def html_escape_def [of "[]"])

text \<open>
  The creation time of the manifest is a time stamp that the program's own parser accepts: it
  reads back as the nanoseconds since the epoch of the broken-down time.
\<close>

theorem utc_now_parses:
  assumes "valid_date (tm_year t) (tm_month t) (tm_day t)" and "tm_year t < 10000"
    and "tm_hour t < 24" and "tm_minute t < 60" and "tm_second t < 60"
    and "epoch_ns (civil_days (tm_year t) (tm_month t) (tm_day t)) (tm_hour t) (tm_minute t) (tm_second t) 0 < 2 ^ 64"
  shows "parse_timestamp_ns (utc_now (Some t)) =
    Some (of_nat (epoch_ns (civil_days (tm_year t) (tm_month t) (tm_day t)) (tm_hour t) (tm_minute t) (tm_second t) 0))"
proof -
  have small: "tm_month t < 100" "tm_day t < 100" "tm_hour t < 100" "tm_minute t < 100" "tm_second t < 100"
    and year: "1000 \<le> tm_year t"
    using assms(1,3-5) month_days_le [of "tm_year t" "tm_month t"] by (auto simp: valid_date_def)
  note two = small [THEN two_digits(1)] small [THEN two_digits(2)] small [THEN two_digits(3)]
  have "timestamp_literal (utc_now (Some t)) (digits_value (show_nat (tm_year t)))
      (digits_value (two_digits (tm_month t))) (digits_value (two_digits (tm_day t)))
      (digits_value (two_digits (tm_hour t))) (digits_value (two_digits (tm_minute t)))
      (digits_value (two_digits (tm_second t))) 0"
    unfolding utc_now_def option.case
    by (rule timestamp_literal.intros) (simp_all add: two length_year [OF year assms(2)] fraction_text_def)
  then show ?thesis
    using assms by (intro parse_timestamp_complete) (simp_all add: two)
qed

theorem utc_now_parses_witness:
  "parse_timestamp_ns (utc_now (Some \<lparr>tm_year = 1970, tm_month = 1, tm_day = 2, tm_hour = 0, tm_minute = 0, tm_second = 7\<rparr>))
     = Some 86407000000000"
  using utc_now_parses [of "\<lparr>tm_year = 1970, tm_month = 1, tm_day = 2, tm_hour = 0, tm_minute = 0, tm_second = 7\<rparr>"]
  by (simp add: valid_date_def month_days_def civil_days_def epoch_ns_def)

end
