(* ===== verification/Spec2Isabelle.thy ===== *)
theory Spec2Isabelle
  imports Fixture Recorder Evidence
begin

text \<open>
  A verification development for Bengal Market, a C++ program that records market-data captures,
  replays them through a two-thread pipeline on one of two bounded queues, and compares the
  engines. Its parts and the theories that model them:

  \<^item> \<open>Base\<close>: machine integers, conversions and list lemmas the other theories share.
  \<^item> \<open>Digits\<close>, \<open>Decimal\<close> (\<open>src/core.cpp\<close>: \<open>parse_decimal\<close>, \<open>format_decimal\<close>): the checked
    fixed-point conversion, against the grammar of decimal literals and their values.
  \<^item> \<open>Timestamp\<close> (\<open>parse_timestamp_ns\<close> and the calendar functions): against a calendar
    walked day by day.
  \<^item> \<open>Histogram\<close> (\<open>latency_histogram\<close>): against the sorted list of the observations.
  \<^item> \<open>Trade\<close> (\<open>model.hpp\<close>): bounded text, trades, metrics.
  \<^item> \<open>Checksum\<close> (\<open>hash_bytes\<close>, \<open>hash_integer\<close>, \<open>update_checksum\<close>): against FNV-1a on bytes.
  \<^item> \<open>SpscQueue\<close> (\<open>standard_spsc_queue\<close>): the locale \<open>bounded_queue\<close>, what a pipeline may rely
    on, and the ring, which satisfies it and refines a bounded FIFO list. The queue of the
    Bengal engine is third-party: a parameter with the laws of that locale.
  \<^item> \<open>Pipeline\<close> (\<open>pipeline\<close>): \<open>submit\<close>, \<open>finish\<close> and \<open>consume\<close> as atomic steps of two
    threads with program counters, under every interleaving. Its lemmas are proved in the locale
    \<open>trade_queue\<close>, so they hold of both engines: conservation, the content of the report,
    termination of the join, and the window in which trades are lost.
  \<^item> \<open>JsonApi\<close>, \<open>JsonModel\<close>: the JSON library is third-party. Its operations are a record, the
    laws the program's own output relies on are the locale \<open>json_library\<close>, and \<open>JsonModel\<close> is
    an executable library that satisfies them, used by the examples.
  \<^item> \<open>Reader\<close>, \<open>Capture\<close> (\<open>read_bounded_line\<close>, \<open>read_capture\<close>): the reader as an explicit state
    with the outcome of the \<open>try\<close> block, its refinement to a fold over lines, its invariants
    (the locale \<open>reader_invariant\<close>, one interpretation per invariant), sequence accounting
    and counting.
  \<^item> \<open>Replay\<close> (\<open>replay_with\<close>, \<open>replay\<close>, \<open>report_value\<close>, \<open>report_json\<close>, \<open>comparison_json\<close>,
    \<open>reports_comparable\<close>) and \<open>Fixture\<close> (\<open>generate_fixture\<close>, given what becomes of the written
    file): reports, the gate, and the round trip of generated captures.
  \<^item> \<open>AtomicOutput\<close> (\<open>src/atomic_output.hpp\<close>): the partial file, the write loop over the results
    of \<open>write\<close>, and the steps of \<open>commit\<close> over a map of files; any of them may fail.
  \<^item> \<open>Live\<close> (\<open>src/live.cpp\<close>, \<open>live.hpp\<close>): \<open>stopped\<close>, \<open>wait_socket\<close>, \<open>send_all\<close>, \<open>connect\<close>
    and \<open>capture_live\<close> as a state machine: the state is a record with the phase of the loops, one
    step is one iteration, and a run is a list of worlds, each with what libcurl, the clocks, the
    stop request and the file answer in that iteration.
  \<^item> \<open>Trace\<close>: what happened in a run, told without the buffers and counters of the state: the log of
    the connection attempts and the frames received, the messages that a log contains (fragments
    joined between boundaries), and the outcomes of the iterations with the failures in a row.
  \<^item> \<open>Recorder\<close>: the proofs about captures: the state agrees with its trace, so that at every
    moment the partial file is the metadata and the messages of the log and the failure counters are
    those of the outcomes; bounds and termination of the loop, giving up, the round trip into the
    reader, and a write failure that is taken for a connection failure.
  \<^item> \<open>Cli\<close> (\<open>src/main.cpp\<close>): options, the choice of the operation, what is printed, exit codes,
    signal handlers. \<open>requests\<close> says which command lines ask for which operation, and \<open>main\<close> calls
    an operation for exactly these.
  \<^item> \<open>Benchmark\<close> (\<open>src/benchmark.cpp\<close>): the status of a child process, the host description, the
    statistics and the gate over all runs, which on printed reports is the pairwise gate of
    \<open>Replay\<close> (proved in the context of \<open>json_library\<close>).
  \<^item> \<open>Bundle\<close> (\<open>src/benchmark.cpp\<close>, \<open>benchmark.hpp\<close>): \<open>run_benchmark\<close> as steps over the working
    directory, a map from paths to texts: digests, one child per replay, the order of the replays,
    reports, manifest, HTML page, and the final rename. \<open>part_inside\<close> tells the output paths whose
    \<open>.part\<close> is not a sibling but lies below them.
  \<^item> \<open>Evidence\<close>: the proofs about bundles: exact success conditions of each step, names of files,
    contents of the published directory, completion when the children behave as \<open>main\<close> of \<open>Cli\<close>,
    escaping and the time stamp (against \<open>Timestamp\<close>).
  \<^item> this theory: the properties of both gates on replays, which span the components.

  Bounds. 64- and 32-bit unsigned values are words, so their arithmetic wraps; signed 64-bit
  values are integers with the casts written out. Sizes of texts are natural numbers. The
  theorems on quantiles assume fewer than \<open>2 ^ 57\<close> observations, so that \<open>samples_ * percentile\<close>
  does not wrap. There is no fuel: the read loop terminates because a line consumes input, and
  the pipeline is run by an explicit list of turns, with \<open>turns_left\<close> bounding the rounds to the
  join. The steady clock and the environment (whether a file opens) are arguments. A loop around
  system calls takes the list of their results and yields \<open>None\<close> if the list ends first; the
  properties state when it does not. A capture ends within three iterations after the deadline.
  The loops of \<open>run_benchmark\<close> count to at most 1000 and are lists.

  Findings. A trade can be lost between the empty pop and the test of the flag
  (\<open>pipeline_can_lose_trades\<close>) and the gate does not see it (\<open>comparable_though_all_lost\<close>); the top
  bucket of the histogram underestimates (\<open>histogram_top_bucket_underestimates\<close>); a failed write of a
  recording is handled as a failed connection, and the torn file is committed
  (\<open>capture_commits_torn_line\<close>); a large \<open>--duration\<close> overflows (\<open>duration_overflows_deadline\<close>); a text
  lost on close is published (\<open>benchmark_publishes_truncated\<close>), and \<open>generate_fixture\<close> does not
  notice such a loss either; an output path that ends in a slash makes a benchmark run to the end,
  fail and leave the output path created (\<open>benchmark_into_itself\<close>, \<open>benchmark_all_or_nothing\<close>).

  Not modelled: the texts of error messages; the options set on a curl handle (one flag says whether
  all were accepted); what a child process does between \<open>fork\<close> and \<open>exec\<close>; the clocks; the
  destructors that only close a descriptor or a handle; the templates \<open>version.hpp.in\<close> and
  \<open>build_info.hpp.in\<close>, whose texts are parameters.
\<close>

section \<open>Replay and its gate\<close>

lemma replay_facts:
  assumes "trade_queue push pop contents invar capacity q0"
    and "replay push pop q0 J file which turns start finished = Some (Inr r)"
  shows "fst (read_capture J file) = Inr (input r) \<and> dropped r = 0 \<and> samples (stage_latency r) = events r"
  using replay_with_report [OF assms(1), of "''bengal''" J "file" turns start finished r]
    replay_with_report [OF ring_pipeline.trade_queue_axioms, of "''standard''" J "file" turns start finished r]
    assms(2)
  by (cases which) (auto simp: replay_def)

text \<open>Two replays of a generated capture that lose both of its trades.\<close>

lemma lossy_replays:
  obtains stream b s where "generate_fixture json_model Text_stored 2 ''BTC-USD'' = Inr stream"
    and "replay try_push try_pop (empty_ring queue_capacity) json_model (Some stream) bengal
      (late_exit (fixture_trades ''BTC-USD'' 2)) 0 1 = Some (Inr b)"
    and "replay try_push try_pop (empty_ring queue_capacity) json_model (Some stream) standard
      (late_exit (fixture_trades ''BTC-USD'' 2)) 0 1 = Some (Inr s)"
    and "parse_errors (input b) = 0" and "parse_errors (input s) = 0" and "events b = 0" and "events s = 0"
    and "checksum b = checksum s"
proof -
  obtain stream where gen: "generate_fixture json_model Text_stored 2 ''BTC-USD'' = Inr stream"
    and read: "read_capture json_model (Some stream) =
      (Inr (no_metrics\<lparr>frames := 2\<rparr>), fixture_trades ''BTC-USD'' 2)"
    by (rule model_fixture_read [of 2]) simp_all
  have len: "length (fixture_trades ''BTC-USD'' 2) \<le> queue_capacity"
    by (simp add: fixture_trades_def queue_capacity_def)
  note late = replay_with_late_exit [OF ring_pipeline.trade_queue_axioms read len]
  obtain b where b: "replay_with try_push try_pop (empty_ring queue_capacity) ''bengal'' json_model
      (Some stream) (late_exit (fixture_trades ''BTC-USD'' 2)) 0 1 = Some (Inr b)"
    "input b = no_metrics\<lparr>frames := 2\<rparr>" "events b = 0" "checksum b = initial_checksum"
    using late [of "''bengal''" 0 1] by blast
  obtain s where s: "replay_with try_push try_pop (empty_ring queue_capacity) ''standard'' json_model
      (Some stream) (late_exit (fixture_trades ''BTC-USD'' 2)) 0 1 = Some (Inr s)"
    "input s = no_metrics\<lparr>frames := 2\<rparr>" "events s = 0" "checksum s = initial_checksum"
    using late [of "''standard''" 0 1] by blast
  show ?thesis
    using b s by (intro that [OF gen, of b s]) (simp_all add: replay_def no_metrics_def)
qed

text \<open>
  C24. The gate: for two replays of one file that both finish, on a Bengal queue with the laws of
  the interface and on the ring, at any interleavings, the reports are comparable exactly when
  the reader found no parse error and the two runs consumed equally many events with equal
  checksums; the frame, drop and sample checks of the gate never decide.
\<close>

theorem reports_comparable_iff:
  assumes "trade_queue push pop contents invar capacity q0"
    and "replay push pop q0 J file bengal turns start finished = Some (Inr b)"
    and "replay push pop q0 J file standard turns' start' finished' = Some (Inr s)"
  shows "reports_comparable b s \<longleftrightarrow>
    parse_errors (input b) = 0 \<and> events b = events s \<and> checksum b = checksum s"
  using replay_facts [OF assms(1,2)] replay_facts [OF assms(1,3)] by (auto simp: reports_comparable_def)

theorem reports_comparable_iff_witness:
  "\<exists>stream b s. generate_fixture json_model Text_stored 2 ''BTC-USD'' = Inr stream \<and>
    replay try_push try_pop (empty_ring queue_capacity) json_model (Some stream) bengal
      (late_exit (fixture_trades ''BTC-USD'' 2)) 0 1 = Some (Inr b) \<and>
    replay try_push try_pop (empty_ring queue_capacity) json_model (Some stream) standard
      (late_exit (fixture_trades ''BTC-USD'' 2)) 0 1 = Some (Inr s) \<and>
    reports_comparable b s"
proof -
  obtain stream b s where r: "generate_fixture json_model Text_stored 2 ''BTC-USD'' = Inr stream"
    "replay try_push try_pop (empty_ring queue_capacity) json_model (Some stream) bengal
      (late_exit (fixture_trades ''BTC-USD'' 2)) 0 1 = Some (Inr b)"
    "replay try_push try_pop (empty_ring queue_capacity) json_model (Some stream) standard
      (late_exit (fixture_trades ''BTC-USD'' 2)) 0 1 = Some (Inr s)"
    "parse_errors (input b) = 0" "events b = events s" "checksum b = checksum s"
    by (rule lossy_replays) simp
  then show ?thesis
    using reports_comparable_iff [OF ring_pipeline.trade_queue_axioms r(2,3)] by blast
qed

text \<open>
  C5. Finding: the gate cannot see lost events. For every capture without parse errors whose trades fit
  the queue there are interleavings of both engines that consume none of them, and the two
  reports, with 0 events and 0 drops, are comparable.
\<close>

theorem comparable_though_all_lost:
  assumes "trade_queue push pop contents invar capacity q0"
    and "read_capture J file = (Inr m, ts)" and "parse_errors m = 0"
    and "length ts \<le> capacity" and "length ts \<le> queue_capacity"
  shows "\<exists>b s. replay push pop q0 J file bengal (late_exit ts) 0 1 = Some (Inr b) \<and>
    replay push pop q0 J file standard (late_exit ts) 0 1 = Some (Inr s) \<and>
    reports_comparable b s \<and> events b = 0 \<and> events s = 0"
  using replay_with_late_exit [OF assms(1,2,4), of "''bengal''" 0 1]
    replay_with_late_exit [OF ring_pipeline.trade_queue_axioms assms(2,5), of "''standard''" 0 1]
    assms(3)
  by (auto simp: replay_def reports_comparable_def)

theorem comparable_though_all_lost_witness:
  "\<exists>stream b s. generate_fixture json_model Text_stored 2 ''BTC-USD'' = Inr stream \<and>
    replay try_push try_pop (empty_ring queue_capacity) json_model (Some stream) bengal
      (late_exit (fixture_trades ''BTC-USD'' 2)) 0 1 = Some (Inr b) \<and>
    replay try_push try_pop (empty_ring queue_capacity) json_model (Some stream) standard
      (late_exit (fixture_trades ''BTC-USD'' 2)) 0 1 = Some (Inr s) \<and>
    reports_comparable b s \<and> events b = 0 \<and> events s = 0"
proof -
  obtain stream where gen: "generate_fixture json_model Text_stored 2 ''BTC-USD'' = Inr stream"
    and read: "read_capture json_model (Some stream) =
      (Inr (no_metrics\<lparr>frames := 2\<rparr>), fixture_trades ''BTC-USD'' 2)"
    by (rule model_fixture_read [of 2]) simp_all
  have len: "length (fixture_trades ''BTC-USD'' 2) \<le> queue_capacity"
    by (simp add: fixture_trades_def queue_capacity_def)
  show ?thesis
    using comparable_though_all_lost [OF ring_pipeline.trade_queue_axioms read _ len len] gen
    by (auto simp: no_metrics_def)
qed

text \<open>
  C14. The bundle gate on replays: for the printed reports of any replays of one file, on either engine
  and at any interleavings, the gate of the benchmark holds exactly if there is one, the reader found
  no parse error, and all runs consumed equally many events with equal checksums; its frame, gap,
  order, drop and sample checks never decide.
\<close>

theorem bundle_gate_of_replays:
  assumes "json_library J encodable" and "trade_queue push pop contents invar capacity q0"
    and "\<forall>r \<in> set rs. \<exists>which turns start finished.
      replay push pop q0 J file which turns start finished = Some (Inr r)"
    and "map run_report runs = map (report_value J version) rs"
  shows "comparable J runs = Some (rs \<noteq> [] \<and> (\<forall>r \<in> set rs. parse_errors (input r) = 0 \<and>
    events r = events (hd rs) \<and> checksum r = checksum (hd rs)))"
proof -
  have facts: "fst (read_capture J file) = Inr (input r) \<and> dropped r = 0 \<and>
      samples (stage_latency r) = events r" if "r \<in> set rs" for r
    using replay_facts [OF assms(2)] assms(3) that by blast
  have "report_agrees (hd rs) r \<longleftrightarrow>
      parse_errors (input r) = 0 \<and> events r = events (hd rs) \<and> checksum r = checksum (hd rs)"
    if "r \<in> set rs" for r
  proof -
    have "hd rs \<in> set rs" using that by (cases rs) simp_all
    then have "input r = input (hd rs)" using facts [OF that] facts by fastforce
    then show ?thesis using facts [OF that] by (auto simp: report_agrees_def)
  qed
  then show ?thesis using json_library.comparable_reports [OF assms(1,4)] by auto
qed

theorem bundle_gate_of_replays_witness:
  "\<exists>b s. events b = 0 \<and> events s = 0 \<and>
    comparable json_model
      [\<lparr>iteration = 1, order_in_pair = 1, run_engine = ''bengal'', run_output = [], run_error = [],
        run_report = report_value json_model ''1'' b\<rparr>,
       \<lparr>iteration = 1, order_in_pair = 2, run_engine = ''standard'', run_output = [], run_error = [],
        run_report = report_value json_model ''1'' s\<rparr>] = Some True"
proof -
  obtain stream b s where r:
    "replay try_push try_pop (empty_ring queue_capacity) json_model (Some stream) bengal
      (late_exit (fixture_trades ''BTC-USD'' 2)) 0 1 = Some (Inr b)"
    "replay try_push try_pop (empty_ring queue_capacity) json_model (Some stream) standard
      (late_exit (fixture_trades ''BTC-USD'' 2)) 0 1 = Some (Inr s)"
    "parse_errors (input b) = 0" "parse_errors (input s) = 0" "events b = 0" "events s = 0"
    "checksum b = checksum s"
    by (rule lossy_replays)
  then have all: "\<forall>r \<in> set [b, s]. \<exists>which turns start finished. replay try_push try_pop
      (empty_ring queue_capacity) json_model (Some stream) which turns start finished = Some (Inr r)"
    by auto
  have "comparable json_model
      [\<lparr>iteration = 1, order_in_pair = 1, run_engine = ''bengal'', run_output = [], run_error = [],
        run_report = report_value json_model ''1'' b\<rparr>,
       \<lparr>iteration = 1, order_in_pair = 2, run_engine = ''standard'', run_output = [], run_error = [],
        run_report = report_value json_model ''1'' s\<rparr>] = Some True"
    using r(3-7) by (subst bundle_gate_of_replays
        [OF json_model.json_library_axioms ring_pipeline.trade_queue_axioms all, where version = "''1''"]) simp_all
  then show ?thesis using r(5,6) by blast
qed

end
